(* ===== verification/Prelude.thy ===== *)
theory Prelude
  imports Main "HOL-Library.Word" "HOL-Library.Monad_Syntax"
begin

text \<open>
  The shared vocabulary of the development: machine integer types, trapping
  assertions as values of \<open>option\<close>, the list edits that \<open>memory_move\<close> performs on arrays,
  the integer helpers of \<open>core/base/math.cppm\<close>, and the lemma collections the
  component theories use.

  Failure. The model is of the build with assertions enabled
  (\<open>k_assert_enabled\<close> in \<open>core/base/types.cppm\<close>): an operation that may trip
  \<open>assert_true\<close> or \<open>assert_not_implemented\<close> returns an \<open>option\<close>, and \<open>None\<close> is the
  trap that ends the process. All other failures are ordinary values.
\<close>

unbundle bit_operations_syntax

named_theorems list_edit \<open>lengths, members and order of edited lists\<close>

type_synonym u8 = "8 word"
type_synonym u16 = "16 word"
type_synonym u32 = "32 word"
type_synonym u64 = "64 word"

section \<open>Trapping assertions\<close>

definition assert_true :: "bool \<Rightarrow> unit option" where
  "assert_true b = (if b then Some () else None)"

lemma assert_true_eq_Some [simp]: "assert_true b = Some u \<longleftrightarrow> b"
  by (simp add: assert_true_def)

lemma assert_true_eq_None [simp]: "assert_true b = None \<longleftrightarrow> \<not> b"
  by (simp add: assert_true_def)

lemma bind_assert_true [simp]:
  "Option.bind (assert_true b) f = (if b then f () else None)"
  by (simp add: assert_true_def)

section \<open>Loops that may trap\<close>

fun map_opt :: "('a \<Rightarrow> 'b option) \<Rightarrow> 'a list \<Rightarrow> 'b list option" where
  "map_opt f [] = Some []"
| "map_opt f (x # xs) = do { y \<leftarrow> f x; ys \<leftarrow> map_opt f xs; Some (y # ys) }"

lemma map_opt_cong [fundef_cong]:
  "xs = ys \<Longrightarrow> (\<And>x. x \<in> set ys \<Longrightarrow> f x = g x) \<Longrightarrow> map_opt f xs = map_opt g ys"
  by (induction xs arbitrary: ys) auto

lemma map_opt_Some_iff: "map_opt f xs = Some ys \<longleftrightarrow> list_all2 (\<lambda>x y. f x = Some y) xs ys"
  by (induction xs arbitrary: ys) (auto simp: bind_eq_Some_conv list_all2_Cons1)

section \<open>Array edits\<close>

text \<open>
  \<open>ins_at i x xs\<close> is the effect of moving the entries from \<open>i\<close> on one place up and
  storing \<open>x\<close> in the gap; \<open>del_at i xs\<close> of moving the entries behind \<open>i\<close> one place down.
\<close>

definition ins_at :: "nat \<Rightarrow> 'a \<Rightarrow> 'a list \<Rightarrow> 'a list" where
  "ins_at i x xs = take i xs @ x # drop i xs"

definition del_at :: "nat \<Rightarrow> 'a list \<Rightarrow> 'a list" where
  "del_at i xs = take i xs @ drop (Suc i) xs"

lemma length_ins_at [simp, list_edit]: "length (ins_at i x xs) = Suc (length xs)"
  by (simp add: ins_at_def)

lemma length_del_at [simp, list_edit]:
  "i < length xs \<Longrightarrow> length (del_at i xs) = length xs - 1"
  by (simp add: del_at_def)

lemma set_ins_at [simp, list_edit]: "set (ins_at i x xs) = insert x (set xs)"
proof -
  have "set (take i xs) \<union> set (drop i xs) = set xs"
    by (simp flip: set_append)
  then show ?thesis by (auto simp: ins_at_def)
qed

lemma del_at_ins_at [simp, list_edit]:
  "i \<le> length xs \<Longrightarrow> del_at i (ins_at i x xs) = xs"
  by (simp add: ins_at_def del_at_def min_def)

lemma ins_at_0 [simp]: "ins_at 0 x xs = x # xs"
  by (simp add: ins_at_def)

lemma ins_at_length [simp]: "ins_at (length xs) x xs = xs @ [x]"
  by (simp add: ins_at_def)

lemma del_at_0 [simp]: "del_at 0 (x # xs) = xs"
  by (simp add: del_at_def)

lemma map_ins_at [list_edit]: "map f (ins_at i x xs) = ins_at i (f x) (map f xs)"
  by (simp add: ins_at_def take_map drop_map)

lemma map_del_at [list_edit]: "map f (del_at i xs) = del_at i (map f xs)"
  by (simp add: del_at_def take_map drop_map)

section \<open>Integer helpers (\<open>core/base/math.cppm\<close>)\<close>

definition ceil_div :: "nat \<Rightarrow> nat \<Rightarrow> nat" where
  "ceil_div a b = (a + b - 1) div b"

lemma ceil_div_le_iff:
  assumes "0 < b" shows "ceil_div a b \<le> n \<longleftrightarrow> a \<le> n * b"
proof -
  have "ceil_div a b \<le> n \<longleftrightarrow> (a + b - 1) div b < Suc n"
    by (simp add: ceil_div_def less_Suc_eq_le)
  also have "\<dots> \<longleftrightarrow> a + b - 1 < Suc n * b"
    by (rule div_less_iff_less_mult [OF assms])
  also have "\<dots> \<longleftrightarrow> a \<le> n * b"
    using assms by auto
  finally show ?thesis .
qed

lemma ceil_div_mult_ge: "0 < b \<Longrightarrow> a \<le> ceil_div a b * b"
  using ceil_div_le_iff [of b a "ceil_div a b"] by simp

lemma ceil_div_0 [simp]: "0 < b \<Longrightarrow> ceil_div 0 b = 0"
  by (simp add: ceil_div_def)

end
