(* ===== verification/Glob.thy ===== *)
theory Glob
  imports Prelude
begin

text \<open>
  The glob matcher of the key-value store, \<open>keyvalue/glob/glob.cpp\<close>: a single loop with
  one backtracking point. Strings are lists of bytes (\<open>char\<close>); the indices \<open>pi\<close> and \<open>ki\<close>
  are the code's, and its sentinel \<open>star_pi = U64(-1)\<close> is \<open>None\<close>. The reference
  matcher \<open>globs\<close> is the textbook recursive definition; the loop is shown to agree
  with it on every key without the byte \<open>*\<close>, and shown not to on one that has it.
\<close>

section \<open>The matcher\<close>

abbreviation (input) star :: char where "star \<equiv> CHR ''*''"
abbreviation (input) quest :: char where "quest \<equiv> CHR ''?''"

fun skip_stars :: "string \<Rightarrow> nat \<Rightarrow> nat \<Rightarrow> nat" where
  "skip_stars pattern 0 pi = pi"
| "skip_stars pattern (Suc fuel) pi =
     (if pi < length pattern \<and> pattern ! pi = star
      then skip_stars pattern fuel (Suc pi) else pi)"

function match_loop ::
  "string \<Rightarrow> string \<Rightarrow> nat \<Rightarrow> nat \<Rightarrow> (nat \<times> nat) option \<Rightarrow> bool" where
  "match_loop key pattern pi ki st =
     (if ki < length key then
        (if pi < length pattern \<and> (pattern ! pi = quest \<or> pattern ! pi = key ! ki) then
           match_loop key pattern (Suc pi) (Suc ki) st
         else if pi < length pattern \<and> pattern ! pi = star then
           match_loop key pattern (Suc pi) ki (Some (pi, ki))
         else (case st of
             Some (star_pi, star_ki) \<Rightarrow>
               match_loop key pattern (Suc star_pi) (Suc star_ki)
                 (Some (star_pi, Suc star_ki))
           | None \<Rightarrow> False))
      else skip_stars pattern (length pattern - pi) pi = length pattern)"
  by pat_completeness auto

text \<open>
  Termination holds from every state, also from those the loop never reaches: a state
  whose key is used up is terminal, a state with \<open>pi\<close> at or before its star is
  left for good at the next star or backtrack, and otherwise the star moves right
  in the pattern, or its anchor moves right in the key, or both cursors advance.
\<close>

definition loop_rank :: "string \<Rightarrow> nat \<Rightarrow> nat \<Rightarrow> (nat \<times> nat) option \<Rightarrow> nat" where
  "loop_rank key pi ki st =
     (if length key \<le> ki then 0
      else (case st of None \<Rightarrow> 1 | Some (sp, sk) \<Rightarrow> if pi \<le> sp then 2 else 1))"

termination match_loop
proof (relation "measures
    [\<lambda>(key, pattern, pi, ki, st). loop_rank key pi ki st,
     \<lambda>(key, pattern, pi, ki, st).
        (case st of None \<Rightarrow> Suc (length pattern) | Some (sp, sk) \<Rightarrow> length pattern - sp),
     \<lambda>(key, pattern, pi, ki, st).
        (case st of None \<Rightarrow> 0 | Some (sp, sk) \<Rightarrow> length key - sk),
     \<lambda>(key, pattern, pi, ki, st). (length pattern - pi) + (length key - ki)]", goal_cases)
qed (auto simp: loop_rank_def split: option.splits if_splits)

declare match_loop.simps [simp del]

definition match :: "string \<Rightarrow> string \<Rightarrow> bool" where
  "match key pattern =
     (if length pattern = 1 \<and> pattern ! 0 = star then True
      else match_loop key pattern 0 0 None)"

section \<open>The reference matcher\<close>

fun globs :: "string \<Rightarrow> string \<Rightarrow> bool" where
  "globs [] ks = (ks = [])"
| "globs (c # ps) [] = (c = star \<and> globs ps [])"
| "globs (c # ps) (k # ks) =
     (if c = star then globs ps (k # ks) \<or> globs (c # ps) ks
      else (c = quest \<or> c = k) \<and> globs ps ks)"

lemma globs_star: "globs (CHR ''*'' # ps) ks \<longleftrightarrow> (\<exists>j\<le>length ks. globs ps (drop j ks))"
proof (induction ks)
  case Nil
  then show ?case by simp
next
  case (Cons k ks)
  show ?case
  proof
    assume "globs (CHR ''*'' # ps) (k # ks)"
    then consider "globs ps (k # ks)" | "globs (CHR ''*'' # ps) ks" by auto
    then show "\<exists>j\<le>length (k # ks). globs ps (drop j (k # ks))"
    proof cases
      case 1
      then show ?thesis by (intro exI [of _ 0]) simp
    next
      case 2
      then obtain j where "j \<le> length ks" "globs ps (drop j ks)" using Cons.IH by auto
      then show ?thesis by (intro exI [of _ "Suc j"]) simp
    qed
  next
    assume "\<exists>j\<le>length (k # ks). globs ps (drop j (k # ks))"
    then obtain j where j: "j \<le> length (k # ks)" "globs ps (drop j (k # ks))" by auto
    then show "globs (CHR ''*'' # ps) (k # ks)"
      using Cons.IH by (cases j) auto
  qed
qed

lemma globs_star_drop:
  assumes "globs (CHR ''*'' # ps) (drop j ks)" "i \<le> j" "j \<le> length ks"
  shows "globs (CHR ''*'' # ps) (drop i ks)"
proof -
  obtain m where m: "m \<le> length (drop j ks)" "globs ps (drop m (drop j ks))"
    using assms(1) globs_star by blast
  moreover have "drop m (drop j ks) = drop (m + j - i) (drop i ks)"
    using assms(2) by simp
  ultimately show ?thesis
    using assms(2,3) globs_star [of ps "drop i ks"] by (auto intro!: exI [of _ "m + j - i"])
qed

text \<open>A star-free segment of the pattern consumes exactly its length.\<close>

lemma globs_segment:
  "CHR ''*'' \<notin> set seg \<Longrightarrow> globs (seg @ ps) ks \<Longrightarrow>
     length seg \<le> length ks \<and> globs ps (drop (length seg) ks)"
proof (induction seg arbitrary: ks)
  case Nil
  then show ?case by simp
next
  case (Cons c seg)
  then show ?case by (cases ks) auto
qed

lemma skip_stars_globs:
  "length pattern - pi \<le> fuel \<Longrightarrow> pi \<le> length pattern \<Longrightarrow>
     skip_stars pattern fuel pi = length pattern \<longleftrightarrow> globs (drop pi pattern) []"
proof (induction pattern fuel pi rule: skip_stars.induct)
  case (1 pattern pi)
  then show ?case by simp
next
  case (2 pattern fuel pi)
  show ?case
  proof (cases "pi < length pattern")
    case True
    then have "drop pi pattern = pattern ! pi # drop (Suc pi) pattern"
      by (simp add: Cons_nth_drop_Suc)
    then show ?thesis using "2" True by auto
  next
    case False
    then show ?thesis using "2.prems" by simp
  qed
qed

section \<open>The loop invariant\<close>

text \<open>
  What is pending when the loop is at \<open>(pi, ki)\<close> with a star at \<open>sp\<close> anchored at \<open>sk\<close>:
  the pattern between the star and \<open>pi\<close> has no star of its own and is aligned with
  the key between \<open>sk\<close> and \<open>ki\<close>.
\<close>

definition loop_inv :: "string \<Rightarrow> string \<Rightarrow> nat \<Rightarrow> nat \<Rightarrow> (nat \<times> nat) option \<Rightarrow> bool" where
  "loop_inv key pattern pi ki st \<longleftrightarrow> pi \<le> length pattern \<and> ki \<le> length key \<and>
     (case st of None \<Rightarrow> True
      | Some (sp, sk) \<Rightarrow> sp < pi \<and> sk \<le> ki \<and> ki - sk = pi - Suc sp \<and>
          CHR ''*'' \<notin> set (take (pi - Suc sp) (drop (Suc sp) pattern)))"

definition pending :: "string \<Rightarrow> string \<Rightarrow> (nat \<times> nat) option \<Rightarrow> bool" where
  "pending key pattern st =
     (case st of None \<Rightarrow> False
      | Some (sp, sk) \<Rightarrow>
          \<exists>j>sk. j \<le> length key \<and> globs (drop (Suc sp) pattern) (drop j key))"

text \<open>Any pending match runs over the aligned segment and continues at or behind \<open>ki\<close>.\<close>

lemma pending_after_segment:
  assumes "loop_inv key pattern pi ki (Some (sp, sk))"
    and "sk < j" "j \<le> length key" "globs (drop (Suc sp) pattern) (drop j key)"
  shows "\<exists>j'>ki. j' \<le> length key \<and> globs (drop pi pattern) (drop j' key)"
proof -
  let ?n = "pi - Suc sp"
  let ?seg = "take ?n (drop (Suc sp) pattern)"
  have n: "length ?seg = ?n" "sp < pi" "ki = sk + ?n"
    and free: "CHR ''*'' \<notin> set ?seg"
    using assms(1) by (auto simp: loop_inv_def)
  have "drop ?n (drop (Suc sp) pattern) = drop pi pattern" using n(2) by simp
  then have split: "drop (Suc sp) pattern = ?seg @ drop pi pattern"
    by (metis append_take_drop_id)
  then have "globs (?seg @ drop pi pattern) (drop j key)" using assms(4) by metis
  from globs_segment [OF free this]
  have "?n \<le> length (drop j key)" "globs (drop pi pattern) (drop (?n + j) key)"
    using n(1) by (simp_all add: add.commute)
  then show ?thesis using n assms(2,3) by (intro exI [of _ "?n + j"]) auto
qed

lemma pending_exhausted:
  assumes "loop_inv key pattern pi ki st" "ki = length key"
  shows "\<not> pending key pattern st"
proof (cases st)
  case (Some a)
  then obtain sp sk where st: "st = Some (sp, sk)" by (cases a) auto
  show ?thesis
  proof
    assume "pending key pattern st"
    then obtain j where "sk < j" "j \<le> length key"
      "globs (drop (Suc sp) pattern) (drop j key)"
      by (auto simp: pending_def st)
    from pending_after_segment [OF assms(1) [unfolded st] this] show False
      using assms(2) by auto
  qed
qed (simp add: pending_def)

lemma loop_inv_step:
  assumes "loop_inv key pattern pi ki st" "pi < length pattern" "ki < length key"
    "pattern ! pi \<noteq> CHR ''*''"
  shows "loop_inv key pattern (Suc pi) (Suc ki) st"
proof (cases st)
  case None
  then show ?thesis using assms by (simp add: loop_inv_def)
next
  case (Some a)
  then obtain sp sk where st: "st = Some (sp, sk)" by (cases a) auto
  have sp: "sp < pi" using assms(1) st by (simp add: loop_inv_def)
  let ?xs = "drop (Suc sp) pattern"
  have "pi - sp = Suc (pi - Suc sp)" "pi - Suc sp < length ?xs" "?xs ! (pi - Suc sp) = pattern ! pi"
    using sp assms(2) by auto
  then have "take (Suc pi - Suc sp) ?xs = take (pi - Suc sp) ?xs @ [pattern ! pi]"
    by (simp add: take_Suc_conv_app_nth)
  then show ?thesis using assms st sp by (auto simp: loop_inv_def)
qed

lemma pending_star:
  assumes inv: "loop_inv key pattern pi ki st" and "pi < length pattern" "ki < length key"
    and "pattern ! pi = CHR ''*''"
  shows "globs (drop pi pattern) (drop ki key) \<or> pending key pattern st \<longleftrightarrow>
     globs (drop (Suc pi) pattern) (drop ki key) \<or> pending key pattern (Some (pi, ki))"
proof -
  have dpi: "drop pi pattern = CHR ''*'' # drop (Suc pi) pattern"
    using assms(2,4) by (simp add: Cons_nth_drop_Suc [symmetric])
  have star_here: "globs (drop pi pattern) (drop ki key)" if pend: "pending key pattern st"
  proof -
    obtain sp sk j where st: "st = Some (sp, sk)" and j: "sk < j" "j \<le> length key"
      "globs (drop (Suc sp) pattern) (drop j key)"
      using pend by (auto simp: pending_def split: option.splits)
    then obtain j' where "ki < j'" "j' \<le> length key" "globs (drop pi pattern) (drop j' key)"
      using pending_after_segment inv by blast
    then show ?thesis unfolding dpi by (auto intro: globs_star_drop)
  qed
  have "globs (drop pi pattern) (drop ki key) \<longleftrightarrow>
    (\<exists>j\<le>length key - ki. globs (drop (Suc pi) pattern) (drop (j + ki) key))"
    unfolding dpi globs_star by simp
  also have "\<dots> \<longleftrightarrow> globs (drop (Suc pi) pattern) (drop ki key) \<or>
    (\<exists>j>ki. j \<le> length key \<and> globs (drop (Suc pi) pattern) (drop j key))" (is "?A \<longleftrightarrow> ?B")
  proof
    assume ?A
    then obtain j where j: "j \<le> length key - ki" "globs (drop (Suc pi) pattern) (drop (j + ki) key)"
      by auto
    show ?B
    proof (cases "j = 0")
      case False
      then have "j + ki > ki \<and> j + ki \<le> length key" using j(1) assms(3) by auto
      then show ?thesis using j(2) by blast
    qed (use j in simp)
  next
    assume ?B
    then show ?A
    proof
      assume "globs (drop (Suc pi) pattern) (drop ki key)"
      then show ?A by (intro exI [of _ 0]) simp
    next
      assume "\<exists>j>ki. j \<le> length key \<and> globs (drop (Suc pi) pattern) (drop j key)"
      then obtain j where "ki < j" "j \<le> length key" "globs (drop (Suc pi) pattern) (drop j key)"
        by auto
      then show ?A by (intro exI [of _ "j - ki"]) simp
    qed
  qed
  finally have "globs (drop pi pattern) (drop ki key) \<longleftrightarrow>
     globs (drop (Suc pi) pattern) (drop ki key) \<or> pending key pattern (Some (pi, ki))"
    by (simp add: pending_def)
  then show ?thesis using star_here by blast
qed

lemma pending_backtrack:
  assumes "sk < length key"
  shows "pending key pattern (Some (sp, sk)) \<longleftrightarrow>
     globs (drop (Suc sp) pattern) (drop (Suc sk) key) \<or> pending key pattern (Some (sp, Suc sk))"
  (is "?A \<longleftrightarrow> ?B")
proof
  assume ?A
  then obtain j where j: "sk < j" "j \<le> length key" "globs (drop (Suc sp) pattern) (drop j key)"
    by (auto simp: pending_def)
  then show ?B by (cases "j = Suc sk") (auto simp: pending_def)
next
  assume ?B
  then show ?A
  proof
    assume "pending key pattern (Some (sp, Suc sk))"
    then obtain j where "Suc sk < j" "j \<le> length key" "globs (drop (Suc sp) pattern) (drop j key)"
      by (auto simp: pending_def)
    then show ?A by (auto simp: pending_def intro!: exI [of _ j])
  qed (use assms in \<open>auto simp: pending_def\<close>)
qed

lemma match_loop_globs:
  assumes "CHR ''*'' \<notin> set key" "loop_inv key pattern pi ki st"
  shows "match_loop key pattern pi ki st \<longleftrightarrow>
     globs (drop pi pattern) (drop ki key) \<or> pending key pattern st"
  using assms
proof (induction key pattern pi ki st rule: match_loop.induct)
  case (1 key pattern pi ki st)
  note free = "1.prems"(1) and inv = "1.prems"(2)
  note unfold = match_loop.simps [of key pattern pi ki st]
  have bounds: "pi \<le> length pattern" "ki \<le> length key" using inv by (auto simp: loop_inv_def)
  show ?case
  proof (cases "ki < length key")
    case False
    then show ?thesis
      using unfold bounds pending_exhausted [OF inv] skip_stars_globs [of pattern pi] by simp
  next
    case ki: True
    then have dki: "drop ki key = key ! ki # drop (Suc ki) key" by (simp add: Cons_nth_drop_Suc)
    have kfree: "key ! ki \<noteq> CHR ''*''" using free nth_mem [OF ki] by metis
    have dpi: "pi < length pattern \<Longrightarrow> drop pi pattern = pattern ! pi # drop (Suc pi) pattern"
      by (simp add: Cons_nth_drop_Suc)
    consider
        (step) "pi < length pattern" "pattern ! pi = CHR ''?'' \<or> pattern ! pi = key ! ki"
      | (star) "pi < length pattern" "pattern ! pi = CHR ''*''"
      | (fail) "pi < length pattern \<longrightarrow> pattern ! pi \<noteq> CHR ''?'' \<and> pattern ! pi \<noteq> key ! ki
                  \<and> pattern ! pi \<noteq> CHR ''*''"
      by blast
    then show ?thesis
    proof cases
      case step
      then have nostar: "pattern ! pi \<noteq> CHR ''*''" using kfree by auto
      have inv': "loop_inv key pattern (Suc pi) (Suc ki) st"
        using loop_inv_step [OF inv step(1) ki nostar] .
      have "match_loop key pattern pi ki st = match_loop key pattern (Suc pi) (Suc ki) st"
        using unfold ki step by simp
      also have "\<dots> \<longleftrightarrow> globs (drop (Suc pi) pattern) (drop (Suc ki) key) \<or> pending key pattern st"
        using "1.IH"(1) [OF ki _ free inv'] step by blast
      finally show ?thesis using dpi [OF step(1)] dki nostar step(2) by simp
    next
      case star
      have inv': "loop_inv key pattern (Suc pi) ki (Some (pi, ki))"
        using star ki by (simp add: loop_inv_def)
      have "\<not> (pattern ! pi = CHR ''?'' \<or> pattern ! pi = key ! ki)" using star kfree by auto
      then have "match_loop key pattern pi ki st = match_loop key pattern (Suc pi) ki (Some (pi, ki))"
        and "match_loop key pattern (Suc pi) ki (Some (pi, ki)) \<longleftrightarrow>
          globs (drop (Suc pi) pattern) (drop ki key) \<or> pending key pattern (Some (pi, ki))"
        using unfold ki star "1.IH"(2) [OF ki _ star(1) [THEN conjI, OF star(2)] free inv']
        by auto
      then show ?thesis using pending_star [OF inv star(1) ki star(2)] by simp
    next
      case fail
      have here: "\<not> globs (drop pi pattern) (drop ki key)"
        using fail dpi dki bounds by (cases "pi < length pattern") auto
      show ?thesis
      proof (cases st)
        case None
        then show ?thesis using unfold ki fail here by (auto simp: pending_def)
      next
        case (Some a)
        then obtain sp sk where st: "st = Some (sp, sk)" by (cases a) auto
        have sk: "sk < length key" and sp: "sp < pi" using inv st ki by (auto simp: loop_inv_def)
        have inv': "loop_inv key pattern (Suc sp) (Suc sk) (Some (sp, Suc sk))"
          using sk sp bounds by (simp add: loop_inv_def)
        have "match_loop key pattern pi ki st =
            match_loop key pattern (Suc sp) (Suc sk) (Some (sp, Suc sk))"
          using unfold ki fail st by auto
        also have "\<dots> \<longleftrightarrow> globs (drop (Suc sp) pattern) (drop (Suc sk) key) \<or>
            pending key pattern (Some (sp, Suc sk))"
          using "1.IH"(3) [OF ki _ _ st refl free inv'] fail by blast
        finally show ?thesis using pending_backtrack [OF sk] here st by simp
      qed
    qed
  qed
qed

section \<open>Properties\<close>

lemma match_globs:
  assumes "CHR ''*'' \<notin> set key"
  shows "match key pattern \<longleftrightarrow> globs pattern key"
proof (cases "length pattern = 1 \<and> pattern ! 0 = CHR ''*''")
  case True
  then have "pattern = [CHR ''*'']" by (cases pattern) auto
  then show ?thesis by (simp add: match_def globs_star) (metis drop_all le_refl)
next
  case False
  then show ?thesis
    using match_loop_globs [OF assms, of pattern 0 0 None]
    by (auto simp: match_def loop_inv_def pending_def)
qed

text \<open>C38 The backtracking loop of the glob matcher decides the reference semantics: on every key
  without the byte \<open>*\<close> it accepts exactly the keys the pattern denotes.\<close>

theorem match_correct:
  assumes "CHR ''*'' \<notin> set key"
  shows "match key pattern \<longleftrightarrow> globs pattern key"
  using assms by (rule match_globs)

theorem match_correct_witness:
  "match ''user:42:name'' ''user:*:n?me'' \<longleftrightarrow> globs ''user:*:n?me'' ''user:42:name''"
  by (rule match_correct) simp

text \<open>The condition on the key is needed: the loop compares a pattern byte with the key before
  it looks for a wildcard, so the star of the pattern is spent on a star of the key and the
  key \<open>*yx\<close> is not matched by \<open>*x\<close>.\<close>

theorem match_misses_starred_key:
  "\<not> match ''*yx'' ''*x'' \<and> globs ''*x'' ''*yx''"
  by (simp add: match_def match_loop.simps)

end
