(* ===== verification/Bytes.thy ===== *)
theory Bytes
  imports Prelude
begin

text \<open>
  Byte strings and the machine representation of integers. \<open>memory_copy\<close> between a
  \<open>w\<close>-bit variable and a buffer is the little-endian encoding of its bits, as on every
  platform the code builds for; \<open>be_bytes\<close> is the big-endian one that the wire formats
  spell out with shifts.

  A reader, the code's \<open>Reader\<close> callback over a stream, takes the remaining bytes of the
  stream and returns what it read and the rest; a read behind the end of the stream traps
  (\<open>None\<close>). A writer appends to a buffer, so a write is the list of bytes it appends.
\<close>

type_synonym bytes = "u8 list"

named_theorems codec \<open>reading back what was written\<close>

section \<open>Little- and big-endian integers\<close>

fun le_bytes :: "nat \<Rightarrow> nat \<Rightarrow> bytes" where
  "le_bytes 0 x = []"
| "le_bytes (Suc n) x = word_of_nat (x mod 256) # le_bytes n (x div 256)"

fun le_nat :: "bytes \<Rightarrow> nat" where
  "le_nat [] = 0"
| "le_nat (b # bs) = unat b + 256 * le_nat bs"

definition be_bytes :: "nat \<Rightarrow> nat \<Rightarrow> bytes" where
  "be_bytes n x = rev (le_bytes n x)"

definition be_nat :: "bytes \<Rightarrow> nat" where
  "be_nat bs = foldl (\<lambda>a b. a * 256 + unat b) 0 bs"

lemma length_le_bytes [simp]: "length (le_bytes n x) = n"
  by (induction n arbitrary: x) auto

lemma length_be_bytes [simp]: "length (be_bytes n x) = n"
  by (simp add: be_bytes_def)

lemma unat_byte [simp]: "unat (word_of_nat (x mod 256) :: u8) = x mod 256"
  by (simp add: unat_of_nat)

lemma unat_byte_less: "unat (b :: u8) < 256"
  using unsigned_less [of b, where ?'a = nat] by simp

lemma le_nat_le_bytes [codec]: "le_nat (le_bytes n x) = x mod 256 ^ n"
proof (induction n arbitrary: x)
  case (Suc n)
  then show ?case by (simp add: mod_mult2_eq [of x 256 "256 ^ n"])
qed simp

lemma le_nat_less: "le_nat bs < 256 ^ length bs"
proof (induction bs)
  case (Cons b bs)
  have "unat b + 256 * le_nat bs < 256 + 256 * le_nat bs" by (simp add: unat_byte_less)
  also have "\<dots> = 256 * (le_nat bs + 1)" by simp
  also have "\<dots> \<le> 256 * 256 ^ length bs" using Cons by (metis Suc_eq_plus1 Suc_leI mult_le_mono2)
  finally show ?case by simp
qed simp

lemma le_bytes_le_nat: "le_bytes (length bs) (le_nat bs) = bs"
proof (induction bs)
  case (Cons b bs)
  have "(unat b + 256 * le_nat bs) mod 256 = unat b" by (simp add: unat_byte_less)
  moreover have "(unat b + 256 * le_nat bs) div 256 = le_nat bs" by (simp add: unat_byte_less)
  ultimately show ?case using Cons by simp
qed simp

lemma le_nat_append: "le_nat (xs @ ys) = le_nat xs + 256 ^ length xs * le_nat ys"
  by (induction xs) (simp_all add: algebra_simps)

lemma be_nat_rev: "be_nat bs = le_nat (rev bs)"
proof -
  have "foldl (\<lambda>a b. a * 256 + unat b) a bs = a * 256 ^ length bs + le_nat (rev bs)" for a
    by (induction bs arbitrary: a) (simp_all add: le_nat_append algebra_simps)
  from this [of 0] show ?thesis by (simp add: be_nat_def)
qed

lemma be_nat_be_bytes [codec]: "be_nat (be_bytes n x) = x mod 256 ^ n"
  by (simp add: be_nat_rev be_bytes_def le_nat_le_bytes)

lemma be_nat_less: "be_nat bs < 256 ^ length bs"
  using le_nat_less [of "rev bs"] by (simp add: be_nat_rev)

lemma be_nat_Nil [simp]: "be_nat [] = 0"
  by (simp add: be_nat_def)

lemma be_nat_append: "be_nat (xs @ ys) = be_nat xs * 256 ^ length ys + be_nat ys"
  by (simp add: be_nat_rev le_nat_append algebra_simps)

lemma be_nat_Cons: "be_nat (x # xs) = unat x * 256 ^ length xs + be_nat xs"
  using be_nat_append [of "[x]" xs] by (simp add: be_nat_rev)

lemma be_nat_snoc: "be_nat (xs @ [x]) = be_nat xs * 256 + unat x"
  by (simp add: be_nat_append) (simp add: be_nat_rev)

text \<open>A variable of the machine: its bytes, and its value from them.\<close>

definition put_word :: "'a::len word \<Rightarrow> bytes" where
  "put_word w = le_bytes (LENGTH('a) div 8) (unat w)"

definition word_at :: "bytes \<Rightarrow> 'a::len word" where
  "word_at bs = word_of_nat (le_nat bs)"

lemma word_at_put_word:
  assumes "8 dvd LENGTH('a)"
  shows "word_at (put_word w) = (w :: 'a::len word)"
proof -
  obtain k where k: "LENGTH('a) = 8 * k" using assms by (rule dvdE)
  then have "(256 :: nat) ^ (LENGTH('a) div 8) = 2 ^ LENGTH('a)" by (simp add: power_mult)
  then show ?thesis by (simp add: put_word_def word_at_def le_nat_le_bytes)
qed

section \<open>Readers\<close>

definition rd :: "nat \<Rightarrow> bytes \<Rightarrow> (bytes \<times> bytes) option" where
  "rd n bs = (if n \<le> length bs then Some (take n bs, drop n bs) else None)"

definition rd_u8 :: "bytes \<Rightarrow> (u8 \<times> bytes) option" where
  "rd_u8 bs = map_option (\<lambda>(xs, r). (word_at xs, r)) (rd 1 bs)"

definition rd_u16 :: "bytes \<Rightarrow> (u16 \<times> bytes) option" where
  "rd_u16 bs = map_option (\<lambda>(xs, r). (word_at xs, r)) (rd 2 bs)"

definition rd_u32 :: "bytes \<Rightarrow> (u32 \<times> bytes) option" where
  "rd_u32 bs = map_option (\<lambda>(xs, r). (word_at xs, r)) (rd 4 bs)"

definition rd_u64 :: "bytes \<Rightarrow> (u64 \<times> bytes) option" where
  "rd_u64 bs = map_option (\<lambda>(xs, r). (word_at xs, r)) (rd 8 bs)"

lemma rd_append [simp, codec]: "length xs = n \<Longrightarrow> rd n (xs @ bs) = Some (xs, bs)"
  by (auto simp: rd_def)

lemma length_put_word [simp]: "length (put_word (w :: 'a::len word)) = LENGTH('a) div 8"
  by (simp add: put_word_def)

lemma rd_put_word [simp, codec]:
  "rd_u8 (put_word a @ bs) = Some (a, bs)"
  "rd_u16 (put_word b @ bs) = Some (b, bs)"
  "rd_u32 (put_word c @ bs) = Some (c, bs)"
  "rd_u64 (put_word d @ bs) = Some (d, bs)"
  by (simp_all add: rd_u8_def rd_u16_def rd_u32_def rd_u64_def word_at_put_word)

section \<open>Widening and narrowing\<close>

lemma unat_drop_bit_div: "unat (drop_bit n w) = unat w div 2 ^ n"
  using unat_drop_bit_eq [of n w] drop_bit_eq_div [of n "unat w"] by (rule trans)

lemma take_bit_byte: "8 \<le> n \<Longrightarrow> take_bit n (unat (b :: u8)) = unat b"
  using power_increasing [of 8 n "2 :: nat"] unat_byte_less [of b]
  by (intro take_bit_nat_eq_self) simp

lemma take_bit_word32: "take_bit 64 (unat (w :: u32)) = unat w"
  using unsigned_less [of w, where ?'a = nat] by (intro take_bit_nat_eq_self) simp

lemma unat_ucast_up [simp]:
  "unat (ucast (b :: u8) :: u32) = unat b" "unat (ucast (b :: u8) :: u64) = unat b"
  "unat (ucast (b :: u8) :: u16) = unat b"
  by (simp_all add: unsigned_ucast_eq take_bit_byte)

lemma unat_low_byte: "unat (ucast (v AND 0xFF :: u32) :: u8) = unat v mod 256"
proof -
  have m: "(0xFF :: u32) = mask 8" by (simp add: mask_numeral)
  have "ucast (v AND 0xFF) = (ucast v :: u8)"
    unfolding m by (rule bit_word_eqI) (auto simp: bit_simps)
  then show ?thesis by (simp add: unsigned_ucast_eq take_bit_eq_mod)
qed

end
