(* ===== verification/Text.thy ===== *)
theory Text
  imports Bytes "HOL-Library.Sublist"
begin

text \<open>
  Strings, \<open>core/base/string.cpp\<close>. A \<open>String8\<close> or \<open>AutoString8\<close> is its bytes; the
  zero byte behind an owned string and the heap block it lives in are not part of the
  model. \<open>strtol\<close> and its relatives are modelled as the C standard describes them in
  base ten (leading white space, an optional sign, the longest run of digits, clamping to
  the type), and the \<open>"%lld"\<close> family of formats as decimal notation.
\<close>

section \<open>Literals\<close>

definition chr :: "char \<Rightarrow> u8" where
  "chr c = of_char c"

definition ascii :: "string \<Rightarrow> bytes" where
  "ascii s = map chr s"

lemma ascii_Nil [simp]: "ascii [] = []"
  by (simp add: ascii_def)

lemma ascii_Cons: "ascii (c # s) = chr c # ascii s"
  by (simp add: ascii_def)

lemmas ascii_eval = ascii_Cons chr_def of_char_def

section \<open>Comparison and search\<close>

definition str_eq :: "bytes \<Rightarrow> bytes \<Rightarrow> bool" where
  "str_eq a b = (length a = length b \<and> list_all (\<lambda>i. a ! i = b ! i) [0..<length b])"

text \<open>
  The first argument is the contents of a zero-terminated array up to its terminator, so
  the loop's test for the terminator is the end of the list.
\<close>

fun cstr_eq :: "bytes \<Rightarrow> bytes \<Rightarrow> bool" where
  "cstr_eq [] b = (b = [])"
| "cstr_eq (x # a) [] = True"
| "cstr_eq (x # a) (y # b) = (if x \<noteq> y then False else cstr_eq a b)"

fun find_from :: "nat \<Rightarrow> bytes \<Rightarrow> u8 \<Rightarrow> nat option" where
  "find_from i [] c = None"
| "find_from i (x # xs) c = (if x = c then Some i else find_from (Suc i) xs c)"

definition find_char :: "bytes \<Rightarrow> u8 \<Rightarrow> nat option" where
  "find_char s c = find_from 0 s c"

definition match_at :: "bytes \<Rightarrow> bytes \<Rightarrow> nat \<Rightarrow> bool" where
  "match_at haystack needle i = list_all (\<lambda>j. haystack ! (i + j) = needle ! j) [0..<length needle]"

definition contains :: "bytes \<Rightarrow> bytes \<Rightarrow> bool" where
  "contains haystack needle =
     (if length haystack < length needle then False
      else list_ex (match_at haystack needle) [0..<Suc (length haystack - length needle)])"

lemma str_eq_iff [simp]: "str_eq a b \<longleftrightarrow> a = b"
  by (auto simp: str_eq_def list_all_iff intro: nth_equalityI)

lemma cstr_eq_iff_prefix: "cstr_eq a b \<longleftrightarrow> prefix b a"
  by (induction a b rule: cstr_eq.induct) auto

lemma find_from_Some: "find_from i s c = Some k \<longleftrightarrow>
    (\<exists>j < length s. k = i + j \<and> s ! j = c \<and> (\<forall>l < j. s ! l \<noteq> c))"
proof (induction s arbitrary: i)
  case (Cons x xs)
  show ?case
  proof (cases "x = c")
    case True
    then show ?thesis by (auto simp: nth_Cons')
  next
    case False
    have "(\<exists>j < length xs. k = Suc i + j \<and> xs ! j = c \<and> (\<forall>l < j. xs ! l \<noteq> c)) \<longleftrightarrow>
      (\<exists>j < length (x # xs). k = i + j \<and> (x # xs) ! j = c \<and> (\<forall>l < j. (x # xs) ! l \<noteq> c))"
      (is "?l = ?r")
    proof
      assume ?l
      then obtain j where "j < length xs" "k = Suc i + j" "xs ! j = c" "\<forall>l < j. xs ! l \<noteq> c"
        by blast
      with False show ?r by (intro exI [of _ "Suc j"]) (auto simp: nth_Cons')
    next
      assume ?r
      then obtain j where j: "j < length (x # xs)" "k = i + j" "(x # xs) ! j = c"
        "\<forall>l < j. (x # xs) ! l \<noteq> c" by blast
      with False obtain j' where "j = Suc j'" by (cases j) auto
      with j show ?l by (intro exI [of _ j']) fastforce
    qed
    with False Cons show ?thesis by simp
  qed
qed simp

lemma match_at_iff:
  assumes "i + length needle \<le> length haystack"
  shows "match_at haystack needle i \<longleftrightarrow> take (length needle) (drop i haystack) = needle"
proof -
  have "match_at haystack needle i \<longleftrightarrow> (\<forall>j < length needle. drop i haystack ! j = needle ! j)"
    using assms by (auto simp: match_at_def list_all_iff)
  also have "\<dots> \<longleftrightarrow> take (length needle) (drop i haystack) = needle"
    using assms by (auto simp: list_eq_iff_nth_eq)
  finally show ?thesis .
qed

lemma contains_iff_sublist: "contains haystack needle \<longleftrightarrow> sublist needle haystack"
proof
  assume "contains haystack needle"
  then obtain i where "i < Suc (length haystack - length needle)"
    "match_at haystack needle i" "length needle \<le> length haystack"
    by (auto simp: contains_def list_ex_iff simp del: upt_Suc split: if_splits)
  then have "i + length needle \<le> length haystack" "match_at haystack needle i" by simp_all
  then have "haystack = take i haystack @ needle @ drop (length needle) (drop i haystack)"
    by (metis append_take_drop_id match_at_iff)
  then show "sublist needle haystack" unfolding sublist_def by blast
next
  assume "sublist needle haystack"
  then obtain ps ss where h: "haystack = ps @ needle @ ss" by (auto simp: sublist_def)
  then have "match_at haystack needle (length ps)" by (subst match_at_iff) auto
  moreover have "\<not> length haystack < length needle"
    "length ps < Suc (length haystack - length needle)" using h by auto
  ultimately show "contains haystack needle"
    unfolding contains_def list_ex_iff by (simp del: upt_Suc) (metis atLeastLessThan_iff le0)
qed

section \<open>Case and hexadecimal\<close>

definition lower :: "u8 \<Rightarrow> u8" where
  "lower c = (if chr CHR ''A'' \<le> c \<and> c \<le> chr CHR ''Z'' then c + 32 else c)"

definition to_lowercase :: "bytes \<Rightarrow> bytes" where
  "to_lowercase s = map lower s"

lemma lower_lower [simp]: "lower (lower c) = lower c"
proof -
  have "lower c \<notin> {chr CHR ''A''..chr CHR ''Z''}"
    by (auto simp: lower_def chr_def word_le_nat_alt unat_word_ariths split: if_splits)
  then show ?thesis by (simp add: lower_def [of "lower c"])
qed

definition hx :: "u8 list" where
  "hx = ascii ''0123456789abcdef''"

definition bytes_to_hex :: "bytes \<Rightarrow> bytes" where
  "bytes_to_hex d = concat (map (\<lambda>b. [hx ! unat (drop_bit 4 b), hx ! unat (b AND 0xf)]) d)"

lemma hx_distinct: "distinct hx" "length hx = 16"
  by (simp_all add: hx_def ascii_eval)

lemma nibbles:
  "unat (drop_bit 4 (b :: u8)) = unat b div 16" "unat (b AND 0xf) = unat b mod 16"
proof -
  show "unat (drop_bit 4 b) = unat b div 16"
    by (simp add: drop_bit_eq_div unat_div)
  have "b AND 0xf = take_bit 4 b" by (simp add: take_bit_eq_mask mask_numeral)
  then show "unat (b AND 0xf) = unat b mod 16"
    by (simp add: take_bit_eq_mod unat_mod)
qed

lemma bytes_to_hex_inj: "bytes_to_hex a = bytes_to_hex b \<Longrightarrow> a = b"
proof (induction a arbitrary: b)
  case Nil
  then show ?case by (cases b) (simp_all add: bytes_to_hex_def)
next
  case (Cons x a)
  then obtain y b' where b: "b = y # b'" by (cases b) (simp_all add: bytes_to_hex_def)
  have "unat x div 16 = unat y div 16" "unat x mod 16 = unat y mod 16"
    using Cons.prems unat_byte_less [of x] unat_byte_less [of y]
    by (simp_all add: b bytes_to_hex_def nibbles nth_eq_iff_index_eq hx_distinct less_mult_imp_div_less)
  then have "x = y" by (metis div_mult_mod_eq unsigned_word_eqI)
  moreover have "a = b'" using Cons by (simp add: b bytes_to_hex_def)
  ultimately show ?case by (simp add: b)
qed

section \<open>Decimal numbers\<close>

definition is_space :: "u8 \<Rightarrow> bool" where
  "is_space c = (c = 32 \<or> 9 \<le> c \<and> c \<le> 13)"

definition is_digit :: "u8 \<Rightarrow> bool" where
  "is_digit c = (chr CHR ''0'' \<le> c \<and> c \<le> chr CHR ''9'')"

definition digit_val :: "u8 \<Rightarrow> nat" where
  "digit_val c = unat c - 48"

definition dec_nat :: "bytes \<Rightarrow> nat" where
  "dec_nat ds = foldl (\<lambda>a c. a * 10 + digit_val c) 0 ds"

fun dec_str :: "nat \<Rightarrow> bytes" where
  "dec_str n = (if n < 10 then [48 + word_of_nat n] else dec_str (n div 10) @ [48 + word_of_nat (n mod 10)])"

declare dec_str.simps [simp del]

text \<open>The sign and the magnitude that \<open>strtoll\<close> and \<open>strtoull\<close> scan.\<close>

definition scan_number :: "bytes \<Rightarrow> bool \<times> nat" where
  "scan_number x = (let x = dropWhile is_space x in
     case x of [] \<Rightarrow> (False, 0)
     | c # cs \<Rightarrow>
         if c = chr CHR ''-'' then (True, dec_nat (takeWhile is_digit cs))
         else if c = chr CHR ''+'' then (False, dec_nat (takeWhile is_digit cs))
         else (False, dec_nat (takeWhile is_digit x)))"

definition s64_from_str :: "bytes \<Rightarrow> u64" where
  "s64_from_str x = (case scan_number x of (neg, n) \<Rightarrow>
     if neg then - word_of_nat (min n (2 ^ 63)) else word_of_nat (min n (2 ^ 63 - 1)))"

definition u64_from_str :: "bytes \<Rightarrow> u64" where
  "u64_from_str x = (case scan_number x of (neg, n) \<Rightarrow>
     if 2 ^ 64 \<le> n then - 1 else if neg then - word_of_nat n else word_of_nat n)"

definition s32_from_str :: "bytes \<Rightarrow> u32" where
  "s32_from_str x = ucast (s64_from_str x)"

definition u32_from_str :: "bytes \<Rightarrow> u32" where
  "u32_from_str x = ucast (u64_from_str x)"

definition s16_from_str :: "bytes \<Rightarrow> u16" where
  "s16_from_str x = ucast (s64_from_str x)"

definition u16_from_str :: "bytes \<Rightarrow> u16" where
  "u16_from_str x = ucast (u64_from_str x)"

definition s8_from_str :: "bytes \<Rightarrow> u8" where
  "s8_from_str x = ucast (s64_from_str x)"

definition u8_from_str :: "bytes \<Rightarrow> u8" where
  "u8_from_str x = ucast (u64_from_str x)"

definition bool_from_str :: "bytes \<Rightarrow> bool" where
  "bool_from_str x = (cstr_eq (ascii ''true'') x \<or> cstr_eq (ascii ''1'') x)"

definition to_str_signed :: "'a::len word \<Rightarrow> bytes" where
  "to_str_signed x = (if sint x < 0 then chr CHR ''-'' # dec_str (nat (- sint x)) else dec_str (nat (sint x)))"

definition to_str_unsigned :: "'a::len word \<Rightarrow> bytes" where
  "to_str_unsigned x = dec_str (unat x)"

definition to_str_bool :: "bool \<Rightarrow> bytes" where
  "to_str_bool x = (if x then ascii ''true'' else ascii ''false'')"

lemma digit_char:
  assumes "d < 10"
  shows "is_digit (48 + word_of_nat d)" "digit_val (48 + word_of_nat d) = d"
proof -
  have "unat (48 + word_of_nat d :: u8) = 48 + d"
    using assms by (simp add: unat_word_ariths unat_of_nat)
  then show "is_digit (48 + word_of_nat d)" "digit_val (48 + word_of_nat d) = d"
    using assms by (simp_all add: is_digit_def digit_val_def word_le_nat_alt chr_def)
qed

lemma digit_step:
  assumes "is_digit c"
  shows "word_of_nat a * 10 + (ucast c - 48) = (word_of_nat (a * 10 + digit_val c) :: u64)"
    "\<not> (c < chr CHR ''0'' \<or> chr CHR ''9'' < c)"
proof -
  have "48 \<le> unat c" using assms by (simp add: is_digit_def chr_def word_le_nat_alt)
  then have "(ucast c - 48 :: u64) = word_of_nat (digit_val c)"
    by (simp add: digit_val_def of_nat_diff)
  then show "word_of_nat a * 10 + (ucast c - 48) = (word_of_nat (a * 10 + digit_val c) :: u64)" by simp
  show "\<not> (c < chr CHR ''0'' \<or> chr CHR ''9'' < c)" using assms by (auto simp: is_digit_def)
qed

lemma dec_nat_snoc: "dec_nat (ds @ [c]) = dec_nat ds * 10 + digit_val c"
  by (simp add: dec_nat_def)

lemma dec_str_digits: "c \<in> set (dec_str n) \<Longrightarrow> is_digit c"
proof (induction n rule: dec_str.induct)
  case (1 n)
  then show ?case using digit_char [of n] digit_char [of "n mod 10"]
    by (subst (asm) (2) dec_str.simps) (auto split: if_splits)
qed

lemma dec_nat_dec_str [simp]: "dec_nat (dec_str n) = n"
proof (induction n rule: dec_str.induct)
  case (1 n)
  show ?case
  proof (cases "n < 10")
    case True
    then show ?thesis
      using digit_char [of n] by (subst dec_str.simps) (simp add: dec_nat_def)
  next
    case False
    then show ?thesis
      using 1 digit_char [of "n mod 10"] by (subst dec_str.simps) (simp add: dec_nat_snoc)
  qed
qed

lemma dec_str_not_Nil [simp]: "dec_str n \<noteq> []"
  by (subst dec_str.simps) simp

lemma takeWhile_digits: "(\<forall>c \<in> set ds. is_digit c) \<Longrightarrow> takeWhile is_digit ds = ds"
  by (simp add: takeWhile_eq_all_conv)

lemma digit_not_sign: "is_digit c \<Longrightarrow> \<not> is_space c \<and> c \<noteq> chr CHR ''-'' \<and> c \<noteq> chr CHR ''+''"
  by (auto simp: is_digit_def is_space_def chr_def word_le_nat_alt)

lemma takeWhile_dec_str [simp]: "takeWhile is_digit (dec_str n) = dec_str n"
  using dec_str_digits [of _ n] by (intro takeWhile_digits) simp

lemma scan_dec_str [simp]: "scan_number (dec_str n) = (False, n)"
proof -
  obtain c cs where c: "dec_str n = c # cs" by (cases "dec_str n") auto
  then have "is_digit c" using dec_str_digits by (metis list.set_intros(1))
  moreover from c have "dec_nat (takeWhile is_digit (c # cs)) = n"
    by (metis takeWhile_dec_str dec_nat_dec_str)
  ultimately show ?thesis
    by (simp add: scan_number_def c digit_not_sign del: takeWhile.simps)
qed

lemma scan_minus [simp]: "scan_number (chr CHR ''-'' # dec_str n) = (True, n)"
  by (simp add: scan_number_def is_space_def chr_def)

lemma word_of_nat_nat: "0 \<le> i \<Longrightarrow> word_of_nat (nat i) = (word_of_int i :: 'a::len word)"
  by (metis nat_0_le of_int_of_nat_eq)

lemma s64_from_str_signed:
  assumes "LENGTH('a::len) \<le> 64"
  shows "s64_from_str (to_str_signed (x :: 'a word)) = scast x"
proof -
  have "(2 :: int) ^ (LENGTH('a) - 1) \<le> 2 ^ 63"
    using assms by (intro power_increasing) auto
  moreover have "- (2 ^ (LENGTH('a) - 1)) \<le> sint x" "sint x < 2 ^ (LENGTH('a) - 1)"
    by (rule sint_ge, rule sint_lt)
  ultimately have b: "- (2 ^ 63) \<le> sint x" "sint x < 2 ^ 63" by linarith+
  show ?thesis
  proof (cases "sint x < 0")
    case True
    with b have m: "min (nat (- sint x)) (2 ^ 63) = nat (- sint x)" by (simp add: min_def)
    have "s64_from_str (to_str_signed x) = - word_of_nat (nat (- sint x))"
      using True by (simp only: s64_from_str_def to_str_signed_def scan_minus if_True prod.case m)
    also have "\<dots> = - (word_of_int (- sint x) :: u64)"
      using True by (subst word_of_nat_nat) simp_all
    finally show ?thesis by simp
  next
    case False
    with b have m: "min (nat (sint x)) (2 ^ 63 - 1) = nat (sint x)" by (simp add: min_def)
    have "s64_from_str (to_str_signed x) = word_of_nat (nat (sint x))"
      using False by (simp only: s64_from_str_def to_str_signed_def scan_dec_str if_False prod.case m)
    then show ?thesis using False by (simp add: word_of_nat_nat)
  qed
qed

lemma u64_from_str_unsigned:
  assumes "LENGTH('a::len) \<le> 64"
  shows "u64_from_str (to_str_unsigned (x :: 'a word)) = ucast x"
proof -
  have "unat x < 2 ^ LENGTH('a)" by (rule unsigned_less)
  also have "\<dots> \<le> (2 :: nat) ^ 64" using assms by (intro power_increasing) auto
  finally show ?thesis by (simp add: u64_from_str_def to_str_unsigned_def)
qed

lemma narrow_widen:
  fixes x :: "'a::len word"
  assumes "LENGTH('a) \<le> LENGTH('b)"
  shows "ucast (ucast x :: 'b::len word) = x" "ucast (scast x :: 'b word) = x"
  using assms by (auto intro!: bit_word_eqI simp: bit_simps dest: bit_imp_le_length)

text \<open>Every machine integer the server prints in decimal reads back as the same
  integer, at each of the eight types, the extreme values included.\<close>

theorem decimal_roundtrip:
  "s64_from_str (to_str_signed a) = a \<and> u64_from_str (to_str_unsigned a) = a \<and>
   s32_from_str (to_str_signed b) = b \<and> u32_from_str (to_str_unsigned b) = b \<and>
   s16_from_str (to_str_signed c) = c \<and> u16_from_str (to_str_unsigned c) = c \<and>
   s8_from_str (to_str_signed d) = d \<and> u8_from_str (to_str_unsigned d) = d"
  by (simp add: s32_from_str_def u32_from_str_def s16_from_str_def u16_from_str_def
      s8_from_str_def u8_from_str_def s64_from_str_signed u64_from_str_unsigned narrow_widen)

section \<open>Formatted output through a bounded buffer\<close>

text \<open>
  \<open>append_fmt_callback\<close> receives a piece of formatted text and copies it into the buffer
  of a \<open>BufferedString8\<close>, which it flushes when it is full. The state is what the buffer
  holds and what has been flushed; \<open>cap\<close> is the size of the buffer. Nothing bounds
  the loop when the buffer has no room at all, so it is a partial function.
\<close>

partial_function (option) append_fmt_callback ::
    "nat \<Rightarrow> bytes \<Rightarrow> bytes \<Rightarrow> bytes \<Rightarrow> (bytes \<times> bytes) option" where
  "append_fmt_callback cap held flushed src =
     (if src = [] then Some (held, flushed)
      else let full = cap - length held = 0;
               flushed = (if full then flushed @ held else flushed);
               held = (if full then [] else held);
               to_copy = min (length src) (cap - length held)
           in append_fmt_callback cap (held @ take to_copy src) flushed (drop to_copy src))"

lemma append_fmt_callback_spec:
  assumes "0 < cap" "length held \<le> cap"
  shows "\<exists>held' flushed'. append_fmt_callback cap held flushed src = Some (held', flushed') \<and>
    flushed' @ held' = flushed @ held @ src \<and> length held' \<le> cap \<and>
    length flushed' mod cap = length flushed mod cap"
  using assms
proof (induction "length src" arbitrary: held flushed src rule: less_induct)
  case less
  show ?case
  proof (cases "src = []")
    case True
    then show ?thesis using less.prems by (subst append_fmt_callback.simps) simp
  next
    case False
    define full where "full = (cap - length held = 0)"
    define f where "f = (if full then flushed @ held else flushed)"
    define h where "h = (if full then [] else held)"
    define n where "n = min (length src) (cap - length h)"
    have h: "f @ h = flushed @ held" "length f mod cap = length flushed mod cap" "length h < cap"
      using less.prems by (auto simp: f_def h_def full_def)
    have n: "0 < n" "n \<le> length src" using h False by (auto simp: n_def)
    have "\<exists>held' flushed'. append_fmt_callback cap (h @ take n src) f (drop n src) = Some (held', flushed') \<and>
      flushed' @ held' = f @ (h @ take n src) @ drop n src \<and> length held' \<le> cap \<and>
      length flushed' mod cap = length f mod cap"
      using n h less.prems by (intro less.hyps) (auto simp: n_def)
    moreover have "append_fmt_callback cap held flushed src = append_fmt_callback cap (h @ take n src) f (drop n src)"
      using False by (subst append_fmt_callback.simps) (simp add: Let_def f_def h_def full_def n_def)
    moreover have "f @ (h @ take n src) @ drop n src = flushed @ held @ src"
      by (metis append.assoc append_take_drop_id h(1))
    ultimately show ?thesis by (simp only: h(2))
  qed
qed

lemma append_fmt_callback_no_room:
  assumes "append_fmt_callback cap held flushed src = Some r"
  shows "cap = 0 \<longrightarrow> src = []"
proof (rule append_fmt_callback.raw_induct [OF _ assms])
  fix f cap held flushed src and r :: "bytes \<times> bytes"
  assume "\<And>cap held flushed src r. f cap held flushed src = Some r \<Longrightarrow> cap = 0 \<longrightarrow> src = []"
    and "(if src = [] then Some (held, flushed)
      else let full = cap - length held = 0;
               flushed = (if full then flushed @ held else flushed);
               held = (if full then [] else held);
               to_copy = min (length src) (cap - length held)
           in f cap (held @ take to_copy src) flushed (drop to_copy src)) = Some r"
  then show "cap = 0 \<longrightarrow> src = []" by (fastforce simp: Let_def split: if_splits)
qed

text \<open>Copying formatted text into a buffered string ends for every buffer with
  room for a byte: nothing is lost or reordered between the flushed text and the buffer, the buffer
  never overflows, and every flush hands over a full buffer. A buffer without room makes it run
  forever on any text.\<close>

theorem buffered_append_terminates:
  "(if cap = 0 then append_fmt_callback cap [] flushed (c # src) = None
    else \<exists>held flushed'. append_fmt_callback cap [] flushed src = Some (held, flushed') \<and>
      flushed' @ held = flushed @ src \<and> length held \<le> cap \<and>
      length flushed' mod cap = length flushed mod cap)"
  using append_fmt_callback_spec [of cap "[]" flushed src]
    append_fmt_callback_no_room [of cap "[]" flushed "c # src"]
  by (cases "append_fmt_callback cap [] flushed (c # src)") auto

end
