(* ===== verification/Resp.thy ===== *)
theory Resp
  imports Text
begin

text \<open>
  The wire protocol of the key-value store: requests
  (\<open>keyvalue/parsers/parsers.cpp\<close>, statements of \<open>keyvalue/engine/statements.cppm\<close>) and
  replies (\<open>keyvalue/resp/resp.protocol.cpp\<close>). A pointer into the receive buffer is the
  suffix of the buffer it starts, so \<open>p == end\<close> is the empty suffix and \<open>eol - p\<close> an
  offset. Lengths are read into \<open>S64\<close> and wrap; an address plus a length read
  from the wire is assumed not to wrap around the address space.
\<close>

section \<open>Statements\<close>

datatype statement =
    Ping "bytes option" | Quit | Get bytes | Set bytes bytes bool bool
  | Del "bytes list" | Exists "bytes list" | Mget "bytes list" | Mset "(bytes \<times> bytes) list"
  | Keys bytes | Scan u64 "bytes option" "u64 option"
  | FlushDb | FlushAll | DbSize | TypeOf bytes | Cmd | SelectDb u64 | ClientGetName
  | Client "bytes list" | Info "bytes option" | Unknown bytes "bytes list"

definition upper :: "u8 \<Rightarrow> u8" where
  "upper c = (if chr CHR ''a'' \<le> c \<and> c \<le> chr CHR ''z'' then c - 32 else c)"

definition arg_eq :: "bytes \<Rightarrow> string \<Rightarrow> bool" where
  "arg_eq a b = (let b = ascii b in
     if length a \<noteq> length b then False
     else list_all (\<lambda>i. upper (a ! i) = upper (b ! i)) [0..<length a])"

text \<open>The options of \<open>SET\<close>; an expiry trips \<open>assert_not_implemented\<close>.\<close>

fun set_options :: "bytes list \<Rightarrow> bool \<Rightarrow> bool \<Rightarrow> (bool \<times> bool) option" where
  "set_options [] nx xx = Some (nx, xx)"
| "set_options (a # args) nx xx =
     (if arg_eq a ''NX'' then set_options args True xx
      else if arg_eq a ''XX'' then set_options args nx True
      else if arg_eq a ''EX'' \<or> arg_eq a ''PX'' \<or> arg_eq a ''EXAT'' \<or> arg_eq a ''PXAT'' then None
      else set_options args nx xx)"

fun mset_pairs :: "bytes list \<Rightarrow> (bytes \<times> bytes) list" where
  "mset_pairs (k # v # rest) = (k, v) # mset_pairs rest"
| "mset_pairs _ = []"

fun scan_options :: "bytes list \<Rightarrow> bytes option \<Rightarrow> u64 option \<Rightarrow> bytes option \<times> u64 option" where
  "scan_options (a # v # rest) pat cnt =
     (if arg_eq a ''MATCH'' then scan_options rest (Some v) cnt
      else if arg_eq a ''COUNT'' then scan_options rest pat (Some (u64_from_str v))
      else scan_options rest pat cnt)"
| "scan_options _ pat cnt = (pat, cnt)"

fun build_from_args :: "bytes list \<Rightarrow> statement option" where
  "build_from_args [] = Some (Unknown [] [])"
| "build_from_args (name # args) =
     (if arg_eq name ''PING'' then
        Some (Ping (case args of m # _ \<Rightarrow> Some m | [] \<Rightarrow> None))
      else if arg_eq name ''QUIT'' then Some Quit
      else if arg_eq name ''GET'' then
        Some (case args of k # _ \<Rightarrow> Get k | [] \<Rightarrow> Unknown name [])
      else if arg_eq name ''TYPE'' then
        Some (case args of k # _ \<Rightarrow> TypeOf k | [] \<Rightarrow> Unknown name [])
      else if arg_eq name ''DBSIZE'' then Some DbSize
      else if arg_eq name ''COMMAND'' then Some Cmd
      else if arg_eq name ''FLUSHDB'' then Some FlushDb
      else if arg_eq name ''FLUSHALL'' then Some FlushAll
      else if arg_eq name ''SELECT'' then
        Some (SelectDb (case args of i # _ \<Rightarrow> u64_from_str i | [] \<Rightarrow> 0))
      else if arg_eq name ''KEYS'' then
        Some (Keys (case args of p # _ \<Rightarrow> p | [] \<Rightarrow> ascii ''*''))
      else if arg_eq name ''INFO'' then
        Some (Info (case args of s # _ \<Rightarrow> Some s | [] \<Rightarrow> None))
      else if arg_eq name ''SET'' then
        (case args of
           k # v # opts \<Rightarrow> do { (nx, xx) \<leftarrow> set_options opts False False; Some (Set k v nx xx) }
         | _ \<Rightarrow> Some (Unknown name []))
      else if arg_eq name ''DEL'' \<or> arg_eq name ''EXISTS'' \<or> arg_eq name ''MGET'' then
        Some (if arg_eq name ''DEL'' then Del args
              else if arg_eq name ''EXISTS'' then Exists args else Mget args)
      else if arg_eq name ''MSET'' then Some (Mset (mset_pairs args))
      else if arg_eq name ''SCAN'' then
        (case args of
           c # opts \<Rightarrow> (case scan_options opts None None of
             (pat, cnt) \<Rightarrow> Some (Scan (u64_from_str c) pat cnt))
         | [] \<Rightarrow> Some (Unknown name []))
      else if arg_eq name ''CLIENT'' then
        (case args of
           sub # _ \<Rightarrow> Some (if arg_eq sub ''GETNAME'' then ClientGetName else Client args)
         | [] \<Rightarrow> Some (Client args))
      else Some (Unknown name args))"

section \<open>Parsing\<close>

fun find_crlf :: "bytes \<Rightarrow> nat option" where
  "find_crlf (a # b # p) =
     (if a = 13 \<and> b = 10 then Some 0 else map_option Suc (find_crlf (b # p)))"
| "find_crlf _ = None"

fun parse_digits :: "u64 \<Rightarrow> bytes \<Rightarrow> u64 option" where
  "parse_digits r [] = Some r"
| "parse_digits r (c # p) =
     (if c < chr CHR ''0'' \<or> chr CHR ''9'' < c then None
      else parse_digits (r * 10 + (ucast c - 48)) p)"

definition parse_decimal :: "bytes \<Rightarrow> u64 option" where
  "parse_decimal p =
     (case p of [] \<Rightarrow> None
      | c # cs \<Rightarrow>
          let neg = (c = chr CHR ''-''); p = (if neg then cs else p) in
          if p = [] then None
          else map_option (\<lambda>r. if neg then - r else r) (parse_digits 0 p))"

text \<open>What a parsing step comes to: a value, a request for more input, or a protocol error.\<close>

datatype 'a parsed = Ok 'a | Incomplete | Error

fun bulk_args :: "nat \<Rightarrow> bytes list \<Rightarrow> bytes \<Rightarrow> (bytes list \<times> bytes) parsed" where
  "bulk_args 0 args p = Ok (args, p)"
| "bulk_args (Suc n) args p =
     (case p of [] \<Rightarrow> Error
      | c # p \<Rightarrow> if c \<noteq> chr CHR ''$'' then Error else
          (case find_crlf p of None \<Rightarrow> Incomplete
           | Some eol \<Rightarrow>
               (case parse_decimal (take eol p) of None \<Rightarrow> Error
                | Some bulk_len \<Rightarrow>
                    if sint bulk_len < 0 then Error
                    else let p = drop (eol + 2) p; len = unat bulk_len in
                      if length p < len + 2 then Incomplete
                      else bulk_args n (args @ [take len p]) (drop (len + 2) p))))"

text \<open>
  A whole request: the statement and the number of bytes consumed. The status \<open>Error\<close>
  or \<open>Incomplete\<close> comes with a default statement that the caller never looks at.
\<close>

definition parse_resp_array :: "bytes \<Rightarrow> (statement \<times> nat) parsed option" where
  "parse_resp_array data =
     (let p = tl data in
      case find_crlf p of None \<Rightarrow> Some Incomplete
      | Some eol \<Rightarrow>
          (case parse_decimal (take eol p) of None \<Rightarrow> Some Error
           | Some n \<Rightarrow>
               if sint n < 0 then Some Error
               else (case bulk_args (unat n) [] (drop (eol + 2) p) of
                   Error \<Rightarrow> Some Error
                 | Incomplete \<Rightarrow> Some Incomplete
                 | Ok (args, p) \<Rightarrow> do {
                     stmt \<leftarrow> build_from_args args;
                     Some (Ok (stmt, length data - length p)) })))"

definition is_blank :: "u8 \<Rightarrow> bool" where
  "is_blank c = (c = 32 \<or> c = 9)"

function inline_args :: "bytes \<Rightarrow> bytes list" where
  "inline_args p = (let p = dropWhile is_blank p in
     if p = [] then []
     else takeWhile (\<lambda>c. \<not> is_blank c) p # inline_args (dropWhile (\<lambda>c. \<not> is_blank c) p))"
  by pat_completeness auto

termination inline_args
proof (relation "measure length", goal_cases)
  case (2 p q)
  then obtain c cs where q: "dropWhile is_blank p = c # cs" by (cases "dropWhile is_blank p") auto
  then have "\<not> is_blank c" by (metis dropWhile_eq_Cons_conv)
  then have "length (dropWhile (\<lambda>c. \<not> is_blank c) (c # cs)) \<le> length cs"
    by (simp add: length_dropWhile_le)
  moreover have "length (c # cs) \<le> length p" by (metis q length_dropWhile_le)
  ultimately show ?case using 2 q by simp
qed simp

declare inline_args.simps [simp del]

definition parse_inline :: "bytes \<Rightarrow> (statement \<times> nat) parsed option" where
  "parse_inline data =
     (case find_crlf data of None \<Rightarrow> Some Incomplete
      | Some eol \<Rightarrow>
          let args = inline_args (take eol data) in
          if args = [] then Some Error
          else do { stmt \<leftarrow> build_from_args args; Some (Ok (stmt, eol + 2)) })"

definition parse :: "bytes \<Rightarrow> (statement \<times> nat) parsed option" where
  "parse data =
     (if data = [] then Some Incomplete
      else if hd data = chr CHR ''*'' then parse_resp_array data
      else parse_inline data)"

section \<open>Replies\<close>

definition append_crlf :: "bytes \<Rightarrow> bytes" where
  "append_crlf buf = buf @ [13, 10]"

definition append_decimal :: "bytes \<Rightarrow> u64 \<Rightarrow> bytes" where
  "append_decimal buf v = buf @ to_str_signed v"

definition append_simple_string :: "bytes \<Rightarrow> bytes \<Rightarrow> bytes" where
  "append_simple_string buf v = buf @ [chr CHR ''+''] @ v @ [13, 10]"

definition append_error :: "bytes \<Rightarrow> bytes \<Rightarrow> bytes \<Rightarrow> bytes" where
  "append_error buf kind message =
     append_crlf (buf @ [chr CHR ''-''] @ kind @ [chr CHR '' ''] @ message)"

definition append_integer :: "bytes \<Rightarrow> u64 \<Rightarrow> bytes" where
  "append_integer buf v = append_crlf (append_decimal (buf @ [chr CHR '':'']) v)"

definition append_bulk_string :: "bytes \<Rightarrow> bytes \<Rightarrow> bytes" where
  "append_bulk_string buf v =
     append_crlf (append_crlf (append_decimal (buf @ [chr CHR ''$'']) (word_of_nat (length v))) @ v)"

definition append_null_bulk_string :: "bytes \<Rightarrow> bytes" where
  "append_null_bulk_string buf = buf @ ascii ''$-1'' @ [13, 10]"

definition append_array_header :: "bytes \<Rightarrow> u64 \<Rightarrow> bytes" where
  "append_array_header buf n = append_crlf (append_decimal (buf @ [chr CHR ''*'']) n)"

definition append_null_array :: "bytes \<Rightarrow> bytes" where
  "append_null_array buf = buf @ ascii ''*-1'' @ [13, 10]"

datatype execution_status = Status_Ok | NotFound | Status_Error | Close
datatype result_kind = Kind_None | SimpleStr | BulkStr | Kind_Int | Arr | NullArr | Kind_Scan

record execution_result =
  status :: execution_status
  kind :: result_kind
  str :: bytes
  integer :: u64
  arr :: "bytes list"
  null_arr :: "bytes option list"
  cursor :: bytes
  error_message :: bytes

definition encode_kind :: "execution_result \<Rightarrow> bytes \<Rightarrow> bytes" where
  "encode_kind r buf = (case kind r of
       Kind_None \<Rightarrow> buf
     | SimpleStr \<Rightarrow> append_simple_string buf (str r)
     | BulkStr \<Rightarrow> append_bulk_string buf (str r)
     | Kind_Int \<Rightarrow> append_integer buf (integer r)
     | Arr \<Rightarrow> foldl append_bulk_string
         (append_array_header buf (word_of_nat (length (arr r)))) (arr r)
     | NullArr \<Rightarrow> foldl (\<lambda>buf v. case v of Some s \<Rightarrow> append_bulk_string buf s
                                   | None \<Rightarrow> append_null_bulk_string buf)
         (append_array_header buf (word_of_nat (length (null_arr r)))) (null_arr r)
     | Kind_Scan \<Rightarrow> foldl append_bulk_string
         (append_array_header (append_bulk_string (append_array_header buf 2) (cursor r))
            (word_of_nat (length (arr r)))) (arr r))"

definition encode_result :: "execution_result \<Rightarrow> bytes \<Rightarrow> bool \<times> bytes" where
  "encode_result r buf = (case status r of
       Close \<Rightarrow> (False, append_simple_string buf (ascii ''OK''))
     | Status_Error \<Rightarrow> (True, append_error buf (ascii ''ERR'') (error_message r))
     | NotFound \<Rightarrow> (True, append_null_bulk_string buf)
     | Status_Ok \<Rightarrow> (True, encode_kind r buf))"

lemmas append_defs = append_crlf_def append_decimal_def append_simple_string_def append_error_def
  append_integer_def append_bulk_string_def append_null_bulk_string_def append_array_header_def
  append_null_array_def

section \<open>Requests written and read back\<close>

lemma find_crlf_line: "13 \<notin> set xs \<Longrightarrow> find_crlf (xs @ 13 # 10 # rest) = Some (length xs)"
proof (induction xs)
  case (Cons x xs)
  then show ?case by (cases xs) auto
qed simp

lemma find_crlf_no_cr: "13 \<notin> set xs \<Longrightarrow> find_crlf xs = None"
  by (induction xs rule: find_crlf.induct) auto

lemma find_crlf_cut: "13 \<notin> set xs \<Longrightarrow> find_crlf (xs @ [13]) = None"
proof (induction xs)
  case (Cons x xs)
  then show ?case by (cases xs) auto
qed simp

lemma find_crlf_take:
  "find_crlf xs = Some e \<Longrightarrow> e + 2 \<le> length xs \<and> find_crlf (take (e + 2) xs @ ys) = Some e"
proof (induction xs arbitrary: e rule: find_crlf.induct)
  case (1 a b p)
  show ?case
  proof (cases "a = 13 \<and> b = 10")
    case False
    with 1 obtain e' where e': "find_crlf (b # p) = Some e'" "e = Suc e'" by auto
    with 1 False have "e' + 2 \<le> length (b # p)" "find_crlf (take (e' + 2) (b # p) @ ys) = Some e'"
      by blast+
    with e' False show ?thesis by auto
  qed (use 1 in auto)
qed auto

lemma parse_digits_value:
  "(\<forall>c \<in> set ds. is_digit c) \<Longrightarrow>
   parse_digits (word_of_nat a) ds = Some (word_of_nat (foldl (\<lambda>a c. a * 10 + digit_val c) a ds))"
proof (induction ds arbitrary: a)
  case (Cons c ds)
  then show ?case using digit_step(2) [of c] digit_step(1) [of c a] Cons.IH [of "a * 10 + digit_val c"] by simp
qed simp

lemma parse_decimal_dec_str [simp]: "parse_decimal (dec_str n) = Some (word_of_nat n)"
proof -
  obtain c cs where c: "dec_str n = c # cs" by (cases "dec_str n") auto
  then have "is_digit c" using dec_str_digits by (metis list.set_intros(1))
  moreover have "parse_digits 0 (c # cs) = Some (word_of_nat n)"
    using parse_digits_value [of "dec_str n" 0] dec_str_digits [of _ n] dec_nat_dec_str [of n]
    by (simp add: c dec_nat_def del: parse_digits.simps)
  ultimately show ?thesis
    by (simp add: parse_decimal_def c digit_not_sign del: parse_digits.simps)
qed

lemma dec_str_no_cr [simp]: "13 \<notin> set (dec_str n)"
  using dec_str_digits [of 13 n] by (auto simp: is_digit_def chr_def word_le_nat_alt)

text \<open>A length that fits the address space is positive as \<open>S64\<close>.\<close>

lemma sint_length:
  assumes "n < 2 ^ 63" shows "sint (word_of_nat n :: u64) = int n" "unat (word_of_nat n :: u64) = n"
proof -
  show "sint (word_of_nat n :: u64) = int n"
    using assms by (simp add: signed_of_nat signed_take_bit_int_eq_self)
  show "unat (word_of_nat n :: u64) = n"
    using assms by (simp add: unat_of_nat)
qed

lemma to_str_length: "n < 2 ^ 63 \<Longrightarrow> to_str_signed (word_of_nat n :: u64) = dec_str n"
  by (simp add: to_str_signed_def sint_length)

definition bulk_wire :: "bytes \<Rightarrow> bytes" where
  "bulk_wire v = chr CHR ''$'' # dec_str (length v) @ [13, 10] @ v @ [13, 10]"

definition header_wire :: "nat \<Rightarrow> bytes" where
  "header_wire n = chr CHR ''*'' # dec_str n @ [13, 10]"

definition command_wire :: "bytes list \<Rightarrow> bytes" where
  "command_wire args = header_wire (length args) @ concat (map bulk_wire args)"

abbreviation sendable :: "bytes list \<Rightarrow> bool" where
  "sendable args \<equiv> length args < 2 ^ 63 \<and> (\<forall>a \<in> set args. length a < 2 ^ 63)"

lemma append_bulk_string_wire:
  "length v < 2 ^ 63 \<Longrightarrow> append_bulk_string buf v = buf @ bulk_wire v"
  by (simp add: append_defs bulk_wire_def to_str_length)

lemma append_bulk_strings_wire:
  "\<forall>a \<in> set args. length a < 2 ^ 63 \<Longrightarrow>
   foldl append_bulk_string buf args = buf @ concat (map bulk_wire args)"
  by (induction args arbitrary: buf) (simp_all add: append_bulk_string_wire)

lemma append_command_wire:
  "sendable args \<Longrightarrow>
   foldl append_bulk_string (append_array_header [] (word_of_nat (length args))) args = command_wire args"
  by (simp add: append_bulk_strings_wire command_wire_def header_wire_def append_array_header_def
      append_crlf_def append_decimal_def to_str_length)

lemma bulk_args_step:
  assumes "length a < 2 ^ 63"
  shows "bulk_args (Suc n) acc (bulk_wire a @ q) = bulk_args n (acc @ [a]) q"
proof -
  have "find_crlf (dec_str (length a) @ 13 # 10 # a @ 13 # 10 # q) = Some (length (dec_str (length a)))"
    by (rule find_crlf_line) simp
  then show ?thesis using assms by (simp add: bulk_wire_def sint_length Let_def)
qed

lemma bulk_args_wire:
  "\<forall>a \<in> set as. length a < 2 ^ 63 \<Longrightarrow>
   bulk_args (length as + n) acc (concat (map bulk_wire as) @ rest) = bulk_args n (acc @ as) rest"
  by (induction as arbitrary: acc) (simp_all add: bulk_args_step del: bulk_args.simps)

lemma parse_command_prefix:
  assumes "n < 2 ^ 63"
  shows "parse (header_wire n @ p) = (case bulk_args n [] p of
      Error \<Rightarrow> Some Error | Incomplete \<Rightarrow> Some Incomplete
    | Ok (args, q) \<Rightarrow> do { stmt \<leftarrow> build_from_args args;
        Some (Ok (stmt, length (header_wire n @ p) - length q)) })"
proof -
  have "find_crlf (dec_str n @ 13 # 10 # p) = Some (length (dec_str n))"
    by (rule find_crlf_line) simp
  then show ?thesis using assms
    by (simp add: parse_def parse_resp_array_def header_wire_def sint_length Let_def
        split: parsed.split)
qed

text \<open>C32 A request encoded with the server's own encoder, an array of bulk strings of any
  bytes, is parsed into the statement of its arguments and consumed to its last byte, whatever
  follows it in the buffer.\<close>

theorem request_roundtrip:
  assumes "length args < 2 ^ 63" "\<forall>a \<in> set args. length a < 2 ^ 63"
  shows "let wire = foldl append_bulk_string (append_array_header [] (word_of_nat (length args))) args
     in parse (wire @ rest) = map_option (\<lambda>stmt. Ok (stmt, length wire)) (build_from_args args)"
proof -
  have "bulk_args (length args) [] (concat (map bulk_wire args) @ rest) = Ok (args, rest)"
    using bulk_args_wire [of args 0 "[]" rest] assms(2) by simp
  then show ?thesis
    using assms by (simp add: append_command_wire command_wire_def parse_command_prefix Let_def)
      (simp add: map_option_case split: option.split)
qed

theorem request_roundtrip_witness:
  "parse (foldl append_bulk_string (append_array_header [] 2) [ascii ''get'', [13, 10]] @ [42])
   = Some (Ok (Get [13, 10], 21))"
proof -
  have "build_from_args [ascii ''get'', [13, 10]] = Some (Get [13, 10])"
    by (simp add: arg_eq_def upper_def ascii_eval)
  then show ?thesis
    using request_roundtrip [of "[ascii ''get'', [13, 10]]" "[42]"]
    by (simp add: append_defs to_str_signed_def ascii_def dec_str.simps)
qed

section \<open>Consumption and truncation\<close>

lemma bulk_args_local:
  "bulk_args n acc p = Ok (args, q) \<Longrightarrow>
   \<exists>u. p = u @ q \<and> (\<forall>q'. bulk_args n acc (u @ q') = Ok (args, q'))"
proof (induction n arbitrary: acc p)
  case (Suc n)
  then obtain c p1 eol l where p: "p = c # p1" "c = chr CHR ''$''" "find_crlf p1 = Some eol"
    "parse_decimal (take eol p1) = Some l" "\<not> sint l < 0"
    and len: "\<not> length (drop (eol + 2) p1) < unat l + 2"
    and rec: "bulk_args n (acc @ [take (unat l) (drop (eol + 2) p1)])
      (drop (unat l + 2) (drop (eol + 2) p1)) = Ok (args, q)"
    by (auto simp: Let_def split: list.splits if_splits option.splits)
  obtain u where u: "drop (unat l + 2) (drop (eol + 2) p1) = u @ q"
    "\<And>q'. bulk_args n (acc @ [take (unat l) (drop (eol + 2) p1)]) (u @ q') = Ok (args, q')"
    using Suc.IH [OF rec] by blast
  define v where "v = take (eol + 2) p1 @ take (unat l + 2) (drop (eol + 2) p1)"
  have e: "eol + 2 \<le> length p1" "find_crlf (take (eol + 2) p1 @ ys) = Some eol" for ys
    using find_crlf_take [OF p(3)] by auto
  have p1: "p1 = v @ u @ q" using u(1) by (metis append.assoc append_take_drop_id v_def)
  have "bulk_args (Suc n) acc ((c # v @ u) @ q') = Ok (args, q')" for q'
    using p(2,4,5) e len u(2) [of q']
    by (simp add: v_def Let_def min_def)
  then show ?case using p(1) p1 by (intro exI [of _ "c # v @ u"]) simp
qed simp

text \<open>C33 An accepted request consumes at least a byte and never more than the
  buffer holds, and it depends on the consumed bytes alone: the same bytes followed by anything
  else are the same request.\<close>

theorem parse_consumes_prefix:
  assumes "parse data = Some (Ok (stmt, n))"
  shows "0 < n \<and> n \<le> length data \<and> parse (take n data @ rest) = Some (Ok (stmt, n))"
proof (cases "hd data = chr CHR ''*''")
  case True
  from assms have data: "data \<noteq> []" by (auto simp: parse_def)
  then obtain p where p: "data = chr CHR ''*'' # p" using True by (cases data) auto
  from assms obtain eol m args q where
    m: "find_crlf p = Some eol" "parse_decimal (take eol p) = Some m" "\<not> sint m < 0"
    and q: "bulk_args (unat m) [] (drop (eol + 2) p) = Ok (args, q)"
    and s: "build_from_args args = Some stmt" "n = length data - length q"
    by (auto simp: parse_def parse_resp_array_def p Let_def bind_eq_Some_conv
        split: option.splits if_splits parsed.splits)
  obtain u where u: "drop (eol + 2) p = u @ q" "\<And>q'. bulk_args (unat m) [] (u @ q') = Ok (args, q')"
    using bulk_args_local [OF q] by blast
  have e: "eol + 2 \<le> length p" "find_crlf (take (eol + 2) p @ ys) = Some eol" for ys
    using find_crlf_take [OF m(1)] by auto
  have d: "data = (chr CHR ''*'' # take (eol + 2) p @ u) @ q"
    by (metis append.assoc append_Cons append_take_drop_id p u(1))
  then have n: "n = length (chr CHR ''*'' # take (eol + 2) p @ u)"
    using s(2) by (metis add_diff_cancel_right' length_append)
  then have "take n data = chr CHR ''*'' # take (eol + 2) p @ u"
  proof -
    have "take (length w) (w @ q) = w" for w :: bytes by simp
    then show ?thesis unfolding d n .
  qed
  moreover have "parse ((chr CHR ''*'' # take (eol + 2) p @ u) @ rest) = Some (Ok (stmt, n))"
    using e m u(2) [of rest] s(1) n by (simp add: parse_def parse_resp_array_def Let_def)
  ultimately show ?thesis using n d by (metis length_append length_greater_0_conv le_add1 list.distinct(1))
next
  case False
  with assms have data: "data \<noteq> []" and i: "parse_inline data = Some (Ok (stmt, n))"
    by (auto simp: parse_def split: if_splits)
  from i obtain eol where m: "find_crlf data = Some eol" "inline_args (take eol data) \<noteq> []"
    "build_from_args (inline_args (take eol data)) = Some stmt" "n = eol + 2"
    by (auto simp: parse_inline_def Let_def bind_eq_Some_conv split: option.splits if_splits)
  have e: "eol + 2 \<le> length data" "find_crlf (take (eol + 2) data @ rest) = Some eol"
    using find_crlf_take [OF m(1)] by auto
  have "hd (take n data @ rest) = hd data" "take n data \<noteq> []" using data m(4) by (auto simp: hd_append)
  then have "parse (take n data @ rest) = parse_inline (take n data @ rest)"
    using False by (simp add: parse_def)
  also have "\<dots> = Some (Ok (stmt, n))"
    using e m by (simp add: parse_inline_def Let_def min_def)
  finally show ?thesis using e(1) m(4) by simp
qed

theorem parse_consumes_prefix_witness:
  "parse (ascii ''QUIT'' @ [13, 10] @ ascii ''PING'' @ [13, 10]) = Some (Ok (Quit, 6))"
proof -
  have q: "parse (ascii ''QUIT'' @ [13, 10]) = Some (Ok (Quit, 6))"
    by (simp add: parse_def parse_inline_def inline_args.simps is_blank_def arg_eq_def upper_def
        ascii_eval)
  show ?thesis
    using parse_consumes_prefix [OF q, of "ascii ''PING'' @ [13, 10]"] by (simp add: ascii_def)
qed

text \<open>The part of a line before its end, and the part of a counted string before its end.\<close>

lemma cut_line:
  assumes "xs @ 13 # 10 # ys = u @ v" "13 \<notin> set xs"
  shows "(find_crlf u = None \<and> length u < length xs + 2) \<or> (\<exists>w. u = xs @ 13 # 10 # w \<and> ys = w @ v)"
proof (cases "length u < length xs + 2")
  case True
  then have "take (length u) ((xs @ [13, 10]) @ ys) = take (length u) (xs @ [13, 10])"
    unfolding take_append using True by simp
  moreover have "take (length u) ((xs @ [13, 10]) @ ys) = u" using assms(1) by simp
  ultimately have "u = take (length u) (xs @ [13, 10])" by simp
  then have "u = take (length u) xs \<or> u = xs @ [13]"
    using True by (cases "length u \<le> length xs") (auto simp: less_Suc_eq not_le)
  then show ?thesis
  proof
    assume "u = take (length u) xs"
    then have "13 \<notin> set u" using assms(2) by (metis in_set_takeD)
    then show ?thesis using True by (simp add: find_crlf_no_cr)
  qed (use True assms(2) in \<open>simp add: find_crlf_cut\<close>)
next
  case False
  then have "take (length xs + 2) u = xs @ [13, 10]"
    using arg_cong [OF assms(1), of "take (length xs + 2)"] by simp
  then have u: "u = xs @ 13 # 10 # drop (length xs + 2) u"
    using append_take_drop_id [of "length xs + 2" u] by simp
  have "xs @ 13 # 10 # ys = (xs @ 13 # 10 # drop (length xs + 2) u) @ v"
    by (subst u [symmetric]) (rule assms(1))
  then have "ys = drop (length xs + 2) u @ v" by simp
  then show ?thesis using u by blast
qed

lemma bulk_args_cut_one:
  assumes "bulk_wire a = u @ v" "u \<noteq> []" "v \<noteq> []" "length a < 2 ^ 63"
  shows "bulk_args (Suc n) acc u = Incomplete"
proof -
  obtain u1 where u: "u = chr CHR ''$'' # u1"
    and d: "dec_str (length a) @ 13 # 10 # a @ [13, 10] = u1 @ v"
    using assms(1,2) by (cases u) (auto simp: bulk_wire_def)
  consider "find_crlf u1 = None"
    | w where "u1 = dec_str (length a) @ 13 # 10 # w" "a @ [13, 10] = w @ v"
    using cut_line [OF d] by auto
  then show ?thesis
  proof cases
    case 2
    have "find_crlf u1 = Some (length (dec_str (length a)))"
      unfolding 2(1) by (rule find_crlf_line) simp
    moreover have "length w < length a + 2"
      using arg_cong [OF 2(2), of length] assms(3) by (cases v) auto
    ultimately show ?thesis using assms(4) u 2(1) by (simp add: sint_length Let_def)
  qed (simp add: u)
qed

abbreviation boundary :: "bytes list \<Rightarrow> bytes \<Rightarrow> bool" where
  "boundary as u \<equiv> \<exists>k < length as. u = concat (map bulk_wire (take k as))"

lemma bulk_args_cut:
  assumes "concat (map bulk_wire as) = u @ v" "v \<noteq> []" "\<forall>a \<in> set as. length a < 2 ^ 63"
  shows "bulk_args (length as) acc u = (if boundary as u then Error else Incomplete)"
  using assms
proof (induction as arbitrary: acc u)
  case (Cons a as)
  have ne: "bulk_wire a \<noteq> []" by (simp add: bulk_wire_def)
  show ?case
  proof (cases "u = []")
    case True
    then show ?thesis by (auto intro: exI [of _ 0])
  next
    case False
    from Cons.prems(1) have cut: "bulk_wire a @ concat (map bulk_wire as) = u @ v" by simp
    then obtain us where "(bulk_wire a = u @ us \<and> us @ concat (map bulk_wire as) = v) \<or>
        (bulk_wire a @ us = u \<and> concat (map bulk_wire as) = us @ v)"
      by (auto simp: append_eq_append_conv2)
    then consider u' where "u = bulk_wire a @ u'" "concat (map bulk_wire as) = u' @ v"
      | v' where "bulk_wire a = u @ v'" "v' \<noteq> []"
      by (cases "us = []") auto
    then show ?thesis
    proof cases
      case 1
      then have "bulk_args (length (a # as)) acc u = (if boundary as u' then Error else Incomplete)"
        using Cons by (simp add: bulk_args_step del: bulk_args.simps)
      moreover have "boundary (a # as) u \<longleftrightarrow> boundary as u'"
      proof
        assume "boundary (a # as) u"
        then obtain k where k: "k < length (a # as)" "u = concat (map bulk_wire (take k (a # as)))" by blast
        with False obtain k' where "k = Suc k'" by (cases k) auto
        with k show "boundary as u'" using 1(1) by auto
      next
        assume "boundary as u'"
        then obtain k where "k < length as" "u' = concat (map bulk_wire (take k as))" by blast
        then show "boundary (a # as) u" using 1(1) by (intro exI [of _ "Suc k"]) simp
      qed
      ultimately show ?thesis by simp
    next
      case 2
      have "\<not> boundary (a # as) u"
      proof
        assume "boundary (a # as) u"
        then obtain k where k: "u = concat (map bulk_wire (take k (a # as)))" by blast
        with False obtain k' where "k = Suc k'" by (cases k) auto
        with k have "length (bulk_wire a) \<le> length u" by simp
        with 2 show False by simp
      qed
      then show ?thesis
        using bulk_args_cut_one [OF 2(1) False 2(2), of "length as" acc] Cons.prems(3)
        by (simp del: bulk_args.simps)
    qed
  qed
qed simp

text \<open>A request that arrives cut short is a request for more input, unless the cut lies
  at the beginning of an element: there the parser answers with a protocol error, and the
  connection is closed on a client whose request was well formed.\<close>

theorem truncated_request:
  assumes "length args < 2 ^ 63" "\<forall>a \<in> set args. length a < 2 ^ 63"
    and "command_wire args = u @ v" "v \<noteq> []"
  shows "parse u = Some (if \<exists>k < length args. u = header_wire (length args) @ concat (map bulk_wire (take k args))
     then Error else Incomplete)"
proof -
  have "dec_str (length args) @ 13 # 10 # concat (map bulk_wire args) = tl (u @ v)"
    using arg_cong [OF assms(3), of tl] by (simp add: command_wire_def header_wire_def)
  show ?thesis
  proof (cases u)
    case Nil
    then show ?thesis by (simp add: parse_def header_wire_def)
  next
    case (Cons c u1)
    with assms(3) have u: "u = chr CHR ''*'' # u1"
      and d: "dec_str (length args) @ 13 # 10 # concat (map bulk_wire args) = u1 @ v"
      by (auto simp: command_wire_def header_wire_def)
    consider "find_crlf u1 = None" "length u1 < length (dec_str (length args)) + 2"
      | w where "u1 = dec_str (length args) @ 13 # 10 # w" "concat (map bulk_wire args) = w @ v"
      using cut_line [OF d] by auto
    then show ?thesis
    proof cases
      case 1
      then have "\<not> (\<exists>k < length args. u = header_wire (length args) @ concat (map bulk_wire (take k args)))"
        by (auto simp: u header_wire_def)
      with 1 show ?thesis by (simp add: parse_def parse_resp_array_def u)
    next
      case 2
      then have h: "u = header_wire (length args) @ w" by (simp add: u header_wire_def)
      then show ?thesis
        using bulk_args_cut [OF 2(2) assms(4,2), of "[]"] assms(1)
        by (auto simp: parse_command_prefix)
    qed
  qed
qed

theorem truncated_request_witness:
  "parse (ascii ''*1'' @ [13, 10]) = Some Error \<and>
   parse (ascii ''*1'' @ [13, 10] @ ascii ''$4'' @ [13, 10] @ ascii ''PI'') = Some Incomplete"
proof -
  have w: "command_wire [ascii ''PING''] =
    (ascii ''*1'' @ [13, 10]) @ ascii ''$4'' @ [13, 10] @ ascii ''PING'' @ [13, 10]"
    "command_wire [ascii ''PING''] =
    (ascii ''*1'' @ [13, 10] @ ascii ''$4'' @ [13, 10] @ ascii ''PI'') @ ascii ''NG'' @ [13, 10]"
    by (simp_all add: command_wire_def header_wire_def bulk_wire_def ascii_def dec_str.simps chr_def)
  show ?thesis
    using truncated_request [OF _ _ w(1)] truncated_request [OF _ _ w(2)]
    by (simp add: header_wire_def ascii_def dec_str.simps chr_def)
qed

section \<open>Replies\<close>

text \<open>The text of an error is sent as it is: an error message with a line break in it,
  as the echo of an unknown command name has when the client puts one there, is byte for byte the
  reply of an error followed by a second reply of the client's choice.\<close>

theorem error_reply_splits:
  "encode_result (execution_result.make Status_Error k s i a na c (m1 @ [13, 10, chr CHR ''+''] @ m2)) [] =
   (True, append_simple_string (append_error [] (ascii ''ERR'') m1) m2)"
  by (simp add: encode_result_def execution_result.make_def append_defs)

end
