(* ===== verification/SystemTables.thy ===== *)
theory SystemTables
  imports Text
begin

text \<open>
  Which keyspaces are reserved and which virtual table a \<open>SELECT\<close> on a system keyspace
  reads: \<open>is_system_keyspace\<close> and \<open>try_system_select\<close> of \<open>cql/engine/engine.cpp\<close>. The
  second is modelled up to the slot of the cache it answers from; building the rows is not
  modelled. Both compare a \<open>String8\<close> with a literal by \<open>==\<close>. Under the rules of C++20 the
  best match for that expression is the reversed \<open>operator==(const char*, const String8&)\<close>
  of \<open>core/base/string.cpp\<close>, which takes both operands without a conversion.
\<close>

abbreviation is_literal :: "bytes \<Rightarrow> string \<Rightarrow> bool" where
  "is_literal s lit \<equiv> cstr_eq (ascii lit) s"

definition is_system_keyspace :: "bytes \<Rightarrow> bool" where
  "is_system_keyspace ks = (is_literal ks ''system'' \<or> is_literal ks ''system_schema'' \<or>
     is_literal ks ''system_virtual_schema'' \<or> is_literal ks ''system_auth'' \<or>
     is_literal ks ''system_distributed'' \<or> is_literal ks ''system_traces'')"

definition select_system :: "bytes \<Rightarrow> nat option" where
  "select_system table =
     (if is_literal table ''local'' then Some 0
      else if is_literal table ''peers'' then Some 1
      else if is_literal table ''peers_v2'' then Some 2
      else None)"

definition select_system_schema :: "bytes \<Rightarrow> nat option" where
  "select_system_schema table =
     (if is_literal table ''keyspaces'' then Some 3
      else if is_literal table ''tables'' then Some 4
      else if is_literal table ''columns'' then Some 5
      else if is_literal table ''views'' then Some 6
      else if is_literal table ''indexes'' then Some 7
      else if is_literal table ''triggers'' then Some 8
      else if is_literal table ''dropped_columns'' then Some 9
      else if is_literal table ''types'' then Some 10
      else if is_literal table ''functions'' then Some 11
      else if is_literal table ''aggregates'' then Some 12
      else None)"

definition try_system_select :: "bytes \<Rightarrow> bytes \<Rightarrow> nat option" where
  "try_system_select keyspace table =
     (case (if is_literal keyspace ''system'' then select_system table else None) of
        Some slot \<Rightarrow> Some slot
      | None \<Rightarrow> if is_literal keyspace ''system_schema'' then select_system_schema table else None)"

section \<open>Reserved names\<close>

definition reserved_keyspaces :: "string list" where
  "reserved_keyspaces = [''system'', ''system_schema'', ''system_virtual_schema'', ''system_auth'',
     ''system_distributed'', ''system_traces'']"

text \<open>A keyspace is taken for a system keyspace exactly when its name is a prefix of a
  reserved name: the reserved names themselves, but also the user keyspaces \<open>s\<close>,
  \<open>sys\<close> or \<open>system_a\<close>, which can then be neither created, altered nor dropped.\<close>

theorem system_keyspace_prefixes:
  "(is_system_keyspace ks \<longleftrightarrow> (\<exists>name. name \<in> set reserved_keyspaces \<and> prefix ks (ascii name))) \<and>
   is_system_keyspace (ascii ''s'') \<and> is_system_keyspace (ascii ''sys'') \<and>
   is_system_keyspace (ascii ''system_a'') \<and> \<not> is_system_keyspace (ascii ''systems'')"
proof -
  have "is_system_keyspace ks \<longleftrightarrow> (\<exists>name. name \<in> set reserved_keyspaces \<and> prefix ks (ascii name))" for ks
    by (simp add: is_system_keyspace_def reserved_keyspaces_def cstr_eq_iff_prefix) blast
  moreover have "is_system_keyspace (ascii ''s'')" "is_system_keyspace (ascii ''sys'')"
    "is_system_keyspace (ascii ''system_a'')" "\<not> is_system_keyspace (ascii ''systems'')"
    by (simp_all add: is_system_keyspace_def ascii_eval)
  ultimately show ?thesis by blast
qed

section \<open>Virtual tables\<close>

definition virtual_tables :: "(string \<times> string) list" where
  "virtual_tables = [(''system'', ''local''), (''system'', ''peers''), (''system'', ''peers_v2''),
     (''system_schema'', ''keyspaces''), (''system_schema'', ''tables''),
     (''system_schema'', ''columns''), (''system_schema'', ''views''),
     (''system_schema'', ''indexes''), (''system_schema'', ''triggers''),
     (''system_schema'', ''dropped_columns''), (''system_schema'', ''types''),
     (''system_schema'', ''functions''), (''system_schema'', ''aggregates'')]"

lemma virtual_table_slots:
  "map (\<lambda>(k, t). try_system_select (ascii k) (ascii t)) virtual_tables = map Some [0..<13]"
  by (simp add: virtual_tables_def try_system_select_def select_system_def
      select_system_schema_def ascii_eval upt_rec)

text \<open>Every documented virtual table is answered from its own cache slot, and no
  query on a keyspace that is not reserved reaches a virtual table.\<close>

theorem virtual_tables_found:
  "map (\<lambda>(k, t). try_system_select (ascii k) (ascii t)) virtual_tables = map Some [0..<13] \<and>
   (is_system_keyspace ks \<or> try_system_select ks table = None)"
  by (simp add: virtual_table_slots) (auto simp: try_system_select_def is_system_keyspace_def)

end
