(* ===== verification/Wal.thy ===== *)
theory Wal
  imports Prelude "HOL-Library.AList"
begin

text \<open>
  The write-ahead log, \<open>core/pager/pager.wal.cpp\<close>, and the two files a pager owns.

  Files. Every transfer of the pager is one whole page or the database header, so a page
  is the list of its \<open>page_size / 8\<close> machine words and the database file is its header
  with the list of its page slots (slot 0 is the page the header lies in). The log file
  is its header and the list of its frame slots. Offsets are slot numbers:
  \<open>base_offset + page_size * idx\<close> and \<open>frame_offset(wal, i)\<close> are one slot each. The word
  \<open>MAX_U64\<close>, the code's index of the database header, is \<open>header_idx\<close>; the payload
  of a frame is a header exactly when its index says so.

  Every transfer is a \<open>devent\<close>: \<open>apply_devent\<close> is its effect on what later reads see, and
  the events of a run are kept in order, so that \<open>Recovery\<close> can say what survives a crash.
\<close>

section \<open>Files\<close>

type_synonym page = "u64 list"

record pager_header =
  magic_version :: u64
  page_size :: nat
  page_count :: nat
  root_page :: nat

definition header_idx :: nat where "header_idx = 2 ^ 64 - 1"

definition HEADER_MAGIC_VERSION :: u64 where
  "HEADER_MAGIC_VERSION = 0x01000C0162445870"

record db_file =
  db_header :: pager_header
  db_pages :: "page list"

datatype payload = PageData page | HeaderData pager_header

record frame =
  frame_idx :: nat
  frame_sum :: u64
  frame_data :: payload

record wal_header =
  wal_magic :: u64
  wal_page_size :: nat
  wal_salt :: u64
  frame_count :: nat

definition WAL_MAGIC :: u64 where "WAL_MAGIC = 0x0000014C41575870"

text \<open>\<open>None\<close> is a log file shorter than its header.\<close>

record wal_file =
  wf_header :: "wal_header option"
  wf_frames :: "frame list"

record disk =
  db :: db_file
  log :: wal_file

datatype devent =
    DbWritePage nat page
  | DbWriteHeader pager_header
  | DbResize nat
  | DbSync
  | LogCreate wal_header
  | LogResize nat
  | LogWriteFrames nat "frame list"
  | LogWriteCount nat
  | LogSync

definition zero_page :: "nat \<Rightarrow> page" where
  "zero_page sz = replicate (sz div 8) 0"

text \<open>\<open>ftruncate\<close>: a longer file is cut, a shorter one filled with zeroes.\<close>

definition resize_pages :: "nat \<Rightarrow> nat \<Rightarrow> page list \<Rightarrow> page list" where
  "resize_pages sz n ps = take n ps @ replicate (n - length ps) (zero_page sz)"

text \<open>A write behind the end of the file leaves a gap of zeroes.\<close>

definition write_page :: "nat \<Rightarrow> nat \<Rightarrow> page \<Rightarrow> page list \<Rightarrow> page list" where
  "write_page sz i pg ps = (resize_pages sz (max (Suc i) (length ps)) ps)[i := pg]"

definition write_frames :: "nat \<Rightarrow> frame list \<Rightarrow> frame list \<Rightarrow> frame list" where
  "write_frames base fs old = take base old @ fs @ drop (base + length fs) old"

fun apply_db :: "nat \<Rightarrow> devent \<Rightarrow> db_file \<Rightarrow> db_file" where
  "apply_db sz (DbWritePage i pg) f = f\<lparr>db_pages := write_page sz i pg (db_pages f)\<rparr>"
| "apply_db sz (DbWriteHeader h) f = f\<lparr>db_header := h\<rparr>"
| "apply_db sz (DbResize n) f = f\<lparr>db_pages := resize_pages sz n (db_pages f)\<rparr>"
| "apply_db sz e f = f"

fun apply_log :: "devent \<Rightarrow> wal_file \<Rightarrow> wal_file" where
  "apply_log (LogCreate h) f = \<lparr>wf_header = Some h, wf_frames = []\<rparr>"
| "apply_log (LogResize n) f = f\<lparr>wf_frames := take n (wf_frames f)\<rparr>"
| "apply_log (LogWriteFrames b fs) f = f\<lparr>wf_frames := write_frames b fs (wf_frames f)\<rparr>"
| "apply_log (LogWriteCount n) f =
     f\<lparr>wf_header := map_option (\<lambda>h. h\<lparr>frame_count := n\<rparr>) (wf_header f)\<rparr>"
| "apply_log e f = f"

definition apply_devent :: "nat \<Rightarrow> devent \<Rightarrow> disk \<Rightarrow> disk" where
  "apply_devent sz e d = \<lparr>db = apply_db sz e (db d), log = apply_log e (log d)\<rparr>"

definition apply_devents :: "nat \<Rightarrow> devent list \<Rightarrow> disk \<Rightarrow> disk" where
  "apply_devents sz es d = fold (apply_devent sz) es d"

lemma apply_devents_simps [simp]:
  "apply_devents sz [] d = d"
  "apply_devents sz (e # es) d = apply_devents sz es (apply_devent sz e d)"
  "apply_devents sz (es @ es') d = apply_devents sz es' (apply_devents sz es d)"
  by (simp_all add: apply_devents_def)

lemma apply_devent_sel [simp]:
  "db (apply_devent sz e d) = apply_db sz e (db d)"
  "log (apply_devent sz e d) = apply_log e (log d)"
  by (simp_all add: apply_devent_def)

lemma length_resize_pages [simp]: "length (resize_pages sz n ps) = n"
  by (simp add: resize_pages_def min_def)

lemma resize_pages_nth:
  "i < n \<Longrightarrow> resize_pages sz n ps ! i = (if i < length ps then ps ! i else zero_page sz)"
  by (simp add: resize_pages_def nth_append)

lemma length_write_page [simp]:
  "length (write_page sz i pg ps) = max (Suc i) (length ps)"
  by (simp add: write_page_def)

lemma write_page_same [simp]: "write_page sz i pg ps ! i = pg"
  by (simp add: write_page_def)

lemma write_page_other:
  "j \<noteq> i \<Longrightarrow> j < length ps \<Longrightarrow> write_page sz i pg ps ! j = ps ! j"
  by (simp add: write_page_def resize_pages_nth)

section \<open>The log\<close>

text \<open>The in-memory half: the header and the index from pages to their latest frame.\<close>

record wal =
  header :: wal_header
  wal_index :: "(nat \<times> nat) list"

fun first_word :: "payload \<Rightarrow> u64" where
  "first_word (PageData pg) = pg ! 0"
| "first_word (HeaderData h) = magic_version h"

definition frame_checksum :: "u64 \<Rightarrow> nat \<Rightarrow> payload \<Rightarrow> u64" where
  "frame_checksum salt idx data = salt XOR word_of_nat idx XOR first_word data"

text \<open>\<open>wal::create\<close>; the salt, the code's clock mixed with the file handle, is an argument.\<close>

definition wal_create :: "u64 \<Rightarrow> nat \<Rightarrow> wal_header \<times> devent list" where
  "wal_create salt sz =
     (let h = \<lparr>wal_magic = WAL_MAGIC, wal_page_size = sz, wal_salt = salt, frame_count = 0\<rparr>
      in (h, [LogCreate h, LogSync]))"

definition try_load :: "wal_file \<Rightarrow> nat \<Rightarrow> wal_header option" where
  "try_load f expected_page_size =
     (case wf_header f of
        None \<Rightarrow> None
      | Some h \<Rightarrow>
          if wal_magic h \<noteq> WAL_MAGIC then None
          else if wal_page_size h \<noteq> expected_page_size then None
          else Some h)"

definition mk_frame :: "u64 \<Rightarrow> nat \<times> payload \<Rightarrow> frame" where
  "mk_frame salt w =
     \<lparr>frame_idx = fst w, frame_sum = frame_checksum salt (fst w) (snd w), frame_data = snd w\<rparr>"

definition append_frames ::
  "wal_header \<Rightarrow> (nat \<times> payload) list \<Rightarrow> (wal_header \<times> devent list) option" where
  "append_frames h writes =
     (if writes = [] then Some (h, [])
      else do {
        assert_true (length writes \<le> 2 ^ 64 - 1 - frame_count h);
        let base = frame_count h;
        Some (h\<lparr>frame_count := base + length writes\<rparr>,
              [LogResize (base + length writes),
               LogWriteFrames base (map (mk_frame (wal_salt h)) writes)])
      })"

definition wal_commit :: "wal_header \<Rightarrow> (devent list) option" where
  "wal_commit h = do {
     assert_true (frame_count h > 0);
     Some [LogSync, LogWriteCount (frame_count h), LogSync]
   }"

definition read_frame :: "wal_header \<Rightarrow> wal_file \<Rightarrow> nat \<Rightarrow> frame option" where
  "read_frame h f i = do {
     assert_true (i < frame_count h);
     assert_true (i < length (wf_frames f));
     let fr = wf_frames f ! i;
     assert_true (frame_sum fr = frame_checksum (wal_salt h) (frame_idx fr) (frame_data fr));
     Some fr
   }"

definition wal_reset :: "wal_header \<Rightarrow> wal_header \<times> devent list" where
  "wal_reset h = (h\<lparr>frame_count := 0\<rparr>, [LogWriteCount 0, LogSync])"

lemma frame_idx_mk_frame [simp]: "frame_idx (mk_frame salt w) = fst w"
  and frame_data_mk_frame [simp]: "frame_data (mk_frame salt w) = snd w"
  by (simp_all add: mk_frame_def)

definition frame_ok :: "u64 \<Rightarrow> frame \<Rightarrow> bool" where
  "frame_ok salt fr \<longleftrightarrow> frame_sum fr = frame_checksum salt (frame_idx fr) (frame_data fr)"

lemma frame_ok_mk_frame [simp]: "frame_ok salt (mk_frame salt w)"
  by (simp add: frame_ok_def mk_frame_def)

lemma read_frame_eq_Some:
  "read_frame h f i = Some fr \<longleftrightarrow> i < frame_count h \<and> i < length (wf_frames f) \<and>
     fr = wf_frames f ! i \<and> frame_ok (wal_salt h) fr"
  by (auto simp: read_frame_def frame_ok_def Let_def)

end
