(* ===== verification/Pager.thy ===== *)
theory Pager
  imports Wal
begin

text \<open>
  The pager, \<open>core/pager/pager.cpp\<close>: a page cache over the database file and the log,
  transactions with a FIFO queue of waiters, commit with and without a log, checkpoints
  and the page allocator (a bitset page in front of every run of pages).

  State. \<open>pager\<close> holds the fields of \<open>struct Pager\<close>; \<open>disk_of\<close> is what the two files
  hold now and \<open>trace\<close> the transfers issued so far. The cache is an association list,
  its order the iteration order of \<open>page_cache\<close>. Transfers a \<open>when_all\<close> issues
  together are issued in list order: they touch different slots.

  A pointer handed out by \<open>rwpage\<close> is the index of the cached page; a store through it is
  \<open>put_page\<close>. File transfers are those of the synchronous context
  (\<open>create_sync_file_io_context\<close>): reading a slot that is not in the file traps.
\<close>

section \<open>State\<close>

record cache_entry =
  data :: page
  dirty :: bool

type_synonym page_cache = "(nat \<times> cache_entry) list"

record pager =
  disk_of :: disk
  trace :: "devent list"
  opened :: bool
  hdr :: pager_header
  saved_hdr :: pager_header
  header_in_write_set :: bool
  transaction_active :: bool
  tx_waiters :: "nat list"
  checkpoint_interval :: nat
  wal_transaction_count :: nat
  cache :: page_cache
  wal_of :: "wal option"

abbreviation psize :: "pager \<Rightarrow> nat" where "psize p \<equiv> page_size (hdr p)"

definition io :: "devent list \<Rightarrow> pager \<Rightarrow> pager" where
  "io es p = p\<lparr>disk_of := apply_devents (psize p) es (disk_of p), trace := trace p @ es\<rparr>"

definition put_page :: "nat \<Rightarrow> page \<Rightarrow> pager \<Rightarrow> pager" where
  "put_page i pg p =
     p\<lparr>cache := (case map_of (cache p) i of
                   Some e \<Rightarrow> AList.update i (e\<lparr>data := pg\<rparr>) (cache p)
                 | None \<Rightarrow> cache p)\<rparr>"

section \<open>Creating, opening and closing\<close>

definition create :: "nat \<Rightarrow> disk \<Rightarrow> (pager_header \<times> devent list) option" where
  "create sz d = do {
     assert_true (32 \<le> sz);
     assert_true (sz mod 8 = 0);
     let h = \<lparr>magic_version = HEADER_MAGIC_VERSION, page_size = sz, page_count = 1,
              root_page = header_idx\<rparr>;
     Some (h, [DbResize 1, DbWriteHeader h])
   }"

definition read_header :: "pager \<Rightarrow> pager" where
  "read_header p = p\<lparr>hdr := db_header (db (disk_of p))\<rparr>"

section \<open>Reading pages\<close>

definition find_frame :: "pager \<Rightarrow> nat \<Rightarrow> (wal \<times> nat) option" where
  "find_frame p idx =
     (case wal_of p of
        None \<Rightarrow> None
      | Some w \<Rightarrow> map_option (\<lambda>i. (w, i)) (map_of (wal_index w) idx))"

definition file_page :: "disk \<Rightarrow> nat \<Rightarrow> page option" where
  "file_page d idx =
     (if idx < length (db_pages (db d)) then Some (db_pages (db d) ! idx) else None)"

definition page_payload :: "payload \<Rightarrow> page option" where
  "page_payload pl = (case pl of PageData pg \<Rightarrow> Some pg | HeaderData h \<Rightarrow> None)"

text \<open>The miss path shared by \<open>rpage\<close> and \<open>rwpage\<close>.\<close>

definition load_page :: "pager \<Rightarrow> nat \<Rightarrow> page option" where
  "load_page p idx =
     (case find_frame p idx of
        Some (w, i) \<Rightarrow> do {
          fr \<leftarrow> read_frame (header w) (log (disk_of p)) i;
          page_payload (frame_data fr)
        }
      | None \<Rightarrow> file_page (disk_of p) idx)"

definition page_guard :: "pager \<Rightarrow> nat \<Rightarrow> bool" where
  "page_guard p idx \<longleftrightarrow>
     transaction_active p \<and> 0 < idx \<and> idx < page_count (hdr p) \<and> opened p"

definition rpage :: "pager \<Rightarrow> nat \<Rightarrow> (page \<times> pager) option" where
  "rpage p idx = do {
     assert_true (page_guard p idx);
     case map_of (cache p) idx of
       Some e \<Rightarrow> Some (data e, p)
     | None \<Rightarrow> do {
         pg \<leftarrow> load_page p idx;
         Some (pg, p\<lparr>cache := AList.update idx \<lparr>data = pg, dirty = False\<rparr> (cache p)\<rparr>)
       }
   }"

definition rwpage :: "pager \<Rightarrow> nat \<Rightarrow> (page \<times> pager) option" where
  "rwpage p idx = do {
     assert_true (page_guard p idx);
     case map_of (cache p) idx of
       Some e \<Rightarrow>
         Some (data e, p\<lparr>cache := AList.update idx (e\<lparr>dirty := True\<rparr>) (cache p)\<rparr>)
     | None \<Rightarrow> do {
         pg \<leftarrow> load_page p idx;
         Some (pg, p\<lparr>cache := AList.update idx \<lparr>data = pg, dirty = True\<rparr> (cache p)\<rparr>)
       }
   }"

definition set_root :: "pager \<Rightarrow> nat \<Rightarrow> pager option" where
  "set_root p pg = do {
     assert_true (transaction_active p);
     Some (p\<lparr>hdr := (hdr p)\<lparr>root_page := pg\<rparr>, header_in_write_set := True\<rparr>)
   }"

section \<open>Transactions\<close>

text \<open>
  \<open>begin_transaction\<close> by the coroutine \<open>tid\<close>: it takes the transaction, or joins the
  queue of waiters. \<open>take_transaction\<close> is what runs once the coroutine is (re)started.
\<close>

definition take_transaction :: "pager \<Rightarrow> pager" where
  "take_transaction p = p\<lparr>saved_hdr := hdr p, transaction_active := True\<rparr>"

definition begin_transaction :: "nat \<Rightarrow> pager \<Rightarrow> pager" where
  "begin_transaction tid p =
     (if transaction_active p then p\<lparr>tx_waiters := tx_waiters p @ [tid]\<rparr>
      else take_transaction p)"

text \<open>The coroutine \<open>finish_transaction\<close> resumes runs at once; it is returned.\<close>

definition finish_transaction :: "pager \<Rightarrow> pager \<times> nat option" where
  "finish_transaction p =
     (let q = p\<lparr>transaction_active := False\<rparr> in
      case tx_waiters q of
        [] \<Rightarrow> (q, None)
      | w # ws \<Rightarrow> (take_transaction (q\<lparr>tx_waiters := ws\<rparr>), Some w))"

definition dirty_pages :: "pager \<Rightarrow> (nat \<times> page) list" where
  "dirty_pages p =
     map (\<lambda>(i, e). (i, data e))
       (filter (\<lambda>(i, e). dirty e \<and> i < page_count (hdr p)) (cache p))"

text \<open>The write set of a commit: dirty pages, then the header if it changed.\<close>

definition write_set :: "pager \<Rightarrow> (nat \<times> payload) list" where
  "write_set p =
     map (\<lambda>(i, pg). (i, PageData pg)) (dirty_pages p) @
     (if header_in_write_set p then [(header_idx, HeaderData (hdr p))] else [])"

definition resize_event :: "pager \<Rightarrow> devent list option" where
  "resize_event p = do {
     assert_true (page_count (hdr p) * psize p < 2 ^ 63);
     Some [DbResize (page_count (hdr p))]
   }"

fun db_write :: "nat \<times> payload \<Rightarrow> devent" where
  "db_write (i, PageData pg) = DbWritePage i pg"
| "db_write (i, HeaderData h) = DbWriteHeader h"

definition commit_no_wal :: "pager \<Rightarrow> pager option" where
  "commit_no_wal p = do {
     resize \<leftarrow> resize_event p;
     let q = io (map db_write (write_set p) @ resize @ [DbSync]) p;
     Some (q\<lparr>cache := [], header_in_write_set := False\<rparr>)
   }"

text \<open>
  \<open>checkpoint\<close>: every page of the index goes to the database file, from the cache if it
  is there and from its frame otherwise, and the header entry from memory. It measures the
  file in pages of the log's page size, which is the pager's for every log that
  \<open>wal::create\<close> made or \<open>try_load\<close> accepted, and 0 for one that \<open>try_load\<close> refused. Frames
  of such a log have no room for a page; \<open>commit_transaction\<close> and \<open>checkpoint\<close> stop (\<open>None\<close>)
  where the code would write them.
\<close>

definition checkpoint_write :: "pager \<Rightarrow> wal \<Rightarrow> nat \<times> nat \<Rightarrow> (nat \<times> payload) option" where
  "checkpoint_write p w e =
     (case e of (idx, fi) \<Rightarrow>
        if idx = header_idx then Some (idx, HeaderData (hdr p))
        else (case map_of (cache p) idx of
            Some c \<Rightarrow> Some (idx, PageData (data c))
          | None \<Rightarrow> do {
              fr \<leftarrow> read_frame (header w) (log (disk_of p)) fi;
              pg \<leftarrow> page_payload (frame_data fr);
              Some (idx, PageData pg)
            }))"

definition checkpoint :: "pager \<Rightarrow> pager option" where
  "checkpoint p = do {
     w \<leftarrow> wal_of p;
     assert_true (opened p);
     assert_true (wal_index w = [] \<or> wal_page_size (header w) = psize p);
     writes \<leftarrow> map_opt (checkpoint_write p w) (wal_index w);
     let bytes = page_count (hdr p) * wal_page_size (header w);
     assert_true (bytes < 2 ^ 63);
     let resize = [DbResize (bytes div psize p)];
     let (h, reset) = wal_reset (header w);
     Some ((io (map db_write writes @ resize @ [DbSync] @ reset) p)
       \<lparr>wal_of := Some \<lparr>header = h, wal_index = []\<rparr>, wal_transaction_count := 0\<rparr>)
   }"

definition index_frames :: "nat \<Rightarrow> nat list \<Rightarrow> (nat \<times> nat) list \<Rightarrow> (nat \<times> nat) list" where
  "index_frames base idxs index =
     fold (\<lambda>(i, idx). AList.update idx (base + i)) (List.enumerate 0 idxs) index"

text \<open>The first half of a commit with a log: append the write set and index it.\<close>

definition log_writes :: "pager \<Rightarrow> wal \<Rightarrow> pager option" where
  "log_writes p w = do {
     let writes = write_set p;
     (h, es) \<leftarrow> append_frames (header w) writes;
     Some ((io es p)\<lparr>header_in_write_set := False,
       wal_of := Some \<lparr>header = h,
         wal_index = index_frames (frame_count (header w)) (map fst writes) (wal_index w)\<rparr>\<rparr>)
   }"

definition commit_log :: "pager \<Rightarrow> pager option" where
  "commit_log p = do {
     w \<leftarrow> wal_of p;
     if frame_count (header w) > 0 then do {
       es \<leftarrow> wal_commit (header w);
       let q = (io es p)\<lparr>wal_transaction_count := wal_transaction_count p + 1\<rparr>;
       if wal_transaction_count q \<ge> checkpoint_interval q then checkpoint q else Some q
     } else Some p
   }"

definition commit_transaction :: "pager \<Rightarrow> (pager \<times> nat option) option" where
  "commit_transaction p = do {
     assert_true (transaction_active p);
     case wal_of p of
       None \<Rightarrow> do { q \<leftarrow> commit_no_wal p; Some (finish_transaction q) }
     | Some w \<Rightarrow> do {
         assert_true (wal_page_size (header w) = psize p);
         q \<leftarrow> log_writes p w;
         r \<leftarrow> commit_log q;
         Some (finish_transaction (r\<lparr>cache := []\<rparr>))
       }
   }"

definition rollback_transaction :: "pager \<Rightarrow> pager \<times> nat option" where
  "rollback_transaction p =
     finish_transaction (p\<lparr>hdr := saved_hdr p, header_in_write_set := False, cache := []\<rparr>)"

section \<open>Recovery and opening\<close>

definition recover_event :: "frame \<Rightarrow> devent option" where
  "recover_event fr =
     (case (frame_idx fr = header_idx, frame_data fr) of
        (True, HeaderData h) \<Rightarrow> Some (DbWriteHeader h)
      | (False, PageData pg) \<Rightarrow> Some (DbWritePage (frame_idx fr) pg)
      | _ \<Rightarrow> None)"

definition maybe_recover_wal :: "pager \<Rightarrow> pager option" where
  "maybe_recover_wal p =
     (case wal_of p of
        None \<Rightarrow> Some p
      | Some w \<Rightarrow>
          (case try_load (log (disk_of p)) (psize p) of
             None \<Rightarrow> Some p
           | Some h \<Rightarrow>
               let q = p\<lparr>wal_of := Some (w\<lparr>header := h\<rparr>)\<rparr> in
               if frame_count h = 0 then Some q
               else do {
                 frs \<leftarrow> map_opt (read_frame h (log (disk_of q))) [0..<frame_count h];
                 es \<leftarrow> map_opt recover_event frs;
                 let (h', reset) = wal_reset h;
                 let r = read_header (io (es @ [DbSync] @ reset) q);
                 resize \<leftarrow> resize_event r;
                 Some ((io resize r)\<lparr>wal_of := Some (w\<lparr>header := h'\<rparr>)\<rparr>)
               }))"

definition default_header :: pager_header where
  "default_header = \<lparr>magic_version = 0, page_size = 0, page_count = 0, root_page = 0\<rparr>"

definition default_wal_header :: wal_header where
  "default_wal_header =
     \<lparr>wal_magic = 0, wal_page_size = 0, wal_salt = 0, frame_count = 0\<rparr>"

definition fresh_pager :: "disk \<Rightarrow> nat \<Rightarrow> wal option \<Rightarrow> pager" where
  "fresh_pager d interval w =
     \<lparr>disk_of = d, trace = [], opened = True, hdr = default_header,
      saved_hdr = default_header, header_in_write_set = False, transaction_active = False,
      tx_waiters = [], checkpoint_interval = interval, wal_transaction_count = 0,
      cache = [], wal_of = w\<rparr>"

text \<open>The three \<open>init\<close> overloads: without a log, recovering a log, and with a new log.\<close>

definition init :: "disk \<Rightarrow> nat \<Rightarrow> pager" where
  "init d interval = read_header (fresh_pager d interval None)"

definition init_recover :: "disk \<Rightarrow> nat \<Rightarrow> pager option" where
  "init_recover d interval =
     maybe_recover_wal (read_header
       (fresh_pager d interval (Some \<lparr>header = default_wal_header, wal_index = []\<rparr>)))"

definition init_new_wal :: "disk \<Rightarrow> nat \<Rightarrow> pager_header \<Rightarrow> u64 \<Rightarrow> pager" where
  "init_new_wal d interval h salt =
     (let (wh, es) = wal_create salt (page_size h);
          p = (fresh_pager d interval (Some \<lparr>header = wh, wal_index = []\<rparr>))\<lparr>hdr := h\<rparr>
      in io es p)"

definition destroy :: "pager \<Rightarrow> pager option" where
  "destroy p = do {
     assert_true (opened p);
     q \<leftarrow> (if transaction_active p then Some (fst (rollback_transaction p))
           else if wal_of p = None then commit_no_wal p
           else Some p);
     Some (q\<lparr>opened := False\<rparr>)
   }"

section \<open>The page allocator\<close>

definition bitset_entry_count :: "pager \<Rightarrow> nat" where
  "bitset_entry_count p = psize p div 8"

definition pages_per_entry :: nat where "pages_per_entry = 64"

text \<open>Distance from one bitset page to the next (\<open>BITSET_PAGE_STRIDE\<close>, \<open>PAGES_PER_BITSET\<close>).\<close>

definition bitset_stride :: "pager \<Rightarrow> nat" where
  "bitset_stride p = bitset_entry_count p * pages_per_entry + 1"

definition count_trailing_zeros :: "u64 \<Rightarrow> nat" where
  "count_trailing_zeros x = length (takeWhile (\<lambda>i. \<not> bit x i) [0..<64])"

definition count_leading_zeros :: "u64 \<Rightarrow> nat" where
  "count_leading_zeros x = length (takeWhile (\<lambda>i. \<not> bit x i) (rev [0..<64]))"

definition ensure_page_zeroed :: "nat \<Rightarrow> pager \<Rightarrow> pager" where
  "ensure_page_zeroed idx p =
     p\<lparr>cache := AList.update idx \<lparr>data = zero_page (psize p), dirty = True\<rparr> (cache p)\<rparr>"

text \<open>The first word of the bitset with a zero bit.\<close>

definition free_entry :: "nat \<Rightarrow> page \<Rightarrow> nat option" where
  "free_entry n bs = find (\<lambda>e. NOT (bs ! e) \<noteq> 0) [0..<n]"

definition set_page_count :: "nat \<Rightarrow> pager \<Rightarrow> pager" where
  "set_page_count n p = p\<lparr>hdr := (hdr p)\<lparr>page_count := n\<rparr>, header_in_write_set := True\<rparr>"

definition grow_file :: "pager \<Rightarrow> pager option" where
  "grow_file p = do { es \<leftarrow> resize_event p; Some (io es p) }"

definition take_free_bit ::
  "pager \<Rightarrow> nat \<Rightarrow> page \<Rightarrow> nat \<Rightarrow> (nat \<times> pager) option" where
  "take_free_bit p bitset_page bs entry_idx = do {
     let bit_idx = count_trailing_zeros (NOT (bs ! entry_idx));
     let q = put_page bitset_page
               (bs[entry_idx := bs ! entry_idx OR push_bit bit_idx 1]) p;
     let free_page = bitset_page + 1 + pages_per_entry * entry_idx + bit_idx;
     r \<leftarrow> (if free_page \<ge> page_count (hdr q)
           then grow_file (set_page_count (free_page + 1) q) else Some q);
     Some (free_page, ensure_page_zeroed free_page r)
   }"

text \<open>The loop over the bitset pages below \<open>n\<close>; \<open>None\<close> inside is "no free bit found".\<close>

function scan_bitsets ::
  "nat \<Rightarrow> nat \<Rightarrow> pager \<Rightarrow> nat \<Rightarrow> (nat option \<times> pager) option" where
  "scan_bitsets n ents p bitset_page =
     (if bitset_page < n then do {
        (bs, q) \<leftarrow> rwpage p bitset_page;
        case free_entry ents bs of
          Some entry_idx \<Rightarrow> do {
            (pg, r) \<leftarrow> take_free_bit q bitset_page bs entry_idx;
            Some (Some pg, r)
          }
        | None \<Rightarrow> scan_bitsets n ents q (bitset_page + (ents * pages_per_entry + 1))
      } else Some (None, p))"
  by pat_completeness auto
termination
  by (relation "measure (\<lambda>(n, ents, p, bitset_page). n - bitset_page)") auto

declare scan_bitsets.simps [simp del]

definition append_bitset :: "pager \<Rightarrow> (nat \<times> pager) option" where
  "append_bitset p = do {
     assert_true ((page_count (hdr p) - 1) mod bitset_stride p = 0);
     let bitset_page = page_count (hdr p);
     let free_page = bitset_page + 1;
     q \<leftarrow> grow_file (set_page_count (bitset_page + 2) p);
     (bs, r) \<leftarrow> rwpage q bitset_page;
     let r = put_page bitset_page (bs[0 := bs ! 0 OR 1]) r;
     Some (free_page, ensure_page_zeroed free_page r)
   }"

definition new_page :: "pager \<Rightarrow> (nat \<times> pager) option" where
  "new_page p = do {
     assert_true (transaction_active p);
     (found, q) \<leftarrow> scan_bitsets (page_count (hdr p)) (bitset_entry_count p) p 1;
     case found of
       Some pg \<Rightarrow> Some (pg, q)
     | None \<Rightarrow> append_bitset q
   }"

text \<open>The highest used bit at or below an entry: the entry and how many of its pages stay.\<close>

fun last_used :: "page \<Rightarrow> nat \<Rightarrow> (nat \<times> nat) option" where
  "last_used bs entry_idx =
     (if bs ! entry_idx \<noteq> 0
      then Some (entry_idx, pages_per_entry - count_leading_zeros (bs ! entry_idx))
      else (case entry_idx of 0 \<Rightarrow> None | Suc e \<Rightarrow> last_used bs e))"

declare last_used.simps [simp del]

definition trimmed_count :: "nat \<Rightarrow> page \<Rightarrow> nat \<Rightarrow> nat" where
  "trimmed_count bitset_page bs entry_idx =
     (case last_used bs entry_idx of
        Some (e, occupied) \<Rightarrow> bitset_page + 1 + e * pages_per_entry + occupied
      | None \<Rightarrow> bitset_page)"

function trim_pages :: "nat \<Rightarrow> pager \<Rightarrow> nat \<Rightarrow> page \<Rightarrow> nat \<Rightarrow> pager option" where
  "trim_pages ents p bitset_page bs entry_idx =
     (let n = trimmed_count bitset_page bs entry_idx;
          q = p\<lparr>hdr := (hdr p)\<lparr>page_count := n\<rparr>\<rparr>;
          stride = ents * pages_per_entry + 1
      in if n \<noteq> bitset_page \<or> n \<le> stride then Some q
         else do {
           (bs', r) \<leftarrow> rpage q (bitset_page - stride);
           trim_pages ents r (bitset_page - stride) bs' (ents - 1)
         })"
  by pat_completeness auto
termination
  by (relation "measure (\<lambda>(ents, p, bitset_page, bs, entry_idx). bitset_page)") auto

declare trim_pages.simps [simp del]

definition bitset_page_of :: "pager \<Rightarrow> nat \<Rightarrow> nat" where
  "bitset_page_of p idx = ((idx - 1) div bitset_stride p) * bitset_stride p + 1"

definition delete_page :: "pager \<Rightarrow> nat \<Rightarrow> pager option" where
  "delete_page p idx = do {
     assert_true (transaction_active p);
     assert_true (idx < page_count (hdr p) \<and> idx > 0);
     let bitset_page = bitset_page_of p idx;
     assert_true (idx \<noteq> bitset_page);
     (bs, q) \<leftarrow> rwpage p bitset_page;
     let bitset_idx = idx - bitset_page - 1;
     let entry_idx = bitset_idx div pages_per_entry;
     let bit_idx = bitset_idx mod pages_per_entry;
     assert_true (bs ! entry_idx AND push_bit bit_idx 1 \<noteq> 0);
     let bs' = bs[entry_idx := bs ! entry_idx AND NOT (push_bit bit_idx 1)];
     let r = ensure_page_zeroed idx (put_page bitset_page bs' q);
     if idx \<noteq> page_count (hdr p) - 1 then Some r
     else do {
       let old_page_count = page_count (hdr r);
       t \<leftarrow> trim_pages (bitset_entry_count p) r bitset_page bs' entry_idx;
       assert_true (page_count (hdr t) < old_page_count);
       Some (t\<lparr>header_in_write_set := True\<rparr>)
     }
   }"

end
