(* ===== verification/Recovery.thy ===== *)
theory Recovery
  imports Pager
begin

text \<open>
  What survives a crash. \<open>represents d H Pg\<close> says that the two files hold the committed
  database with header \<open>H\<close> and pages \<open>Pg\<close>: each page is in its last committed frame, or,
  if no frame has it, in the database file. Recovery (\<open>maybe_recover_wal\<close>) turns any such
  pair of files into the database it represents. \<open>crash\<close> is what can be on the device when
  the process dies after a sequence of transfers: everything before the last sync of a file
  is there; of what came later, a page or frame slot that was touched may hold anything, the
  header and the frame count hold an old or a written value.
\<close>

section \<open>Committed contents\<close>

definition logged :: "frame list \<Rightarrow> nat \<Rightarrow> payload option" where
  "logged frs = map_of (rev (map (\<lambda>f. (frame_idx f, frame_data f)) frs))"

lemma logged_Nil [simp]: "logged [] i = None"
  by (simp add: logged_def)

lemma logged_append: "logged (xs @ ys) = logged xs ++ logged ys"
  by (simp add: logged_def)

lemma logged_snoc [simp]:
  "logged (xs @ [f]) i = (if i = frame_idx f then Some (frame_data f) else logged xs i)"
  by (simp add: logged_def)

definition is_header :: "payload \<Rightarrow> bool" where
  "is_header pl = (case pl of HeaderData h \<Rightarrow> True | PageData pg \<Rightarrow> False)"

lemma is_header_simps [simp]:
  "is_header (HeaderData h)" "\<not> is_header (PageData pg)"
  by (simp_all add: is_header_def)

text \<open>A header goes under \<open>header_idx\<close> and a page under its index; page sizes do not change.\<close>

definition typed :: "nat \<Rightarrow> nat \<Rightarrow> payload \<Rightarrow> bool" where
  "typed sz i pl \<longleftrightarrow> (i = header_idx \<longleftrightarrow> is_header pl) \<and> (\<forall>h. pl = HeaderData h \<longrightarrow> page_size h = sz)"

definition frame_wf :: "nat \<Rightarrow> u64 \<Rightarrow> frame \<Rightarrow> bool" where
  "frame_wf sz salt f \<longleftrightarrow> frame_ok salt f \<and> typed sz (frame_idx f) (frame_data f)"

lemma logged_typed:
  assumes "\<forall>f\<in>set frs. frame_wf sz salt f" "logged frs i = Some pl"
  shows "i = header_idx \<longleftrightarrow> is_header pl"
proof -
  have "(i, pl) \<in> set (map (\<lambda>f. (frame_idx f, frame_data f)) frs)"
    using assms(2) by (auto simp: logged_def dest!: map_of_SomeD)
  then show ?thesis using assms(1) by (auto simp: frame_wf_def typed_def)
qed

definition committed :: "wal_header \<Rightarrow> wal_file \<Rightarrow> frame list" where
  "committed h f = take (frame_count h) (wf_frames f)"

definition log_ok :: "nat \<Rightarrow> wal_header \<Rightarrow> wal_file \<Rightarrow> bool" where
  "log_ok sz h f \<longleftrightarrow> wf_header f = Some h \<and> wal_magic h = WAL_MAGIC \<and>
     wal_page_size h = sz \<and> frame_count h \<le> length (wf_frames f) \<and>
     (\<forall>fr\<in>set (committed h f). frame_wf sz (wal_salt h) fr)"

definition holds_header :: "frame list \<Rightarrow> db_file \<Rightarrow> pager_header \<Rightarrow> bool" where
  "holds_header frs f H \<longleftrightarrow>
     (case logged frs header_idx of Some pl \<Rightarrow> pl = HeaderData H | None \<Rightarrow> db_header f = H)"

definition holds_page :: "frame list \<Rightarrow> db_file \<Rightarrow> nat \<Rightarrow> page \<Rightarrow> bool" where
  "holds_page frs f i pg \<longleftrightarrow>
     (case logged frs i of
        Some pl \<Rightarrow> pl = PageData pg
      | None \<Rightarrow> i < length (db_pages f) \<and> db_pages f ! i = pg)"

definition contents :: "frame list \<Rightarrow> db_file \<Rightarrow> pager_header \<Rightarrow> (nat \<Rightarrow> page) \<Rightarrow> bool" where
  "contents frs f H Pg \<longleftrightarrow> holds_header frs f H \<and> page_size (db_header f) = page_size H \<and>
     0 < page_size H \<and> page_count H * page_size H < 2 ^ 63 \<and> page_count H \<le> header_idx \<and>
     (\<forall>i. 0 < i \<and> i < page_count H \<longrightarrow> holds_page frs f i (Pg i))"

definition represents :: "disk \<Rightarrow> pager_header \<Rightarrow> (nat \<Rightarrow> page) \<Rightarrow> bool" where
  "represents d H Pg \<longleftrightarrow>
     (case wf_header (log d) of
        None \<Rightarrow> False
      | Some h \<Rightarrow> log_ok (page_size H) h (log d) \<and> contents (committed h (log d)) (db d) H Pg)"

section \<open>Redo\<close>

text \<open>The transfer that puts a frame's payload where it belongs.\<close>

definition redo_event :: "frame \<Rightarrow> devent" where
  "redo_event fr = db_write (frame_idx fr, frame_data fr)"

lemma recover_event_wf: "frame_wf sz salt fr \<Longrightarrow> recover_event fr = Some (redo_event fr)"
  by (cases "frame_data fr") (auto simp: recover_event_def redo_event_def frame_wf_def typed_def)

lemma map_opt_map: "(\<And>x. x \<in> set xs \<Longrightarrow> f x = Some (g x)) \<Longrightarrow> map_opt f xs = Some (map g xs)"
  by (induction xs) auto

lemma map_opt_length: "map_opt f xs = Some ys \<Longrightarrow> length ys = length xs"
  by (induction xs arbitrary: ys) (auto simp: bind_eq_Some_conv)

lemma map_opt_in: "map_opt f xs = Some ys \<Longrightarrow> y \<in> set ys \<Longrightarrow> \<exists>x\<in>set xs. f x = Some y"
  by (induction xs arbitrary: ys) (auto simp: bind_eq_Some_conv)

lemma map_opt_of: "map_opt f xs = Some ys \<Longrightarrow> x \<in> set xs \<Longrightarrow> \<exists>y\<in>set ys. f x = Some y"
  by (induction xs arbitrary: ys) (auto simp: bind_eq_Some_conv)

lemma read_committed_frames:
  assumes "log_ok sz h f"
  shows "map_opt (read_frame h f) [0..<frame_count h] = Some (committed h f)"
proof -
  have wf: "frame_wf sz (wal_salt h) (wf_frames f ! i)" if "i < frame_count h" for i
  proof -
    have "wf_frames f ! i = committed h f ! i" "i < length (committed h f)"
      using that assms by (simp_all add: committed_def log_ok_def)
    then show ?thesis using assms unfolding log_ok_def by (metis nth_mem)
  qed
  have "map_opt (read_frame h f) [0..<frame_count h] =
      Some (map (\<lambda>i. wf_frames f ! i) [0..<frame_count h])"
    using wf assms by (intro map_opt_map) (auto simp: read_frame_eq_Some log_ok_def frame_wf_def)
  also have "map (\<lambda>i. wf_frames f ! i) [0..<frame_count h] = committed h f"
    using assms by (intro nth_equalityI) (auto simp: committed_def log_ok_def)
  finally show ?thesis .
qed

text \<open>Redoing frames makes the database file hold what the frames and the old file held.\<close>

lemma redo_header:
  assumes "\<forall>fr\<in>set frs. frame_wf z salt fr"
  shows "logged frs header_idx = None \<Longrightarrow>
      db_header (db (apply_devents sz (map redo_event frs) d)) = db_header (db d)"
    and "logged frs header_idx = Some (HeaderData h) \<Longrightarrow>
      db_header (db (apply_devents sz (map redo_event frs) d)) = h"
  using assms
proof (induction frs rule: rev_induct)
  case (snoc fr frs)
  { case 1 with snoc show ?case
      by (cases "frame_data fr") (auto simp: redo_event_def frame_wf_def typed_def split: if_splits) }
  { case 2 with snoc show ?case
      by (cases "frame_data fr") (auto simp: redo_event_def frame_wf_def typed_def split: if_splits) }
qed auto

lemma redo_page:
  assumes "\<forall>fr\<in>set frs. frame_wf z salt fr" "holds_page frs (db d) i pg"
  shows "holds_page [] (db (apply_devents sz (map redo_event frs) d)) i pg"
  using assms
proof (induction frs rule: rev_induct)
  case Nil
  then show ?case by simp
next
  case (snoc fr frs)
  let ?f = "db (apply_devents sz (map redo_event frs) d)"
  have IH: "holds_page frs (db d) i pg \<Longrightarrow> holds_page [] ?f i pg" using snoc by simp
  show ?case
  proof (cases "frame_data fr")
    case (PageData q)
    then have "redo_event fr = DbWritePage (frame_idx fr) q" by (simp add: redo_event_def)
    then show ?thesis
      using IH snoc.prems PageData
      by (auto simp: holds_page_def write_page_other split: if_splits)
  next
    case (HeaderData h)
    then have "redo_event fr = DbWriteHeader h" by (simp add: redo_event_def)
    then show ?thesis
      using IH snoc.prems HeaderData
      by (auto simp: holds_page_def split: if_splits)
  qed
qed

lemma redo_contents:
  assumes "\<forall>fr\<in>set frs. frame_wf z salt fr" "contents frs (db d) H Pg"
  shows "contents [] (db (apply_devents sz (map redo_event frs) d)) H Pg"
proof -
  let ?f = "db (apply_devents sz (map redo_event frs) d)"
  have "db_header ?f = H"
  proof (cases "logged frs header_idx")
    case None
    then show ?thesis
      using assms redo_header(1) by (simp add: contents_def holds_header_def)
  next
    case (Some pl)
    then show ?thesis
      using assms redo_header(2) by (simp add: contents_def holds_header_def)
  qed
  then show ?thesis
    using assms redo_page [OF assms(1)] by (simp add: contents_def holds_header_def)
qed

lemma apply_db_events_resize:
  assumes "contents [] f H Pg"
  shows "contents [] (apply_db sz (DbResize (page_count H)) f) H Pg"
  using assms by (auto simp: contents_def holds_header_def holds_page_def resize_pages_nth)

section \<open>Recovery\<close>

text \<open>
  Opening a represented database yields its header, and every page of it is in the
  database file; the log is empty.
\<close>

definition recovered :: "pager \<Rightarrow> pager_header \<Rightarrow> (nat \<Rightarrow> page) \<Rightarrow> bool" where
  "recovered p H Pg \<longleftrightarrow> hdr p = H \<and> contents [] (db (disk_of p)) H Pg \<and> cache p = [] \<and>
     (\<exists>h. log_ok (page_size H) h (log (disk_of p)) \<and> frame_count h = 0 \<and>
          wal_of p = Some \<lparr>header = h, wal_index = []\<rparr>)"

lemma io_sel [simp]:
  "disk_of (io es p) = apply_devents (psize p) es (disk_of p)"
  "trace (io es p) = trace p @ es"
  "hdr (io es p) = hdr p" "wal_of (io es p) = wal_of p" "cache (io es p) = cache p"
  "saved_hdr (io es p) = saved_hdr p" "opened (io es p) = opened p"
  "transaction_active (io es p) = transaction_active p"
  "tx_waiters (io es p) = tx_waiters p"
  "header_in_write_set (io es p) = header_in_write_set p"
  "wal_transaction_count (io es p) = wal_transaction_count p"
  "checkpoint_interval (io es p) = checkpoint_interval p"
  by (simp_all add: io_def)

fun db_event :: "devent \<Rightarrow> bool" where
  "db_event (DbWritePage i pg) = True"
| "db_event (DbWriteHeader h) = True"
| "db_event (DbResize n) = True"
| "db_event DbSync = True"
| "db_event e = False"

lemma apply_log_db_events: "list_all db_event es \<Longrightarrow> log (apply_devents sz es d) = log d"
proof (induction es arbitrary: d)
  case (Cons e es)
  then show ?case by (cases e) auto
qed simp

lemma apply_db_log_events:
  "list_all (\<lambda>e. \<not> db_event e) es \<Longrightarrow> db (apply_devents sz es d) = db d"
proof (induction es arbitrary: d)
  case (Cons e es)
  then show ?case by (cases e) auto
qed simp

lemma db_event_redo: "list_all db_event (map redo_event frs)"
proof -
  have "db_event (redo_event fr)" for fr
    by (cases "frame_data fr") (simp_all add: redo_event_def)
  then show ?thesis by (simp add: list_all_iff)
qed

lemma log_ok_empty: "log_ok sz h f \<Longrightarrow>
    log_ok sz (h\<lparr>frame_count := 0\<rparr>)
      (f\<lparr>wf_header := Some (h\<lparr>frame_count := 0\<rparr>)\<rparr>)"
  by (auto simp: log_ok_def committed_def)

text \<open>The transfers of a recovery that found the frames \<open>frs\<close>.\<close>

definition recovery_events :: "pager_header \<Rightarrow> frame list \<Rightarrow> devent list" where
  "recovery_events H frs =
     (if frs = [] then []
      else map redo_event frs @ [DbSync, LogWriteCount 0, LogSync, DbResize (page_count H)])"

lemma init_recover_represents:
  assumes "represents d H Pg"
  shows "\<exists>r h. init_recover d k = Some r \<and> recovered r H Pg \<and> wf_header (log d) = Some h \<and>
    trace r = recovery_events H (if frame_count h = 0 then [] else committed h (log d)) \<and>
    disk_of r = apply_devents (page_size H) (trace r) d \<and>
    opened r \<and> \<not> transaction_active r \<and> \<not> header_in_write_set r"
proof -
  obtain h where wf: "wf_header (log d) = Some h" and ok: "log_ok (page_size H) h (log d)"
    and cont: "contents (committed h (log d)) (db d) H Pg"
    using assms by (auto simp: represents_def split: option.splits)
  have frs: "\<forall>fr\<in>set (committed h (log d)). frame_wf (page_size H) (wal_salt h) fr"
    using ok by (simp add: log_ok_def)
  have sz: "page_size (db_header (db d)) = page_size H"
    using cont by (simp add: contents_def)
  let ?p = "read_header (fresh_pager d k (Some \<lparr>header = default_wal_header, wal_index = []\<rparr>))"
  have load: "try_load (log (disk_of ?p)) (psize ?p) = Some h"
    using ok sz wf by (simp add: try_load_def log_ok_def read_header_def fresh_pager_def)
  show ?thesis
  proof (cases "frame_count h = 0")
    case True
    then have none: "committed h (log d) = []" by (simp add: committed_def)
    then have "db_header (db d) = H" using cont by (simp add: contents_def holds_header_def)
    then show ?thesis
      using True load cont ok none wf
      by (simp add: init_recover_def maybe_recover_wal_def recovered_def read_header_def
          fresh_pager_def recovery_events_def)
  next
    case False
    let ?es = "map redo_event (committed h (log d))"
    let ?h' = "h\<lparr>frame_count := 0\<rparr>"
    let ?q = "?p\<lparr>wal_of := Some \<lparr>header = h, wal_index = []\<rparr>\<rparr>"
    let ?r = "read_header (io (?es @ [DbSync] @ [LogWriteCount 0, LogSync]) ?q)"
    have read: "map_opt (read_frame h (log d)) [0..<frame_count h] = Some (committed h (log d))"
      using read_committed_frames [OF ok] .
    have evs: "map_opt recover_event (committed h (log d)) = Some ?es"
      using frs recover_event_wf by (intro map_opt_map) blast
    have q: "disk_of ?q = d" "psize ?q = page_size H" using sz
      by (simp_all add: read_header_def fresh_pager_def)
    have redone: "contents [] (db (apply_devents (page_size H) ?es d)) H Pg"
      by (rule redo_contents [OF frs cont])
    have r_db: "db (disk_of ?r) = db (apply_devents (page_size H) ?es d)"
      using sz by (simp add: read_header_def fresh_pager_def)
    have r_hdr: "hdr ?r = H"
      using redone sz
      by (simp add: read_header_def fresh_pager_def contents_def holds_header_def)
    have r_log: "log (disk_of ?r) = (log d)\<lparr>wf_header := Some ?h'\<rparr>"
      using wf sz by (simp add: read_header_def fresh_pager_def apply_log_db_events db_event_redo)
    have resize: "resize_event ?r = Some [DbResize (page_count H)]"
      using cont r_hdr by (simp add: resize_event_def contents_def)
    let ?s = "(io [DbResize (page_count H)] ?r)\<lparr>wal_of := Some \<lparr>header = ?h', wal_index = []\<rparr>\<rparr>"
    have "init_recover d k = Some ?s"
      using False load read evs resize q
      by (simp add: init_recover_def maybe_recover_wal_def wal_reset_def Let_def read_header_def
          fresh_pager_def)
    moreover have "recovered ?s H Pg"
    proof -
      have "contents [] (db (disk_of ?s)) H Pg"
        using apply_db_events_resize [OF redone] r_db by simp
      moreover have "log (disk_of ?s) = (log d)\<lparr>wf_header := Some ?h'\<rparr>"
        using r_log by simp
      moreover have "cache ?s = []" by (simp add: read_header_def fresh_pager_def)
      ultimately show ?thesis using r_hdr log_ok_empty [OF ok] by (simp add: recovered_def)
    qed
    moreover have "committed h (log d) \<noteq> []" using False ok by (auto simp: committed_def log_ok_def)
    then have "trace ?s = recovery_events H (committed h (log d))"
      by (simp add: read_header_def fresh_pager_def recovery_events_def)
    moreover have "disk_of ?s = apply_devents (page_size H) (trace ?s) d"
      using r_hdr sz by (simp add: read_header_def fresh_pager_def)
    moreover have "opened ?s" "\<not> transaction_active ?s" "\<not> header_in_write_set ?s"
      by (simp_all add: read_header_def fresh_pager_def)
    ultimately show ?thesis using wf False by (intro exI [of _ ?s] exI [of _ h]) simp
  qed
qed

section \<open>Crashes\<close>

fun upto_sync :: "devent \<Rightarrow> devent list \<Rightarrow> devent list" where
  "upto_sync s [] = []"
| "upto_sync s (e # es) =
     (if e = s \<or> s \<in> set es then e # upto_sync s es else [])"

fun after_sync :: "devent \<Rightarrow> devent list \<Rightarrow> devent list" where
  "after_sync s [] = []"
| "after_sync s (e # es) =
     (if s \<in> set es then after_sync s es else if e = s then es else e # es)"

fun touches_page :: "devent \<Rightarrow> nat \<Rightarrow> bool" where
  "touches_page (DbWritePage j pg) i = (i = j)"
| "touches_page (DbResize n) i = (n \<le> i)"
| "touches_page e i = False"

fun touches_frame :: "devent \<Rightarrow> nat \<Rightarrow> bool" where
  "touches_frame (LogCreate h) i = True"
| "touches_frame (LogResize n) i = (n \<le> i)"
| "touches_frame (LogWriteFrames b fs) i = (b \<le> i)"
| "touches_frame e i = False"

text \<open>
  \<open>crash_db f es f'\<close>: the database file is \<open>f'\<close> after a crash that found \<open>f\<close> on the device
  and the transfers \<open>es\<close> on their way. The 32-byte header is written in one sector.
\<close>

definition crash_db :: "db_file \<Rightarrow> devent list \<Rightarrow> db_file \<Rightarrow> bool" where
  "crash_db f es f' \<longleftrightarrow>
     (db_header f' = db_header f \<or> DbWriteHeader (db_header f') \<in> set es) \<and>
     (\<forall>i<length (db_pages f). (\<forall>e\<in>set es. \<not> touches_page e i) \<longrightarrow>
        i < length (db_pages f') \<and> db_pages f' ! i = db_pages f ! i)"

definition crash_log :: "wal_file \<Rightarrow> devent list \<Rightarrow> wal_file \<Rightarrow> bool" where
  "crash_log f es f' \<longleftrightarrow>
     ((\<forall>h. LogCreate h \<notin> set es) \<longrightarrow>
        wf_header f' = wf_header f \<or>
        (\<exists>n. LogWriteCount n \<in> set es \<and>
           wf_header f' = map_option (\<lambda>h. h\<lparr>frame_count := n\<rparr>) (wf_header f))) \<and>
     (\<forall>i<length (wf_frames f). (\<forall>e\<in>set es. \<not> touches_frame e i) \<longrightarrow>
        i < length (wf_frames f') \<and> wf_frames f' ! i = wf_frames f ! i)"

definition crash :: "nat \<Rightarrow> disk \<Rightarrow> devent list \<Rightarrow> disk \<Rightarrow> bool" where
  "crash sz d es d' \<longleftrightarrow>
     crash_db (db (apply_devents sz (upto_sync DbSync es) d)) (after_sync DbSync es) (db d') \<and>
     crash_log (log (apply_devents sz (upto_sync LogSync es) d)) (after_sync LogSync es) (log d')"

end
