(* ===== verification/Commit.thy ===== *)
theory Commit
  imports Recovery
begin

text \<open>
  Transactions keep the database. \<open>tx_inv\<close> relates a pager inside a transaction to the
  database \<open>(H, Pg)\<close> that was committed when it began and to the files on the device;
  \<open>idle_inv\<close> is the same between transactions. A commit makes the pages the transaction
  sees the committed ones; a crash at any point of it leaves the old or the new
  database, and a rollback gives the old one back.
\<close>

section \<open>The invariant\<close>

definition index_ok :: "(nat \<times> nat) list \<Rightarrow> frame list \<Rightarrow> bool" where
  "index_ok index frs \<longleftrightarrow> distinct (map fst index) \<and>
     (\<forall>i. case map_of index i of
        None \<Rightarrow> logged frs i = None
      | Some j \<Rightarrow> j < length frs \<and> logged frs i = Some (frame_data (frs ! j)))"

text \<open>What a transaction sees at a page index.\<close>

definition cur_page :: "pager \<Rightarrow> nat \<Rightarrow> page option" where
  "cur_page p i =
     (case map_of (cache p) i of Some e \<Rightarrow> Some (data e) | None \<Rightarrow> load_page p i)"

definition is_dirty :: "pager \<Rightarrow> nat \<Rightarrow> bool" where
  "is_dirty p i = (case map_of (cache p) i of Some e \<Rightarrow> dirty e | None \<Rightarrow> False)"

definition log_inv :: "disk \<Rightarrow> pager \<Rightarrow> wal \<Rightarrow> bool" where
  "log_inv b p w \<longleftrightarrow> wal_of p = Some w \<and> opened p \<and> wf_header (log b) = Some (header w) \<and>
     index_ok (wal_index w) (committed (header w) (log b))"

definition cache_inv :: "pager \<Rightarrow> bool" where
  "cache_inv p \<longleftrightarrow> distinct (map fst (cache p)) \<and>
     (\<forall>i e. map_of (cache p) i = Some e \<and> \<not> dirty e \<longrightarrow>
        0 < i \<and> i < page_count (saved_hdr p) \<and> load_page p i = Some (data e)) \<and>
     (\<forall>i. 0 < i \<and> i < page_count (hdr p) \<longrightarrow> cur_page p i \<noteq> None)"

definition header_inv :: "pager \<Rightarrow> bool" where
  "header_inv p \<longleftrightarrow> (header_in_write_set p \<or> hdr p = saved_hdr p) \<and>
     psize p = page_size (saved_hdr p) \<and> 0 < psize p \<and>
     page_count (hdr p) \<le> header_idx \<and> page_count (hdr p) * psize p < 2 ^ 63"

text \<open>
  The transfers \<open>g\<close> still on their way to the database file: resizes that leave alone every
  page below \<open>n\<close> that no frame holds.
\<close>

definition pending :: "frame list \<Rightarrow> nat \<Rightarrow> devent list \<Rightarrow> bool" where
  "pending F n g \<longleftrightarrow> (\<forall>e\<in>set g. \<exists>m. e = DbResize m \<and>
     (\<forall>i. m \<le> i \<and> 0 < i \<and> i < n \<longrightarrow> logged F i \<noteq> None))"

text \<open>Pages the transaction added are dirty.\<close>

definition fresh_dirty :: "pager \<Rightarrow> bool" where
  "fresh_dirty p \<longleftrightarrow>
     (\<forall>i. page_count (saved_hdr p) \<le> i \<and> 0 < i \<and> i < page_count (hdr p) \<longrightarrow> is_dirty p i)"

definition tx_inv :: "disk \<Rightarrow> devent list \<Rightarrow> pager \<Rightarrow> wal \<Rightarrow> (nat \<Rightarrow> page) \<Rightarrow> bool" where
  "tx_inv b g p w Pg \<longleftrightarrow> transaction_active p \<and> represents b (saved_hdr p) Pg \<and>
     disk_of p = apply_devents (psize p) g b \<and>
     pending (committed (header w) (log b)) (page_count (saved_hdr p)) g \<and>
     log_inv b p w \<and> header_inv p \<and> cache_inv p \<and> fresh_dirty p"

definition idle_inv :: "disk \<Rightarrow> devent list \<Rightarrow> pager \<Rightarrow> wal \<Rightarrow> (nat \<Rightarrow> page) \<Rightarrow> bool" where
  "idle_inv b g p w Pg \<longleftrightarrow> represents b (hdr p) Pg \<and>
     disk_of p = apply_devents (psize p) g b \<and>
     pending (committed (header w) (log b)) (page_count (hdr p)) g \<and>
     log_inv b p w \<and> cache p = [] \<and> \<not> header_in_write_set p"

section \<open>Reading through the log\<close>

lemma representsD:
  assumes "represents b H Pg" "wf_header (log b) = Some h"
  shows "log_ok (page_size H) h (log b)" "contents (committed h (log b)) (db b) H Pg"
  using assms by (simp_all add: represents_def)

lemma log_ok_nth:
  assumes "log_ok sz h f" "j < length (committed h f)"
  shows "read_frame h f j = Some (committed h f ! j)"
    "frame_wf sz (wal_salt h) (committed h f ! j)"
proof -
  have j: "j < frame_count h" "j < length (wf_frames f)" "committed h f ! j = wf_frames f ! j"
    using assms by (auto simp: committed_def)
  show wf: "frame_wf sz (wal_salt h) (committed h f ! j)"
    using assms unfolding log_ok_def by (metis nth_mem)
  then show "read_frame h f j = Some (committed h f ! j)"
    using j by (simp add: read_frame_eq_Some frame_wf_def)
qed

lemma index_ok_None: "index_ok index frs \<Longrightarrow> map_of index i = None \<Longrightarrow> logged frs i = None"
  unfolding index_ok_def by (drule conjunct2, drule spec [of _ i]) simp

lemma index_ok_Some:
  assumes "index_ok index frs" "map_of index i = Some j"
  shows "j < length frs" "logged frs i = Some (frame_data (frs ! j))"
  using assms unfolding index_ok_def by (auto dest!: spec [of _ i])

text \<open>The miss path finds exactly the page the files hold.\<close>

lemma load_page_iff:
  assumes "log_ok sz (header w) (log (disk_of p))" "wal_of p = Some w"
    and idx: "index_ok (wal_index w) (committed (header w) (log (disk_of p)))"
  shows "load_page p i = Some pg \<longleftrightarrow>
    holds_page (committed (header w) (log (disk_of p))) (db (disk_of p)) i pg"
proof (cases "map_of (wal_index w) i")
  case None
  have "logged (committed (header w) (log (disk_of p))) i = None"
    using index_ok_None [OF idx None] .
  then show ?thesis
    using assms(2) None by (simp add: load_page_def find_frame_def file_page_def holds_page_def)
next
  case (Some j)
  note j = index_ok_Some [OF idx Some]
  show ?thesis
    using assms(2) Some j(2) log_ok_nth(1) [OF assms(1) j(1)]
    by (simp add: load_page_def find_frame_def holds_page_def page_payload_def split: payload.splits)
qed

lemma apply_resizes_all:
  "pending F n g \<Longrightarrow> log (apply_devents sz g d) = log d \<and>
     db_header (db (apply_devents sz g d)) = db_header (db d) \<and>
     (\<forall>i. 0 < i \<and> i < n \<and> logged F i = None \<and> i < length (db_pages (db d)) \<longrightarrow>
        i < length (db_pages (db (apply_devents sz g d))) \<and>
        db_pages (db (apply_devents sz g d)) ! i = db_pages (db d) ! i)"
proof (induction g arbitrary: d)
  case (Cons e g)
  then obtain m where e: "e = DbResize m"
    "\<And>i. 0 < i \<Longrightarrow> i < n \<Longrightarrow> logged F i = None \<Longrightarrow> i < m"
    and g: "pending F n g"
    unfolding pending_def by (metis list.set_intros(1,2) not_le)
  show ?case using Cons.IH [OF g, of "apply_devent sz e d"] e by (simp add: resize_pages_nth)
qed simp

lemma apply_resizes:
  assumes "pending F n g"
  shows "log (apply_devents sz g d) = log d"
    "db_header (db (apply_devents sz g d)) = db_header (db d)"
    "0 < i \<Longrightarrow> i < n \<Longrightarrow> logged F i = None \<Longrightarrow> i < length (db_pages (db d)) \<Longrightarrow>
      i < length (db_pages (db (apply_devents sz g d))) \<and>
      db_pages (db (apply_devents sz g d)) ! i = db_pages (db d) ! i"
  using apply_resizes_all [OF assms, of sz d] by auto

text \<open>Growing the file does not disturb the contents.\<close>

lemma contents_resizes:
  assumes "contents frs (db b) H Pg" "pending frs (page_count H) g"
  shows "contents frs (db (apply_devents sz g b)) H Pg"
  using assms(1) apply_resizes [OF assms(2)]
  by (auto simp: contents_def holds_header_def holds_page_def split: option.splits)

section \<open>The write set\<close>

lemma map_of_filter_map:
  assumes "distinct (map fst xs)"
  shows "map_of (map (\<lambda>(i, e). (i, f e)) (filter (\<lambda>(i, e). P i e) xs)) i =
    (case map_of xs i of Some e \<Rightarrow> if P i e then Some (f e) else None | None \<Rightarrow> None)"
  using assms
proof (induction xs)
  case (Cons x xs)
  obtain j e where x: "x = (j, e)" by (cases x)
  have none: "map_of xs j = None" using Cons.prems x by (simp add: map_of_eq_None_iff)
  show ?case using Cons x none by auto
qed simp

lemma keys_filter_map:
  "set (map fst (map (\<lambda>(i, e). (i, f e)) (filter (\<lambda>(i, e). P i e) xs))) \<subseteq> {i. \<exists>e. P i e}"
  by auto

lemma distinct_filter_map:
  assumes "distinct (map fst xs)"
  shows "distinct (map fst (map (\<lambda>(i, e). (i, f e)) (filter (\<lambda>(i, e). P i e) xs)))"
  using assms
proof (induction xs)
  case (Cons x xs)
  obtain j e where x: "x = (j, e)" by (cases x)
  have "j \<notin> set (map fst (map (\<lambda>(i, e). (i, f e)) (filter (\<lambda>(i, e). P i e) xs)))"
    using Cons.prems x by force
  then show ?case using Cons x by auto
qed simp

lemma write_set_alt:
  "write_set p = map (\<lambda>(i, e). (i, PageData (data e)))
       (filter (\<lambda>(i, e). dirty e \<and> i < page_count (hdr p)) (cache p)) @
     (if header_in_write_set p then [(header_idx, HeaderData (hdr p))] else [])"
  by (simp add: write_set_def dirty_pages_def comp_def case_prod_unfold)

lemma write_set_page:
  assumes "cache_inv p" "i < page_count (hdr p)" "page_count (hdr p) \<le> header_idx"
  shows "map_of (write_set p) i =
    (if is_dirty p i then map_option PageData (cur_page p i) else None)"
  using assms
  by (auto simp: write_set_alt cache_inv_def map_of_filter_map map_add_def is_dirty_def cur_page_def
      split: option.splits)

lemma write_set_header:
  assumes "page_count (hdr p) \<le> header_idx" "cache_inv p"
  shows "map_of (write_set p) header_idx =
    (if header_in_write_set p then Some (HeaderData (hdr p)) else None)"
  using assms
  by (auto simp: write_set_alt cache_inv_def map_of_filter_map map_add_def split: option.splits)

lemma write_set_distinct:
  assumes "page_count (hdr p) \<le> header_idx" "cache_inv p"
  shows "distinct (map fst (write_set p))"
proof -
  let ?xs = "map (\<lambda>(i, e). (i, PageData (data e)))
       (filter (\<lambda>(i, e). dirty e \<and> i < page_count (hdr p)) (cache p))"
  have "distinct (map fst ?xs)" using assms by (intro distinct_filter_map) (simp add: cache_inv_def)
  moreover have "header_idx \<notin> set (map fst ?xs)" using assms(1) by auto
  ultimately show ?thesis unfolding write_set_alt by simp
qed

lemma write_set_typed:
  assumes "page_count (hdr p) \<le> header_idx" "(i, pl) \<in> set (write_set p)"
  shows "typed (psize p) i pl"
  using assms by (auto simp: write_set_alt typed_def split: if_splits)

lemma map_of_rev_distinct: "distinct (map fst xs) \<Longrightarrow> map_of (rev xs) = map_of xs"
  by (simp add: map_of_inject_set flip: rev_map)

lemma logged_mk_frames: "distinct (map fst ws) \<Longrightarrow> logged (map (mk_frame salt) ws) = map_of ws"
  by (simp add: logged_def comp_def map_of_rev_distinct)

lemma mk_frames_wf:
  assumes "\<And>i pl. (i, pl) \<in> set ws \<Longrightarrow> typed sz i pl"
  shows "\<forall>f\<in>set (map (mk_frame salt) ws). frame_wf sz salt f"
  using assms by (auto simp: frame_wf_def)

lemma holds_page_fun: "holds_page F f i a \<Longrightarrow> holds_page F f i b \<Longrightarrow> a = b"
  by (auto simp: holds_page_def split: option.splits)

text \<open>The frames of the write set, behind the committed ones, hold the new database.\<close>

definition new_pages :: "pager \<Rightarrow> nat \<Rightarrow> page" where
  "new_pages p i = the (cur_page p i)"

lemma tx_inv_log:
  assumes "tx_inv b g p w Pg"
  shows "log (disk_of p) = log b" "log_ok (psize p) (header w) (log b)"
    "contents (committed (header w) (log b)) (db b) (saved_hdr p) Pg"
    "contents (committed (header w) (log b)) (db (disk_of p)) (saved_hdr p) Pg"
proof -
  have inv: "represents b (saved_hdr p) Pg" "wf_header (log b) = Some (header w)"
    "disk_of p = apply_devents (psize p) g b"
    "pending (committed (header w) (log b)) (page_count (saved_hdr p)) g"
    "psize p = page_size (saved_hdr p)"
    using assms by (simp_all add: tx_inv_def log_inv_def header_inv_def)
  show "log (disk_of p) = log b" using inv(3) apply_resizes(1) [OF inv(4)] by simp
  show "log_ok (psize p) (header w) (log b)" using representsD(1) [OF inv(1,2)] inv(5) by simp
  show c: "contents (committed (header w) (log b)) (db b) (saved_hdr p) Pg"
    by (rule representsD(2) [OF inv(1,2)])
  show "contents (committed (header w) (log b)) (db (disk_of p)) (saved_hdr p) Pg"
    using contents_resizes [OF c inv(4)] inv(3) by simp
qed

lemma tx_load_page:
  assumes "tx_inv b g p w Pg"
  shows "load_page p i = Some pg \<longleftrightarrow>
    holds_page (committed (header w) (log b)) (db (disk_of p)) i pg"
proof -
  note inv = tx_inv_log [OF assms]
  have w: "wal_of p = Some w" "index_ok (wal_index w) (committed (header w) (log b))"
    using assms by (simp_all add: tx_inv_def log_inv_def)
  show ?thesis using load_page_iff [of "psize p" w p i pg] inv w by simp
qed

lemma write_set_contents:
  assumes tx: "tx_inv b g p w Pg"
  shows "contents (committed (header w) (log b) @ map (mk_frame salt) (write_set p))
    (db b) (hdr p) (new_pages p)"
proof -
  let ?F = "committed (header w) (log b)"
  have inv: "header_inv p" "cache_inv p" "fresh_dirty p"
    using tx by (simp_all add: tx_inv_def)
  have pc: "page_count (hdr p) \<le> header_idx" using inv(1) by (simp add: header_inv_def)
  note log = tx_inv_log [OF tx]
  have G: "logged (?F @ map (mk_frame salt) (write_set p)) i =
      (case map_of (write_set p) i of None \<Rightarrow> logged ?F i | Some pl \<Rightarrow> Some pl)" for i
    using logged_mk_frames [OF write_set_distinct [OF pc inv(2)]]
    by (simp add: logged_append map_add_def)
  have "holds_page (?F @ map (mk_frame salt) (write_set p)) (db b) i (new_pages p i)"
    if i: "0 < i" "i < page_count (hdr p)" for i
  proof -
    obtain pg where pg: "cur_page p i = Some pg" using inv(2) i by (auto simp: cache_inv_def)
    show ?thesis
    proof (cases "is_dirty p i")
      case True
      then show ?thesis
        using write_set_page [OF inv(2) i(2) pc] pg G by (simp add: holds_page_def new_pages_def)
    next
      case False
      have "load_page p i = Some pg"
        using False pg inv(2) by (auto simp: is_dirty_def cur_page_def cache_inv_def split: option.splits)
      then have "holds_page ?F (db (disk_of p)) i pg" using tx_load_page [OF tx] by simp
      moreover have "i < page_count (saved_hdr p)" using False i inv(3) unfolding fresh_dirty_def by (meson not_le)
      then have "holds_page ?F (db (disk_of p)) i (Pg i)" "holds_page ?F (db b) i (Pg i)"
        using log i(1) by (simp_all add: contents_def)
      ultimately have "holds_page ?F (db b) i pg" using holds_page_fun by blast
      then show ?thesis
        using False write_set_page [OF inv(2) i(2) pc] pg G by (simp add: holds_page_def new_pages_def)
    qed
  qed
  moreover have "holds_header (?F @ map (mk_frame salt) (write_set p)) (db b) (hdr p)"
    using write_set_header [OF pc inv(2)] G [of header_idx] inv(1) log(3)
    by (cases "header_in_write_set p") (auto simp: holds_header_def header_inv_def contents_def)
  moreover have "page_size (db_header (db b)) = psize p"
    using log(3) inv(1) by (simp add: contents_def header_inv_def)
  moreover have "page_count (hdr p) * psize p < 2 ^ 63" using inv(1) unfolding header_inv_def by blast
  moreover have "0 < psize p" using inv(1) unfolding header_inv_def by blast
  ultimately show ?thesis using pc unfolding contents_def by blast
qed

lemma index_ok_append:
  assumes "index_ok index frs"
  shows "index_ok (AList.update (frame_idx f) (length frs) index) (frs @ [f])"
proof -
  have "case map_of (AList.update (frame_idx f) (length frs) index) i of
      None \<Rightarrow> logged (frs @ [f]) i = None
    | Some j \<Rightarrow> j < length (frs @ [f]) \<and>
        logged (frs @ [f]) i = Some (frame_data ((frs @ [f]) ! j))" for i
  proof (cases "map_of index i")
    case None
    then show ?thesis using index_ok_None [OF assms None] by (simp add: update_conv')
  next
    case (Some j)
    then show ?thesis
      using index_ok_Some [OF assms Some] by (simp add: update_conv' nth_append)
  qed
  then show ?thesis using assms by (simp add: index_ok_def distinct_update)
qed

lemma index_frames_ok:
  assumes "index_ok index frs"
  shows "index_ok (index_frames (length frs) (map fst ws) index) (frs @ map (mk_frame salt) ws)"
proof (induction ws rule: rev_induct)
  case Nil
  then show ?case using assms by (simp add: index_frames_def)
next
  case (snoc x ws)
  from index_ok_append [OF snoc, of "mk_frame salt x"] show ?case
    by (simp add: index_frames_def enumerate_append_eq)
qed

section \<open>Shape of a commit\<close>

definition append_events :: "wal_header \<Rightarrow> (nat \<times> payload) list \<Rightarrow> devent list" where
  "append_events h ws =
     (if ws = [] then []
      else [LogResize (frame_count h + length ws),
            LogWriteFrames (frame_count h) (map (mk_frame (wal_salt h)) ws)])"

definition count_events :: "nat \<Rightarrow> devent list" where
  "count_events n = [LogSync, LogWriteCount n, LogSync]"

definition checkpoint_events :: "(nat \<times> payload) list \<Rightarrow> nat \<Rightarrow> devent list" where
  "checkpoint_events cws pc = map db_write cws @ [DbResize pc, DbSync, LogWriteCount 0, LogSync]"

definition logged_wal :: "pager \<Rightarrow> wal \<Rightarrow> wal" where
  "logged_wal p w = (let ws = write_set p in
     \<lparr>header = (header w)\<lparr>frame_count := frame_count (header w) + length ws\<rparr>,
      wal_index = index_frames (frame_count (header w)) (map fst ws) (wal_index w)\<rparr>)"

definition logged_pager :: "pager \<Rightarrow> wal \<Rightarrow> pager" where
  "logged_pager p w = (io (append_events (header w) (write_set p)) p)
     \<lparr>header_in_write_set := False, wal_of := Some (logged_wal p w)\<rparr>"

lemma log_writes_eq:
  assumes "log_writes p w = Some q"
  shows "q = logged_pager p w"
proof (cases "write_set p = []")
  case True
  then show ?thesis
    using assms by (simp add: log_writes_def append_frames_def logged_pager_def logged_wal_def
        append_events_def)
next
  case False
  then show ?thesis
    using assms by (simp add: log_writes_def append_frames_def logged_pager_def logged_wal_def
        append_events_def bind_eq_Some_conv Let_def split: if_splits)
qed

definition counted_pager :: "pager \<Rightarrow> wal \<Rightarrow> pager" where
  "counted_pager p w =
     (io (count_events (frame_count (header (logged_wal p w)))) (logged_pager p w))
       \<lparr>wal_transaction_count := wal_transaction_count p + 1\<rparr>"

definition checkpointed_pager :: "pager \<Rightarrow> wal \<Rightarrow> (nat \<times> payload) list \<Rightarrow> pager" where
  "checkpointed_pager p w cws =
     (io (checkpoint_events cws (page_count (hdr p))) (counted_pager p w))
       \<lparr>wal_of := Some \<lparr>header = (header w)\<lparr>frame_count := 0\<rparr>, wal_index = []\<rparr>,
        wal_transaction_count := 0\<rparr>"

lemma logged_pager_sel [simp]:
  "hdr (logged_pager p w) = hdr p" "cache (logged_pager p w) = cache p"
  "wal_of (logged_pager p w) = Some (logged_wal p w)"
  "transaction_active (logged_pager p w) = transaction_active p"
  "tx_waiters (logged_pager p w) = tx_waiters p" "opened (logged_pager p w) = opened p"
  "header_in_write_set (logged_pager p w) = False"
  "trace (logged_pager p w) = trace p @ append_events (header w) (write_set p)"
  "disk_of (logged_pager p w) =
     apply_devents (psize p) (append_events (header w) (write_set p)) (disk_of p)"
  "wal_transaction_count (logged_pager p w) = wal_transaction_count p"
  "checkpoint_interval (logged_pager p w) = checkpoint_interval p"
  by (simp_all add: logged_pager_def)

lemma commit_log_eq:
  assumes "0 < frame_count (header (logged_wal p w))"
  shows "commit_log (logged_pager p w) =
    (if wal_transaction_count p + 1 \<ge> checkpoint_interval p then checkpoint (counted_pager p w)
     else Some (counted_pager p w))"
  using assms by (simp add: commit_log_def wal_commit_def counted_pager_def count_events_def Let_def)

lemma counted_pager_sel [simp]:
  "hdr (counted_pager p w) = hdr p" "cache (counted_pager p w) = cache p"
  "wal_of (counted_pager p w) = Some (logged_wal p w)"
  "header_in_write_set (counted_pager p w) = False"
  "opened (counted_pager p w) = opened p"
  "trace (counted_pager p w) = trace p @ append_events (header w) (write_set p) @
     count_events (frame_count (header (logged_wal p w)))"
  "disk_of (counted_pager p w) =
     apply_devents (psize p) (append_events (header w) (write_set p) @
       count_events (frame_count (header (logged_wal p w)))) (disk_of p)"
  by (simp_all add: counted_pager_def)

lemma checkpointed_pager_sel [simp]:
  "hdr (checkpointed_pager p w cws) = hdr p" "opened (checkpointed_pager p w cws) = opened p"
  "header_in_write_set (checkpointed_pager p w cws) = False"
  "wal_of (checkpointed_pager p w cws) =
     Some \<lparr>header = (header w)\<lparr>frame_count := 0\<rparr>, wal_index = []\<rparr>"
  "trace (checkpointed_pager p w cws) = trace p @ append_events (header w) (write_set p) @
     count_events (frame_count (header (logged_wal p w))) @ checkpoint_events cws (page_count (hdr p))"
  "disk_of (checkpointed_pager p w cws) =
     apply_devents (psize p) (append_events (header w) (write_set p) @
       count_events (frame_count (header (logged_wal p w))) @
       checkpoint_events cws (page_count (hdr p))) (disk_of p)"
  by (simp_all add: checkpointed_pager_def)

lemma checkpoint_eq:
  assumes "checkpoint (counted_pager p w) = Some q" "wal_page_size (header w) = psize p" "0 < psize p"
  obtains cws where "q = checkpointed_pager p w cws"
    "map_opt (checkpoint_write (counted_pager p w) (logged_wal p w)) (wal_index (logged_wal p w)) =
       Some cws"
proof -
  obtain cws where cws: "map_opt (checkpoint_write (counted_pager p w) (logged_wal p w))
      (wal_index (logged_wal p w)) = Some cws"
    using assms by (auto simp: checkpoint_def bind_eq_Some_conv split: if_splits)
  have "wal_reset (header (logged_wal p w)) =
      ((header w)\<lparr>frame_count := 0\<rparr>, [LogWriteCount 0, LogSync])"
    by (simp add: wal_reset_def logged_wal_def Let_def)
  then have "q = checkpointed_pager p w cws"
    using assms cws
    by (auto simp: checkpoint_def bind_eq_Some_conv checkpointed_pager_def Let_def logged_wal_def
        checkpoint_events_def split: if_splits)
  then show thesis using cws that by blast
qed

text \<open>The three ways a commit with a log can end.\<close>

lemma commit_shape:
  assumes "commit_transaction p = Some (q, r)" "wal_of p = Some w" "0 < psize p"
  obtains (unchanged) "frame_count (header w) = 0" "write_set p = []"
      "(q, r) = finish_transaction ((logged_pager p w)\<lparr>cache := []\<rparr>)"
    | (counted) "(q, r) = finish_transaction ((counted_pager p w)\<lparr>cache := []\<rparr>)"
    | (checkpointed) cws where
      "(q, r) = finish_transaction ((checkpointed_pager p w cws)\<lparr>cache := []\<rparr>)"
      "map_opt (checkpoint_write (counted_pager p w) (logged_wal p w)) (wal_index (logged_wal p w)) =
         Some cws"
proof -
  let ?q = "logged_pager p w"
  have ps: "wal_page_size (header w) = psize p"
    using assms(1,2) by (auto simp: commit_transaction_def split: if_splits)
  obtain s where s: "commit_log ?q = Some s" "(q, r) = finish_transaction (s\<lparr>cache := []\<rparr>)"
    using assms by (auto simp: commit_transaction_def bind_eq_Some_conv dest!: log_writes_eq split: if_splits)
  show thesis
  proof (cases "0 < frame_count (header (logged_wal p w))")
    case False
    then show thesis using s unchanged by (simp add: commit_log_def logged_wal_def Let_def)
  next
    case True
    then have "s = counted_pager p w \<or> checkpoint (counted_pager p w) = Some s"
      using s(1) commit_log_eq [OF True] by (simp split: if_splits)
    then show thesis using s(2) counted checkpointed checkpoint_eq [OF _ ps assms(3)] by metis
  qed
qed

lemma finish_transaction_sel [simp]:
  "trace (fst (finish_transaction p)) = trace p"
  "disk_of (fst (finish_transaction p)) = disk_of p"
  "hdr (fst (finish_transaction p)) = hdr p"
  "wal_of (fst (finish_transaction p)) = wal_of p"
  "cache (fst (finish_transaction p)) = cache p"
  "opened (fst (finish_transaction p)) = opened p"
  "header_in_write_set (fst (finish_transaction p)) = header_in_write_set p"
  by (auto simp: finish_transaction_def take_transaction_def Let_def split: list.splits)

end
