(* ===== verification/Atomicity.thy ===== *)
theory Atomicity
  imports Commit "HOL-Library.Sublist"
begin

text \<open>
  Commits are atomic and durable. The transfers of a commit are followed from one sync to
  the next, and for each stretch the files a crash can leave are shown to represent the old
  or the new database.
\<close>

section \<open>Synced and unsynced transfers\<close>

lemma upto_sync_none: "s \<notin> set es \<Longrightarrow> upto_sync s es = []"
  by (induction es) auto

lemma after_sync_none: "s \<notin> set es \<Longrightarrow> after_sync s es = es"
  by (cases es) auto

lemma upto_sync_last: "s \<notin> set bs \<Longrightarrow> upto_sync s (as @ s # bs) = as @ [s]"
  by (induction as) (auto simp: upto_sync_none)

lemma after_sync_last: "s \<notin> set bs \<Longrightarrow> after_sync s (as @ s # bs) = bs"
  by (induction as) auto

section \<open>What a crash leaves of the contents\<close>

text \<open>Transfers that touch no page of the database a frame does not hold.\<close>

definition harmless :: "frame list \<Rightarrow> pager_header \<Rightarrow> devent list \<Rightarrow> bool" where
  "harmless F H es \<longleftrightarrow>
     (\<forall>e\<in>set es. (\<forall>i. touches_page e i \<and> 0 < i \<and> i < page_count H \<longrightarrow> logged F i \<noteq> None) \<and>
        (\<forall>h. e = DbWriteHeader h \<longrightarrow> page_size h = page_size H \<and> logged F header_idx \<noteq> None))"

lemma harmless_simps [simp]:
  "harmless F H []"
  "harmless F H (xs @ ys) \<longleftrightarrow> harmless F H xs \<and> harmless F H ys"
  "harmless F H (DbSync # es) \<longleftrightarrow> harmless F H es"
  "harmless F H (LogSync # es) \<longleftrightarrow> harmless F H es"
  "harmless F H (LogResize n # es) \<longleftrightarrow> harmless F H es"
  "harmless F H (LogWriteFrames n fs # es) \<longleftrightarrow> harmless F H es"
  "harmless F H (LogWriteCount n # es) \<longleftrightarrow> harmless F H es"
  by (auto simp: harmless_def)

lemma contents_crash:
  assumes "contents F f H Pg" "crash_db f es f'" "harmless F H es"
  shows "contents F f' H Pg"
proof -
  have hdr: "db_header f' = db_header f \<or> page_size (db_header f') = page_size H \<and>
      logged F header_idx \<noteq> None"
    using assms(2,3) by (auto simp: crash_db_def harmless_def)
  have "holds_header F f' H"
    using hdr assms(1) by (auto simp: contents_def holds_header_def split: option.splits)
  moreover have "page_size (db_header f') = page_size H"
    using hdr assms(1) by (auto simp: contents_def)
  moreover have "holds_page F f' i (Pg i)" if i: "0 < i" "i < page_count H" for i
  proof (cases "logged F i")
    case None
    then have "\<forall>e\<in>set es. \<not> touches_page e i" using assms(3) i unfolding harmless_def by metis
    then show ?thesis
      using assms(1,2) None i by (auto simp: contents_def holds_page_def crash_db_def)
  next
    case (Some pl)
    then show ?thesis using assms(1) i by (auto simp: contents_def holds_page_def)
  qed
  ultimately show ?thesis using assms(1) by (simp add: contents_def)
qed

lemma pending_harmless: "pending F (page_count H) g \<Longrightarrow> harmless F H g"
  by (fastforce simp: pending_def harmless_def)

lemma contents_over:
  "contents F f H Pg \<Longrightarrow> contents [] f' H Pg \<Longrightarrow> contents F f' H Pg"
  by (auto simp: contents_def holds_header_def holds_page_def split: option.splits)

section \<open>What a crash leaves of the log\<close>

definition quiet_log :: "nat \<Rightarrow> devent list \<Rightarrow> bool" where
  "quiet_log n es \<longleftrightarrow> (\<forall>e\<in>set es. (\<forall>i. touches_frame e i \<longrightarrow> n \<le> i) \<and> (\<forall>h. e \<noteq> LogCreate h))"

lemma crash_log_frames:
  assumes "crash_log f es f'" "quiet_log n es" "n \<le> length (wf_frames f)"
  shows "take n (wf_frames f') = take n (wf_frames f)" "n \<le> length (wf_frames f')"
proof -
  have same: "i < length (wf_frames f') \<and> wf_frames f' ! i = wf_frames f ! i" if "i < n" for i
    using assms that unfolding crash_log_def quiet_log_def by (meson leD less_le_trans)
  show len: "n \<le> length (wf_frames f')"
    using same by (metis not_le order_less_irrefl)
  show "take n (wf_frames f') = take n (wf_frames f)"
    using same len assms(3) by (intro nth_equalityI) auto
qed

lemma crash_log_header:
  assumes "crash_log f es f'" "quiet_log n es" "wf_header f = Some h"
  obtains "wf_header f' = Some h"
  | k where "LogWriteCount k \<in> set es" "wf_header f' = Some (h\<lparr>frame_count := k\<rparr>)"
  using assms by (auto simp: crash_log_def quiet_log_def)

text \<open>After a crash, \<open>h\<close> on the device with at most the \<open>n\<close> synced frames.\<close>

lemma crashed_log:
  assumes "crash_log f es f'" "quiet_log n es" "n \<le> length (wf_frames f)"
    and wf: "\<forall>fr\<in>set (take n (wf_frames f)). frame_wf sz (wal_salt h) fr"
    and h: "wf_header f' = Some h" "wal_magic h = WAL_MAGIC" "wal_page_size h = sz"
      "frame_count h \<le> n"
  shows "log_ok sz h f'" "committed h f' = take (frame_count h) (wf_frames f)"
proof -
  note fr = crash_log_frames [OF assms(1-3)]
  have k: "take (frame_count h) xs = take (frame_count h) (take n xs)" for xs :: "frame list"
    using h(4) by (simp add: min_def)
  show c: "committed h f' = take (frame_count h) (wf_frames f)"
    unfolding committed_def using k [of "wf_frames f'"] k [of "wf_frames f"] fr(1) by simp
  have "set (take (frame_count h) (wf_frames f)) \<subseteq> set (take n (wf_frames f))"
    by (rule set_take_subset_set_take [OF h(4)])
  then show "log_ok sz h f'" using wf h fr(2) c by (auto simp: log_ok_def)
qed

lemma represents_intro:
  assumes "wf_header (log d) = Some h" "log_ok (page_size H) h (log d)"
    "contents (committed h (log d)) (db d) H Pg"
  shows "represents d H Pg"
  using assms by (simp add: represents_def)

section \<open>The stages of a commit\<close>

lemma append_quiet: "quiet_log (frame_count h) (append_events h ws)"
  by (auto simp: quiet_log_def append_events_def)

lemma quiet_log_simps [simp]:
  "quiet_log n []"
  "quiet_log n (xs @ ys) \<longleftrightarrow> quiet_log n xs \<and> quiet_log n ys"
  "quiet_log n (LogSync # es) \<longleftrightarrow> quiet_log n es"
  "quiet_log n (LogWriteCount k # es) \<longleftrightarrow> quiet_log n es"
  "quiet_log n (DbSync # es) \<longleftrightarrow> quiet_log n es"
  "quiet_log n (DbResize k # es) \<longleftrightarrow> quiet_log n es"
  by (auto simp: quiet_log_def)

lemma quiet_log_mono: "quiet_log n ys \<Longrightarrow> set xs \<subseteq> set ys \<Longrightarrow> quiet_log n xs"
  by (auto simp: quiet_log_def)

lemma harmless_mono: "harmless F H ys \<Longrightarrow> set xs \<subseteq> set ys \<Longrightarrow> harmless F H xs"
  unfolding harmless_def by blast

lemma pending_quiet: "pending F m g \<Longrightarrow> quiet_log n g"
  by (fastforce simp: quiet_log_def pending_def)

lemma pending_no_sync: "pending F m g \<Longrightarrow> DbSync \<notin> set g \<and> LogSync \<notin> set g"
  by (auto simp: pending_def)

lemma append_no_sync [simp]:
  "DbSync \<notin> set (append_events h ws)" "LogSync \<notin> set (append_events h ws)"
  "LogWriteCount n \<notin> set (append_events h ws)" "harmless F H (append_events h ws)"
  by (auto simp: append_events_def)

text \<open>The log after the frames are appended.\<close>

lemma appended_log:
  assumes "log_ok sz h f" "wf_header f = Some h"
    and d: "log d = f"
  shows "wf_header (log (apply_devents sz' (append_events h ws) d)) = Some h"
    "db (apply_devents sz' (append_events h ws) d) = db d"
    "frame_count h + length ws \<le> length (wf_frames (log (apply_devents sz' (append_events h ws) d)))"
    "take (frame_count h + length ws)
       (wf_frames (log (apply_devents sz' (append_events h ws) d))) =
     committed h f @ map (mk_frame (wal_salt h)) ws"
  using assms by (auto simp: append_events_def log_ok_def write_frames_def committed_def min_def)

lemma apply_pending_log [simp]:
  "pending F m g \<Longrightarrow> log (apply_devents sz g d) = log d"
  by (rule apply_resizes(1))

lemma crash_before_sync:
  assumes "crash sz b es d'" "DbSync \<notin> set es" "LogSync \<notin> set es"
  shows "crash_db (db b) es (db d')" "crash_log (log b) es (log d')"
  using assms by (simp_all add: crash_def upto_sync_none after_sync_none)

lemma crash_log_synced:
  assumes "crash sz b (as @ LogSync # es) d'" "LogSync \<notin> set es"
  shows "crash_log (log (apply_devents sz as b)) es (log d')"
  using assms by (simp add: crash_def upto_sync_last after_sync_last)

lemma crash_db_synced:
  assumes "crash sz b (as @ DbSync # es) d'" "DbSync \<notin> set es"
  shows "crash_db (db (apply_devents sz as b)) es (db d')"
  using assms by (simp add: crash_def upto_sync_last after_sync_last)

lemma crash_db_unsynced:
  assumes "crash sz b es d'" "DbSync \<notin> set es"
  shows "crash_db (db b) es (db d')"
  using assms by (simp add: crash_def upto_sync_none after_sync_none)

lemma mk_frame_wf_all:
  assumes "log_ok sz h f" "\<And>i pl. (i, pl) \<in> set ws \<Longrightarrow> typed sz i pl"
  shows "\<forall>fr\<in>set (committed h f @ map (mk_frame (wal_salt h)) ws). frame_wf sz (wal_salt h) fr"
  using assms mk_frames_wf [of ws sz "wal_salt h"] by (auto simp: log_ok_def)

text \<open>Before the first sync of the log the old database is what a crash leaves.\<close>

lemma stage_append:
  assumes tx: "tx_inv b g p w Pg" and c: "crash (psize p) b (g @ es) d'"
    and es: "prefix es (append_events (header w) ws)"
  shows "represents d' (saved_hdr p) Pg"
proof -
  let ?h = "header w"
  have g: "pending (committed ?h (log b)) (page_count (saved_hdr p)) g"
    and wf: "wf_header (log b) = Some ?h" and sz: "psize p = page_size (saved_hdr p)"
    using tx by (simp_all add: tx_inv_def log_inv_def header_inv_def)
  note log = tx_inv_log [OF tx]
  have sub: "set es \<subseteq> set (append_events ?h ws)" using es by (rule set_mono_prefix)
  then have no: "DbSync \<notin> set (g @ es)" "LogSync \<notin> set (g @ es)"
      "\<And>k. LogWriteCount k \<notin> set (g @ es)"
    using pending_no_sync [OF g] g by (auto simp: pending_def append_events_def split: if_splits)
  note cr = crash_before_sync [OF c no(1,2)]
  have q: "quiet_log (frame_count ?h) (g @ es)"
    using pending_quiet [OF g] quiet_log_mono [OF append_quiet sub] by simp
  have h': "wf_header (log d') = Some ?h"
    using crash_log_header [OF cr(2) q wf] no(3) by metis
  have "frame_count ?h \<le> length (wf_frames (log b))"
    "\<forall>fr\<in>set (take (frame_count ?h) (wf_frames (log b))). frame_wf (page_size (saved_hdr p)) (wal_salt ?h) fr"
    "wal_magic ?h = WAL_MAGIC" "wal_page_size ?h = page_size (saved_hdr p)"
    using log(2) sz by (simp_all add: log_ok_def committed_def)
  note cl = crashed_log [OF cr(2) q this(1,2) h' this(3,4) order_refl]
  have "harmless (committed ?h (log b)) (saved_hdr p) (g @ es)"
    using pending_harmless [OF g] harmless_mono [OF append_no_sync(4) sub] by simp
  then have "contents (committed ?h (log b)) (db d') (saved_hdr p) Pg"
    by (rule contents_crash [OF log(3) cr(1)])
  then show ?thesis using represents_intro [OF h' cl(1)] cl(2) by (simp add: committed_def)
qed

text \<open>From then on the log holds the frames of both databases.\<close>

abbreviation new_frames :: "pager \<Rightarrow> wal \<Rightarrow> disk \<Rightarrow> frame list" where
  "new_frames p w b \<equiv>
     committed (header w) (log b) @ map (mk_frame (wal_salt (header w))) (write_set p)"

abbreviation new_count :: "pager \<Rightarrow> wal \<Rightarrow> nat" where
  "new_count p w \<equiv> frame_count (header w) + length (write_set p)"

lemma tx_count: "tx_inv b g p w Pg \<Longrightarrow> length (committed (header w) (log b)) = frame_count (header w)"
  using tx_inv_log(2) [of b g p w Pg] by (simp add: log_ok_def committed_def)

lemma new_harmless:
  assumes tx: "tx_inv b g p w Pg"
  shows "harmless (new_frames p w b) (hdr p) g"
  unfolding harmless_def
proof (intro ballI conjI allI impI)
  fix e i
  assume e: "e \<in> set g" and i: "touches_page e i \<and> 0 < i \<and> i < page_count (hdr p)"
  have g: "pending (committed (header w) (log b)) (page_count (saved_hdr p)) g"
    and inv: "header_inv p" "cache_inv p" "fresh_dirty p"
    using tx by (simp_all add: tx_inv_def)
  have pc: "page_count (hdr p) \<le> header_idx" using inv(1) by (simp add: header_inv_def)
  have G: "logged (new_frames p w b) i =
      (case map_of (write_set p) i of None \<Rightarrow> logged (committed (header w) (log b)) i | Some pl \<Rightarrow> Some pl)"
    using logged_mk_frames [OF write_set_distinct [OF pc inv(2)]]
    by (simp add: logged_append map_add_def)
  show "logged (new_frames p w b) i \<noteq> None"
  proof (cases "i < page_count (saved_hdr p)")
    case True
    then have "logged (committed (header w) (log b)) i \<noteq> None"
      using pending_harmless [OF g] e i by (auto simp: harmless_def)
    then show ?thesis using G by (simp split: option.splits)
  next
    case False
    then have "is_dirty p i" using inv(3) i by (simp add: fresh_dirty_def)
    moreover have "cur_page p i \<noteq> None" using inv(2) i by (auto simp: cache_inv_def)
    ultimately show ?thesis using G write_set_page [OF inv(2) _ pc, of i] i by auto
  qed
next
  fix e h assume "e \<in> set g" "e = DbWriteHeader h"
  then show "page_size h = psize p" "logged (new_frames p w b) header_idx \<noteq> None"
    using tx by (auto simp: tx_inv_def pending_def)
qed

lemma new_log:
  assumes tx: "tx_inv b g p w Pg"
    and cr: "crash_log f es f'" "quiet_log (new_count p w) es"
    and f: "new_count p w \<le> length (wf_frames f)" "take (new_count p w) (wf_frames f) = new_frames p w b"
    and h': "wf_header f' = Some ((header w)\<lparr>frame_count := k\<rparr>)" "k \<le> new_count p w"
  shows "log_ok (psize p) ((header w)\<lparr>frame_count := k\<rparr>) f'"
    "committed ((header w)\<lparr>frame_count := k\<rparr>) f' = take k (new_frames p w b)"
proof -
  let ?h = "(header w)\<lparr>frame_count := k\<rparr>"
  have pc: "page_count (hdr p) \<le> header_idx" using tx by (simp add: tx_inv_def header_inv_def)
  have "\<forall>fr\<in>set (take (new_count p w) (wf_frames f)). frame_wf (psize p) (wal_salt ?h) fr"
    using mk_frame_wf_all [OF tx_inv_log(2) [OF tx] write_set_typed [OF pc]] f(2) by simp
  note cl = crashed_log [OF cr f(1) this h'(1)]
  have "wal_magic ?h = WAL_MAGIC" "wal_page_size ?h = psize p"
    using tx_inv_log(2) [OF tx] by (simp_all add: log_ok_def)
  then show "log_ok (psize p) ?h f'" using cl(1) h'(2) by simp
  have "take k (wf_frames f) = take k (take (new_count p w) (wf_frames f))"
    using h'(2) by (simp add: min.absorb1)
  then show "committed ?h f' = take k (new_frames p w b)"
    using cl(2) \<open>wal_magic ?h = WAL_MAGIC\<close> \<open>wal_page_size ?h = psize p\<close> h'(2) unfolding f(2) by simp
qed

lemma new_represents:
  assumes tx: "tx_inv b g p w Pg"
    and cr: "crash_log f es (log d')" "quiet_log (new_count p w) es"
    and f: "new_count p w \<le> length (wf_frames f)" "take (new_count p w) (wf_frames f) = new_frames p w b"
    and h': "wf_header (log d') = Some ((header w)\<lparr>frame_count := new_count p w\<rparr>)"
    and db: "contents (new_frames p w b) (db d') (hdr p) (new_pages p)"
  shows "represents d' (hdr p) (new_pages p)"
proof -
  note nl = new_log [OF tx cr f h' order_refl]
  have "length (new_frames p w b) = new_count p w" using tx_count [OF tx] by simp
  then show ?thesis using represents_intro [OF h' nl(1)] nl(2) db by simp
qed

lemma tx_basic:
  assumes "tx_inv b g p w Pg"
  shows "wf_header (log b) = Some (header w)"
    "pending (committed (header w) (log b)) (page_count (saved_hdr p)) g"
    "psize p = page_size (saved_hdr p)"
    "DbSync \<notin> set g" "LogSync \<notin> set g"
    "disk_of p = apply_devents (psize p) g b"
  using assms pending_no_sync
  by (auto simp: tx_inv_def log_inv_def header_inv_def)

text \<open>The log once the frames of the write set are in it.\<close>

lemma tx_appended_log:
  assumes "tx_inv b g p w Pg"
  defines "L \<equiv> log (apply_devents (psize p) (append_events (header w) (write_set p))
      (apply_devents (psize p) g b))"
  shows "wf_header L = Some (header w)" "new_count p w \<le> length (wf_frames L)"
    "take (new_count p w) (wf_frames L) = new_frames p w b"
  unfolding L_def
  using appended_log [OF tx_inv_log(2) [OF assms(1)] tx_basic(1) [OF assms(1)]]
    apply_pending_log [OF tx_basic(2) [OF assms(1)]] by simp_all

lemma stage_count:
  assumes tx: "tx_inv b g p w Pg"
    and c: "crash (psize p) b (g @ append_events (header w) (write_set p) @ LogSync # es) d'"
    and es: "es = [] \<or> es = [LogWriteCount (new_count p w)]"
  shows "represents d' (saved_hdr p) Pg \<or> represents d' (hdr p) (new_pages p)"
proof -
  let ?A = "append_events (header w) (write_set p)"
  let ?h = "header w"
  note bas = tx_basic [OF tx] and L = tx_appended_log [OF tx] and log = tx_inv_log [OF tx]
  have no: "LogSync \<notin> set es" "DbSync \<notin> set (g @ ?A @ LogSync # es)" "quiet_log k es" for k
    using bas(4) es by auto
  have cl: "crash_log (log (apply_devents (psize p) (g @ ?A) b)) es (log d')"
    using c no(1) crash_log_synced [of "psize p" b "g @ ?A" es d'] by simp
  note cd = crash_db_unsynced [OF c no(2)]
  note cl' = cl [unfolded apply_devents_simps]
  have h2: "k = new_count p w" if "LogWriteCount k \<in> set es" for k using that es by auto
  show ?thesis
  proof (cases rule: crash_log_header [OF cl' no(3) L(1), case_names 1 2])
    case 1
    then have h': "wf_header (log d') = Some (?h\<lparr>frame_count := frame_count ?h\<rparr>)" by simp
    have "harmless (committed ?h (log b)) (saved_hdr p) (g @ ?A @ LogSync # es)"
      using pending_harmless [OF bas(2)] es by auto
    then have "contents (committed ?h (log b)) (db d') (saved_hdr p) Pg"
      by (rule contents_crash [OF log(3) cd])
    then show ?thesis
      using represents_intro [OF 1] new_log [OF tx cl' no(3) L(2,3) h'] bas(3) tx_count [OF tx]
      by simp
  next
    case (2 k)
    then have h': "wf_header (log d') = Some (?h\<lparr>frame_count := new_count p w\<rparr>)"
      using h2 by simp
    have "harmless (new_frames p w b) (hdr p) (g @ ?A @ LogSync # es)"
      using new_harmless [OF tx] es by auto
    then have "contents (new_frames p w b) (db d') (hdr p) (new_pages p)"
      by (rule contents_crash [OF write_set_contents [OF tx] cd])
    then show ?thesis using new_represents [OF tx cl' no(3) L(2,3) h'] by simp
  qed
qed

lemma apply_count_events:
  "db (apply_devents sz (count_events n) d) = db d"
  "log (apply_devents sz (count_events n) d) =
     (log d)\<lparr>wf_header := map_option (\<lambda>h. h\<lparr>frame_count := n\<rparr>) (wf_header (log d))\<rparr>"
  by (simp_all add: count_events_def)

abbreviation logged_events :: "pager \<Rightarrow> wal \<Rightarrow> devent list" where
  "logged_events p w \<equiv> append_events (header w) (write_set p) @ count_events (new_count p w)"

lemma tx_counted_log:
  assumes tx: "tx_inv b g p w Pg"
  defines "L \<equiv> log (apply_devents (psize p) (g @ append_events (header w) (write_set p) @
      [LogSync, LogWriteCount (new_count p w)]) b)"
  shows "wf_header L = Some ((header w)\<lparr>frame_count := new_count p w\<rparr>)"
    "new_count p w \<le> length (wf_frames L)"
    "take (new_count p w) (wf_frames L) = new_frames p w b"
  using tx_appended_log [OF tx] unfolding L_def by simp_all

text \<open>Once the count is synced, the new database is what a crash leaves.\<close>

lemma stage_counted:
  assumes tx: "tx_inv b g p w Pg"
    and c: "crash (psize p) b (g @ logged_events p w @ es) d'"
    and es: "LogSync \<notin> set es" "DbSync \<notin> set es" "\<And>k. LogWriteCount k \<notin> set es"
      "quiet_log (new_count p w) es" "harmless (new_frames p w b) (hdr p) es"
  shows "represents d' (hdr p) (new_pages p)"
proof -
  let ?A = "append_events (header w) (write_set p)"
  let ?B = "g @ ?A @ [LogSync, LogWriteCount (new_count p w)]"
  note L = tx_counted_log [OF tx]
  have cl: "crash_log (log (apply_devents (psize p) ?B b)) es (log d')"
    using crash_log_synced [of "psize p" b ?B es d'] c es(1) by (simp add: count_events_def)
  have h': "wf_header (log d') = Some ((header w)\<lparr>frame_count := new_count p w\<rparr>)"
    using crash_log_header [OF cl es(4) L(1)] es(3) by metis
  have "DbSync \<notin> set (g @ logged_events p w @ es)"
    using tx_basic(4) [OF tx] es(2) by (simp add: count_events_def)
  note cd = crash_db_unsynced [OF c this]
  have "harmless (new_frames p w b) (hdr p) (g @ logged_events p w @ es)"
    using new_harmless [OF tx] es(5) by (simp add: count_events_def)
  note contents_crash [OF write_set_contents [OF tx] cd this]
  then show ?thesis using new_represents [OF tx cl es(4) L(2,3) h'] by simp
qed

section \<open>The checkpoint\<close>

lemma map_opt_keys:
  assumes "map_opt f xs = Some ys" "\<And>x y. f x = Some y \<Longrightarrow> fst y = fst x"
  shows "map fst ys = map fst xs"
    "map_of ys i = (case map_of xs i of None \<Rightarrow> None | Some j \<Rightarrow> map_option snd (f (i, j)))"
  using assms(1)
proof (induction xs arbitrary: ys)
  case (Cons x xs)
  { case 1
    then obtain y zs where y: "f x = Some y" "map_opt f xs = Some zs" "ys = y # zs"
      by (auto simp: bind_eq_Some_conv)
    then show ?case using Cons.IH(1) assms(2) [OF y(1)] by simp }
  { case 2
    then obtain y zs where y: "f x = Some y" "map_opt f xs = Some zs" "ys = y # zs"
      by (auto simp: bind_eq_Some_conv)
    then show ?case using Cons.IH(2) assms(2) [OF y(1)] by (cases x; cases y) auto }
qed auto

lemma checkpoint_write_key: "checkpoint_write p w x = Some y \<Longrightarrow> fst y = fst x"
  by (cases x) (auto simp: checkpoint_write_def bind_eq_Some_conv split: if_splits option.splits)

lemma checkpoint_write_header [simp]:
  "checkpoint_write p w (header_idx, j) = Some (header_idx, HeaderData (hdr p))"
  by (simp add: checkpoint_write_def)

abbreviation checkpoint_writes :: "pager \<Rightarrow> wal \<Rightarrow> (nat \<times> payload) list option" where
  "checkpoint_writes p w \<equiv>
     map_opt (checkpoint_write (counted_pager p w) (logged_wal p w)) (wal_index (logged_wal p w))"

lemma logged_index_ok:
  assumes tx: "tx_inv b g p w Pg"
  shows "index_ok (wal_index (logged_wal p w)) (new_frames p w b)"
proof -
  have "index_ok (wal_index w) (committed (header w) (log b))"
    using tx by (simp add: tx_inv_def log_inv_def)
  from index_frames_ok [OF this] show ?thesis
    using tx_count [OF tx] by (simp add: logged_wal_def Let_def)
qed

lemma logged_header: "header (logged_wal p w) = (header w)\<lparr>frame_count := new_count p w\<rparr>"
  by (simp add: logged_wal_def Let_def)

lemma counted_log:
  assumes tx: "tx_inv b g p w Pg"
  shows "log_ok (psize p) (header (logged_wal p w)) (log (disk_of (counted_pager p w)))"
    "committed (header (logged_wal p w)) (log (disk_of (counted_pager p w))) = new_frames p w b"
proof -
  note L = tx_appended_log [OF tx] and bas = tx_basic [OF tx]
  have pc: "page_count (hdr p) \<le> header_idx" using tx by (simp add: tx_inv_def header_inv_def)
  let ?L = "log (disk_of (counted_pager p w))"
  have f: "wf_header ?L = Some (header (logged_wal p w))"
    "wf_frames ?L = wf_frames (log (apply_devents (psize p) (append_events (header w) (write_set p))
      (apply_devents (psize p) g b)))"
    using L(1) bas(6) by (simp_all add: apply_count_events logged_header)
  show c: "committed (header (logged_wal p w)) ?L = new_frames p w b"
    using L(3) f(2) by (simp add: committed_def logged_header)
  have "\<forall>fr\<in>set (new_frames p w b). frame_wf (psize p) (wal_salt (header w)) fr"
    using mk_frame_wf_all [OF tx_inv_log(2) [OF tx] write_set_typed [OF pc]] by blast
  then show "log_ok (psize p) (header (logged_wal p w)) ?L"
    unfolding log_ok_def c using f L(2) tx_inv_log(2) [OF tx] by (simp add: log_ok_def logged_header)
qed

text \<open>What a checkpoint writes at an index is what the transaction saw there.\<close>

lemma checkpoint_write_page:
  assumes tx: "tx_inv b g p w Pg" and cws: "checkpoint_writes p w = Some cws"
    and i: "0 < i" "i < page_count (hdr p)"
  shows "map_of cws i =
    (if logged (new_frames p w b) i = None then None else Some (PageData (new_pages p i)))"
proof -
  let ?I = "wal_index (logged_wal p w)"
  note keys = map_opt_keys(2) [OF cws checkpoint_write_key]
  note idx = logged_index_ok [OF tx]
  show ?thesis
  proof (cases "map_of ?I i")
    case None
    then show ?thesis using index_ok_None [OF idx None] keys [where i = i] by simp
  next
    case (Some j)
    note j = index_ok_Some [OF idx Some]
    have "holds_page (new_frames p w b) (db b) i (new_pages p i)"
      using write_set_contents [OF tx] i by (simp add: contents_def)
    then have pl: "frame_data (new_frames p w b ! j) = PageData (new_pages p i)"
      using j(2) by (simp add: holds_page_def)
    have "page_count (hdr p) \<le> header_idx" using tx by (simp add: tx_inv_def header_inv_def)
    then have ne: "i \<noteq> header_idx" using i by simp
    have rd: "read_frame (header (logged_wal p w)) (log (disk_of (counted_pager p w))) j =
        Some (new_frames p w b ! j)"
      using log_ok_nth(1) [OF counted_log(1) [OF tx]] counted_log(2) [OF tx] j(1) by simp
    have "map_option snd (checkpoint_write (counted_pager p w) (logged_wal p w) (i, j)) =
        Some (PageData (new_pages p i))"
    proof (cases "map_of (cache p) i")
      case None
      then show ?thesis using ne rd pl by (simp add: checkpoint_write_def page_payload_def)
    next
      case (Some c)
      then show ?thesis using ne by (simp add: checkpoint_write_def new_pages_def cur_page_def)
    qed
    then show ?thesis using Some j(2) keys [where i = i] by simp
  qed
qed

lemma checkpoint_write_typed:
  assumes "checkpoint_write p w x = Some (i, pl)"
  shows "typed (psize p) i pl"
  using assms
  by (cases x) (auto simp: checkpoint_write_def typed_def bind_eq_Some_conv split: if_splits option.splits)

lemma checkpoint_contents:
  assumes tx: "tx_inv b g p w Pg" and cws: "checkpoint_writes p w = Some cws"
    and base: "contents (new_frames p w b) f (hdr p) (new_pages p)"
  shows "contents (map (mk_frame 0) cws) f (hdr p) (new_pages p)"
    "\<forall>fr\<in>set (map (mk_frame 0) cws). frame_wf (psize p) 0 fr"
proof -
  let ?I = "wal_index (logged_wal p w)"
  note keys = map_opt_keys [OF cws checkpoint_write_key]
  note idx = logged_index_ok [OF tx]
  have lg: "logged (map (mk_frame 0) cws) = map_of cws"
    using keys(1) idx by (intro logged_mk_frames) (simp add: index_ok_def)
  have "holds_page (map (mk_frame 0) cws) f i (new_pages p i)"
    if "0 < i" "i < page_count (hdr p)" for i
    using checkpoint_write_page [OF tx cws that] base that
    by (auto simp: holds_page_def lg contents_def split: option.splits)
  moreover have "holds_header (map (mk_frame 0) cws) f (hdr p)"
  proof (cases "map_of ?I header_idx")
    case None
    then show ?thesis
      using index_ok_None [OF idx None] keys(2) [where i = header_idx] base
      by (simp add: holds_header_def lg contents_def)
  next
    case (Some j)
    then show ?thesis using keys(2) [where i = header_idx] by (simp add: holds_header_def lg)
  qed
  ultimately show "contents (map (mk_frame 0) cws) f (hdr p) (new_pages p)"
    using base by (simp add: contents_def)
  show "\<forall>fr\<in>set (map (mk_frame 0) cws). frame_wf (psize p) 0 fr"
  proof (rule mk_frames_wf)
    fix i pl assume "(i, pl) \<in> set cws"
    then obtain x where "checkpoint_write (counted_pager p w) (logged_wal p w) x = Some (i, pl)"
      using map_opt_in [OF cws] by blast
    from checkpoint_write_typed [OF this] show "typed (psize p) i pl" by simp
  qed
qed

lemma redo_db_write: "map redo_event (map (mk_frame 0) ws) = map db_write ws"
  by (simp add: redo_event_def)

lemma new_pending:
  assumes tx: "tx_inv b g p w Pg"
  shows "pending (new_frames p w b) (page_count (hdr p)) g"
  using new_harmless [OF tx] tx_basic(2) [OF tx] unfolding pending_def harmless_def
  by (metis touches_page.simps(2))

lemma checkpoint_db:
  assumes tx: "tx_inv b g p w Pg" and cws: "checkpoint_writes p w = Some cws"
    and d: "db d = db (disk_of p)"
  shows "contents [] (db (apply_devents sz (map db_write cws @ [DbResize (page_count (hdr p))]) d))
    (hdr p) (new_pages p)"
proof -
  have "contents (new_frames p w b) (db d) (hdr p) (new_pages p)"
    using contents_resizes [OF write_set_contents [OF tx] new_pending [OF tx]] tx_basic(6) [OF tx] d
    by simp
  note cp = checkpoint_contents [OF tx cws this]
  note redo = redo_contents [OF cp(2,1), where sz = sz, unfolded redo_db_write]
  from apply_db_events_resize [OF redo, where sz = sz] show ?thesis by simp
qed

text \<open>While the checkpoint writes the database file, the log still covers every slot it touches.\<close>

lemma db_write_harmless:
  assumes "\<And>i pl. (i, pl) \<in> set cws \<Longrightarrow> logged F i \<noteq> None \<and>
      (\<forall>h. pl = HeaderData h \<longrightarrow> i = header_idx \<and> page_size h = page_size H)"
  shows "harmless F H (map db_write cws)" "LogSync \<notin> set (map db_write cws)"
    "DbSync \<notin> set (map db_write cws)" "LogWriteCount k \<notin> set (map db_write cws)"
    "quiet_log n (map db_write cws)"
proof -
  have ev: "(\<exists>pg. db_write (i, pl) = DbWritePage i pg) \<or> (\<exists>h. pl = HeaderData h \<and> db_write (i, pl) = DbWriteHeader h)" for i pl
    by (cases pl) auto
  show "harmless F H (map db_write cws)"
    unfolding harmless_def
  proof (intro ballI)
    fix e assume "e \<in> set (map db_write cws)"
    then obtain i pl where x: "(i, pl) \<in> set cws" "e = db_write (i, pl)" by auto
    show "(\<forall>i. touches_page e i \<and> 0 < i \<and> i < page_count H \<longrightarrow> logged F i \<noteq> None) \<and>
        (\<forall>h. e = DbWriteHeader h \<longrightarrow> page_size h = page_size H \<and> logged F header_idx \<noteq> None)"
      using assms [OF x(1)] ev [of i pl] x(2) by auto
  qed
  show "LogSync \<notin> set (map db_write cws)" "DbSync \<notin> set (map db_write cws)"
    "LogWriteCount k \<notin> set (map db_write cws)"
    using ev by (auto, (metis devent.distinct)+)
  show "quiet_log n (map db_write cws)"
    unfolding quiet_log_def
  proof (intro ballI)
    fix e assume "e \<in> set (map db_write cws)"
    then obtain i pl where x: "e = db_write (i, pl)" by auto
    then show "(\<forall>i. touches_frame e i \<longrightarrow> n \<le> i) \<and> (\<forall>h. e \<noteq> LogCreate h)"
      using ev [of i pl] by auto
  qed
qed

lemma cws_covered:
  assumes tx: "tx_inv b g p w Pg" and cws: "checkpoint_writes p w = Some cws"
    and x: "(i, pl) \<in> set cws"
  shows "logged (new_frames p w b) i \<noteq> None \<and>
    (\<forall>h. pl = HeaderData h \<longrightarrow> i = header_idx \<and> page_size h = psize p)"
proof -
  let ?I = "wal_index (logged_wal p w)"
  obtain j where j: "(i, j) \<in> set ?I" "checkpoint_write (counted_pager p w) (logged_wal p w) (i, j) = Some (i, pl)"
    using map_opt_in [OF cws x] checkpoint_write_key by fastforce
  have idx: "index_ok ?I (new_frames p w b)" by (rule logged_index_ok [OF tx])
  then have "map_of ?I i = Some j" using j(1) by (simp add: index_ok_def)
  from index_ok_Some(2) [OF idx this] have "logged (new_frames p w b) i \<noteq> None" by simp
  moreover have "i = header_idx \<and> page_size h = psize p" if pl: "pl = HeaderData h" for h
  proof -
    have "i = header_idx" using checkpoint_write_typed [OF j(2)] pl by (simp add: typed_def)
    then show ?thesis using j(2) pl by simp
  qed
  ultimately show ?thesis by blast
qed

abbreviation db_writes :: "pager \<Rightarrow> (nat \<times> payload) list \<Rightarrow> devent list" where
  "db_writes p cws \<equiv> map db_write cws @ [DbResize (page_count (hdr p))]"

lemma db_writes_quiet:
  assumes tx: "tx_inv b g p w Pg" and cws: "checkpoint_writes p w = Some cws"
  shows "harmless (new_frames p w b) (hdr p) (db_writes p cws)"
    "LogSync \<notin> set (db_writes p cws)" "DbSync \<notin> set (db_writes p cws)"
    "LogWriteCount k \<notin> set (db_writes p cws)" "quiet_log n (db_writes p cws)"
    "log (apply_devents sz (db_writes p cws) d) = log d"
proof -
  note dw = db_write_harmless [OF cws_covered [OF tx cws]]
  show "harmless (new_frames p w b) (hdr p) (db_writes p cws)"
    using dw(1) by (auto simp: harmless_def)
  show "LogSync \<notin> set (db_writes p cws)" "DbSync \<notin> set (db_writes p cws)"
    "LogWriteCount k \<notin> set (db_writes p cws)" "quiet_log n (db_writes p cws)"
    using dw(2-) by auto
  have "db_event (db_write x)" for x by (cases x; cases "snd x") auto
  then have "list_all db_event (db_writes p cws)" by (simp add: list_all_iff)
  then show "log (apply_devents sz (db_writes p cws) d) = log d" by (rule apply_log_db_events)
qed

lemma logged_events_db [simp]: "db (apply_devents sz (logged_events p w) d) = db d"
  by (simp add: apply_count_events append_events_def)

lemma empty_represents:
  assumes tx: "tx_inv b g p w Pg"
    and cr: "crash_log f es (log d')" "quiet_log (new_count p w) es"
    and f: "new_count p w \<le> length (wf_frames f)" "take (new_count p w) (wf_frames f) = new_frames p w b"
    and h': "wf_header (log d') = Some ((header w)\<lparr>frame_count := 0\<rparr>)"
    and db: "contents [] (db d') (hdr p) (new_pages p)"
  shows "represents d' (hdr p) (new_pages p)"
  using represents_intro [OF h'] new_log [OF tx cr f h'] db by simp

text \<open>After the sync of the database file either count represents the new database.\<close>

lemma stage_checkpointed:
  assumes tx: "tx_inv b g p w Pg" and cws: "checkpoint_writes p w = Some cws"
    and c: "crash (psize p) b (g @ logged_events p w @ db_writes p cws @ DbSync # es) d'"
    and es: "es = [] \<or> es = [LogWriteCount 0]"
  shows "represents d' (hdr p) (new_pages p)"
proof -
  let ?A = "append_events (header w) (write_set p)"
  let ?B = "g @ ?A @ [LogSync, LogWriteCount (new_count p w)]"
  let ?E = "db_writes p cws @ DbSync # es"
  note L = tx_counted_log [OF tx] and dw = db_writes_quiet [OF tx cws]
  have no: "LogSync \<notin> set ?E" "DbSync \<notin> set es" "quiet_log n ?E" "harmless F (hdr p) es"
      "\<And>k. LogWriteCount k \<in> set ?E \<Longrightarrow> k = 0" for n F
    using dw es by auto
  have cl: "crash_log (log (apply_devents (psize p) ?B b)) ?E (log d')"
    using crash_log_synced [of "psize p" b ?B ?E d'] c no(1) by (simp add: count_events_def)
  have cd: "crash_db (db (apply_devents (psize p) (db_writes p cws)
      (apply_devents (psize p) (logged_events p w) (disk_of p)))) es (db d')"
    using crash_db_synced [of "psize p" b "g @ logged_events p w @ db_writes p cws" es d'] c no(2)
      tx_basic(6) [OF tx] by simp
  have "contents [] (db (apply_devents (psize p) (db_writes p cws)
      (apply_devents (psize p) (logged_events p w) (disk_of p)))) (hdr p) (new_pages p)"
    by (rule checkpoint_db [OF tx cws logged_events_db])
  note new = contents_crash [OF this cd no(4)]
  show ?thesis
  proof (cases rule: crash_log_header [OF cl no(3) L(1), case_names 1 2])
    case 1
    show ?thesis
      by (rule new_represents [OF tx cl no(3) L(2,3) 1])
        (rule contents_over [OF write_set_contents [OF tx] new])
  next
    case (2 k)
    then have "wf_header (log d') = Some ((header w)\<lparr>frame_count := 0\<rparr>)" using no(5) by simp
    then show ?thesis using empty_represents [OF tx cl no(3) L(2,3)] new by blast
  qed
qed

lemma stage_done:
  assumes tx: "tx_inv b g p w Pg" and cws: "checkpoint_writes p w = Some cws"
    and c: "crash (psize p) b
      (g @ logged_events p w @ checkpoint_events cws (page_count (hdr p))) d'"
  shows "represents d' (hdr p) (new_pages p)"
proof -
  let ?A = "append_events (header w) (write_set p)"
  let ?B = "g @ logged_events p w @ db_writes p cws @ [DbSync, LogWriteCount 0]"
  let ?L = "log (apply_devents (psize p) ?B b)"
  note L = tx_appended_log [OF tx] and dw = db_writes_quiet [OF tx cws]
  have L': "wf_header ?L = Some ((header w)\<lparr>frame_count := 0\<rparr>)"
    "new_count p w \<le> length (wf_frames ?L)" "take (new_count p w) (wf_frames ?L) = new_frames p w b"
    using L dw(6) by (simp_all add: count_events_def)
  have cl: "crash_log ?L [] (log d')"
    using crash_log_synced [of "psize p" b ?B "[]" d'] c by (simp add: checkpoint_events_def)
  have cd: "crash_db (db (apply_devents (psize p) (db_writes p cws)
      (apply_devents (psize p) (logged_events p w) (disk_of p)))) [LogWriteCount 0, LogSync] (db d')"
    using crash_db_synced [of "psize p" b "g @ logged_events p w @ db_writes p cws"
        "[LogWriteCount 0, LogSync]" d'] c tx_basic(6) [OF tx] by (simp add: checkpoint_events_def)
  have "contents [] (db (apply_devents (psize p) (db_writes p cws)
      (apply_devents (psize p) (logged_events p w) (disk_of p)))) (hdr p) (new_pages p)"
    by (rule checkpoint_db [OF tx cws logged_events_db])
  note new = contents_crash [OF this cd]
  have h': "wf_header (log d') = Some ((header w)\<lparr>frame_count := 0\<rparr>)"
    using crash_log_header [OF cl _ L'(1)] by fastforce
  show ?thesis using empty_represents [OF tx cl _ L'(2,3) h'] new by simp
qed

section \<open>Atomicity and durability\<close>

text \<open>The transfers of a whole commit: none, those of a commit, or a checkpoint after them.\<close>

definition commit_trace :: "pager \<Rightarrow> wal \<Rightarrow> devent list \<Rightarrow> bool" where
  "commit_trace p w es \<longleftrightarrow> es = [] \<and> new_count p w = 0 \<or> es = logged_events p w \<or>
     (\<exists>cws. checkpoint_writes p w = Some cws \<and>
        es = logged_events p w @ checkpoint_events cws (page_count (hdr p)))"

lemma commit_trace:
  assumes tx: "tx_inv b g p w Pg" and c: "commit_transaction p = Some (q, r)"
  obtains es where "commit_trace p w es" "trace q = trace p @ es"
    "disk_of q = apply_devents (psize p) es (disk_of p)" "hdr q = hdr p"
proof -
  have w: "wal_of p = Some w" using tx by (simp add: tx_inv_def log_inv_def)
  have n: "frame_count (header (logged_wal p w)) = new_count p w" by (simp add: logged_header)
  have psz: "0 < psize p" using tx by (simp add: tx_inv_def header_inv_def)
  show thesis
  proof (cases rule: commit_shape [OF c w psz, case_names unchanged counted checkpointed])
    case unchanged
    then have "q = fst (finish_transaction ((logged_pager p w)\<lparr>cache := []\<rparr>))" by (metis fst_conv)
    then show ?thesis
      using unchanged that [of "[]"] by (simp add: commit_trace_def append_events_def)
  next
    case counted
    then have "q = fst (finish_transaction ((counted_pager p w)\<lparr>cache := []\<rparr>))" by (metis fst_conv)
    then show ?thesis using that [of "logged_events p w"] n by (simp add: commit_trace_def)
  next
    case (checkpointed cws)
    then have "q = fst (finish_transaction ((checkpointed_pager p w cws)\<lparr>cache := []\<rparr>))" by (metis fst_conv)
    then show ?thesis
      using that [of "logged_events p w @ checkpoint_events cws (page_count (hdr p))"]
        checkpointed(2) n by (simp add: commit_trace_def)
  qed
qed

lemma prefix_Cons3:
  "prefix xs [a, b, c] \<longleftrightarrow> xs = [] \<or> xs = [a] \<or> xs = [a, b] \<or> xs = [a, b, c]"
  by (auto simp: prefix_Cons)

lemma crash_in_log:
  assumes tx: "tx_inv b g p w Pg" and c: "crash (psize p) b (g @ es) d'"
    and es: "prefix es (logged_events p w)"
  shows "represents d' (saved_hdr p) Pg \<or> represents d' (hdr p) (new_pages p)"
proof -
  consider "prefix es (append_events (header w) (write_set p))"
    | us where "es = append_events (header w) (write_set p) @ us" "prefix us (count_events (new_count p w))"
    using es by (auto simp: prefix_append)
  then show ?thesis
  proof cases
    case 1
    then show ?thesis using stage_append [OF tx c] by blast
  next
    case (2 us)
    consider "us = []" | "us = [LogSync]" | "us = [LogSync, LogWriteCount (new_count p w)]"
      | "us = count_events (new_count p w)"
      using 2(2) by (auto simp: count_events_def prefix_Cons3)
    then show ?thesis
    proof cases
      case 1
      then have "es = append_events (header w) (write_set p)" using 2(1) by simp
      then show ?thesis using stage_append [OF tx c] prefix_order.refl by blast
    next
      case 4
      then show ?thesis using stage_counted [OF tx, of "[]"] c 2(1) by simp
    qed (use stage_count [OF tx] c 2(1) in simp_all)
  qed
qed

lemma crash_in_checkpoint:
  assumes tx: "tx_inv b g p w Pg" and cws: "checkpoint_writes p w = Some cws"
    and c: "crash (psize p) b (g @ logged_events p w @ us) d'"
    and us: "prefix us (checkpoint_events cws (page_count (hdr p)))"
  shows "represents d' (hdr p) (new_pages p)"
proof -
  have ev: "checkpoint_events cws (page_count (hdr p)) =
      db_writes p cws @ [DbSync, LogWriteCount 0, LogSync]"
    by (simp add: checkpoint_events_def)
  note dw = db_writes_quiet [OF tx cws]
  consider "prefix us (db_writes p cws)"
    | vs where "us = db_writes p cws @ vs" "prefix vs [DbSync, LogWriteCount 0, LogSync]"
    using us [unfolded ev] prefix_append [of us "db_writes p cws"] by blast
  then show ?thesis
  proof cases
    case 1
    then have sub: "set us \<subseteq> set (db_writes p cws)" by (rule set_mono_prefix)
    show ?thesis
      by (rule stage_counted [OF tx c])
        (use sub dw(2-4) quiet_log_mono [OF dw(5) sub] harmless_mono [OF dw(1) sub] in blast)+
  next
    case (2 vs)
    consider "vs = []" | "vs = [DbSync]" | "vs = [DbSync, LogWriteCount 0]"
      | "us = checkpoint_events cws (page_count (hdr p))"
      using 2 ev by (auto simp: prefix_Cons3)
    then show ?thesis
    proof cases
      case 1
      then show ?thesis using stage_counted [OF tx c] 2(1) dw(1-5) by simp
    next
      case 4
      then show ?thesis using stage_done [OF tx cws] c by simp
    qed (use stage_checkpointed [OF tx cws] c 2(1) in simp_all)
  qed
qed

end
