(* ===== verification/Session.thy ===== *)
theory Session
  imports Atomicity
begin

text \<open>
  Runs of a pager: any sequence of the operations a client has, from opening the files. At
  every moment of every run, a crash leaves files that represent the database of the last
  commit, or of the commit in progress.
\<close>

section \<open>The device after a sync\<close>

lemma upto_sync_append:
  "upto_sync s (as @ bs) = (if s \<in> set bs then as @ upto_sync s bs else upto_sync s as)"
  by (induction as) (auto simp: upto_sync_none)

lemma after_sync_append:
  "after_sync s (as @ bs) = (if s \<in> set bs then after_sync s bs else after_sync s as @ bs)"
proof (induction as)
  case Nil
  then show ?case by (simp add: after_sync_none)
next
  case (Cons a as)
  then show ?case by auto
qed

lemma crash_db_filter: "crash_db f (filter db_event es) f' \<longleftrightarrow> crash_db f es f'"
proof -
  have ev: "db_event e" if "touches_page e i" for e i
    using that by (cases e) auto
  have "(\<forall>e\<in>set (filter db_event es). \<not> touches_page e i) \<longleftrightarrow> (\<forall>e\<in>set es. \<not> touches_page e i)" for i
    using ev by auto
  moreover have "DbWriteHeader h \<in> set (filter db_event es) \<longleftrightarrow> DbWriteHeader h \<in> set es" for h
    by simp
  ultimately show ?thesis unfolding crash_db_def by presburger
qed

lemma crash_db_mono: "crash_db f es f' \<Longrightarrow> set (filter db_event es) \<subseteq> set es' \<Longrightarrow> crash_db f es' f'"
  using crash_db_filter [of f es f'] unfolding crash_db_def by blast

lemma crash_log_mono: "crash_log f es f' \<Longrightarrow> set es \<subseteq> set es' \<Longrightarrow> crash_log f es' f'"
  unfolding crash_log_def by blast

text \<open>A state of the device and transfers that have every crash of another such pair.\<close>

definition settles :: "nat \<Rightarrow> disk \<Rightarrow> devent list \<Rightarrow> disk \<Rightarrow> devent list \<Rightarrow> bool" where
  "settles sz d tr b g \<longleftrightarrow> (\<forall>es d'. crash sz d (tr @ es) d' \<longrightarrow> crash sz b (g @ es) d')"

lemma settles_refl: "settles sz d tr d tr"
  by (simp add: settles_def)

lemma settles_snoc: "settles sz d tr b g \<Longrightarrow> settles sz d (tr @ es) b (g @ es)"
  by (simp add: settles_def)

lemma settles_trans: "settles sz d tr b g \<Longrightarrow> settles sz b g b' g' \<Longrightarrow> settles sz d tr b' g'"
  by (simp add: settles_def)

lemma apply_db_cong: "db d1 = db d2 \<Longrightarrow> db (apply_devents sz es d1) = db (apply_devents sz es d2)"
proof (induction es arbitrary: d1 d2)
  case (Cons e es)
  show ?case using Cons.IH [of "apply_devent sz e d1" "apply_devent sz e d2"] Cons.prems by simp
qed simp

lemma apply_log_cong: "log d1 = log d2 \<Longrightarrow> log (apply_devents sz es d1) = log (apply_devents sz es d2)"
proof (induction es arbitrary: d1 d2)
  case (Cons e es)
  show ?case using Cons.IH [of "apply_devent sz e d1" "apply_devent sz e d2"] Cons.prems by simp
qed simp

text \<open>Log transfers that end in a sync: the log is settled, the database file still pending.\<close>

lemma settles_log:
  assumes E: "list_all (\<lambda>e. \<not> db_event e) E" and g: "list_all db_event g" "DbSync \<notin> set g"
  shows "settles sz b (g @ E @ [LogSync]) \<lparr>db = db b, log = log (apply_devents sz (g @ E) b)\<rparr> g"
  unfolding settles_def
proof (intro allI impI)
  fix es d'
  let ?b = "\<lparr>db = db b, log = log (apply_devents sz (g @ E) b)\<rparr>"
  assume c: "crash sz b ((g @ E @ [LogSync]) @ es) d'"
  have gl: "LogSync \<notin> set g" using g(1) by (auto simp: list_all_iff)
  have Ed: "DbSync \<notin> set E" "filter db_event E = []" using E by (auto simp: list_all_iff filter_empty_conv)
  have E0: "db (apply_devents sz E d) = db d" for d using apply_db_log_events [OF E] .
  have g0: "log (apply_devents sz g d) = log d" for d using apply_log_db_events [OF g(1)] .
  have dbx: "db (apply_devents sz (g @ E @ LogSync # xs) b) = db (apply_devents sz (g @ xs) ?b)" for xs
    using E0 by (simp, intro apply_db_cong) (simp, intro apply_db_cong, simp)
  have lgx: "log (apply_devents sz (g @ E @ LogSync # xs) b) = log (apply_devents sz (g @ xs) ?b)" for xs
    using g0 by (simp, intro apply_log_cong) (auto)
  have "crash_db (db (apply_devents sz (upto_sync DbSync (g @ es)) ?b))
      (after_sync DbSync (g @ es)) (db d')"
  proof (cases "DbSync \<in> set es")
    case True
    then show ?thesis
      using c dbx Ed g(2) by (simp add: crash_def upto_sync_append after_sync_append)
  next
    case False
    have "crash_db (db b) (g @ E @ LogSync # es) (db d')"
      using c False Ed g(2) by (simp add: crash_def upto_sync_none after_sync_none)
    then have "crash_db (db b) (g @ es) (db d')"
      by (rule crash_db_mono) (use Ed in auto)
    then show ?thesis using False g(2) by (simp add: upto_sync_none after_sync_none)
  qed
  moreover have "crash_log (log (apply_devents sz (upto_sync LogSync (g @ es)) ?b))
      (after_sync LogSync (g @ es)) (log d')"
  proof (cases "LogSync \<in> set es")
    case True
    then show ?thesis
      using c lgx by (simp add: crash_def upto_sync_append after_sync_append)
  next
    case False
    have "crash_log (log (apply_devents sz (g @ E) b)) es (log d')"
      using crash_log_synced [of sz b "g @ E" es d'] c False by simp
    then have "crash_log (log (apply_devents sz (g @ E) b)) (g @ es) (log d')"
      by (rule crash_log_mono) auto
    then show ?thesis using False gl by (simp add: upto_sync_none after_sync_none)
  qed
  ultimately show "crash sz ?b (g @ es) d'" by (simp add: crash_def)
qed

text \<open>Both files synced.\<close>

lemma settles_both:
  assumes es: "list_all (\<lambda>e. \<not> db_event e) E"
  shows "settles sz b (tr @ DbSync # E @ [LogSync]) (apply_devents sz (tr @ DbSync # E @ [LogSync]) b) []"
  unfolding settles_def
proof (intro allI impI)
  fix es d'
  let ?tr = "tr @ DbSync # E @ [LogSync]"
  let ?b = "apply_devents sz ?tr b"
  assume c: "crash sz b (?tr @ es) d'"
  have Ed: "DbSync \<notin> set E" "filter db_event E = []" using assms by (auto simp: list_all_iff filter_empty_conv)
  have E0: "db (apply_devents sz E d) = db d" for d using apply_db_log_events [OF es] .
  have "crash_db (db (apply_devents sz (upto_sync DbSync es) ?b)) (after_sync DbSync es) (db d')"
  proof (cases "DbSync \<in> set es")
    case True
    then show ?thesis using c by (simp add: crash_def upto_sync_append after_sync_append)
  next
    case False
    have "crash_db (db (apply_devents sz tr b)) (E @ LogSync # es) (db d')"
      using crash_db_synced [of sz b tr "E @ LogSync # es" d'] c False Ed by simp
    then have "crash_db (db (apply_devents sz tr b)) es (db d')"
      by (rule crash_db_mono) (use Ed in auto)
    then show ?thesis using False E0 by (simp add: upto_sync_none after_sync_none)
  qed
  moreover have "crash_log (log (apply_devents sz (upto_sync LogSync es) ?b)) (after_sync LogSync es) (log d')"
  proof (cases "LogSync \<in> set es")
    case True
    then show ?thesis using c by (simp add: crash_def upto_sync_append after_sync_append)
  next
    case False
    then show ?thesis
      using crash_log_synced [of sz b "tr @ DbSync # E" es d'] c
      by (simp add: upto_sync_none after_sync_none)
  qed
  ultimately show "crash sz ?b ([] @ es) d'" by (simp add: crash_def)
qed

section \<open>Beginning and ending a transaction\<close>

lemma represents_header:
  "represents b H Pg \<Longrightarrow>
     0 < page_size H \<and> page_count H * page_size H < 2 ^ 63 \<and> page_count H \<le> header_idx"
  by (auto simp: represents_def contents_def split: option.splits)

lemma idle_load:
  assumes "idle_inv b g p w Pg" "0 < i" "i < page_count (hdr p)"
  shows "load_page p i = Some (Pg i)"
proof -
  have inv: "represents b (hdr p) Pg" "disk_of p = apply_devents (psize p) g b"
    "pending (committed (header w) (log b)) (page_count (hdr p)) g" "log_inv b p w"
    using assms(1) by (simp_all add: idle_inv_def)
  have wf: "wf_header (log b) = Some (header w)" and w: "wal_of p = Some w"
    and idx: "index_ok (wal_index w) (committed (header w) (log b))"
    using inv(4) by (simp_all add: log_inv_def)
  note r = representsD [OF inv(1) wf]
  have "log (disk_of p) = log b" using inv(2,3) by simp
  moreover have "contents (committed (header w) (log b)) (db (disk_of p)) (hdr p) Pg"
    using contents_resizes [OF r(2) inv(3)] inv(2) by simp
  then have "holds_page (committed (header w) (log b)) (db (disk_of p)) i (Pg i)"
    using assms(2,3) by (simp add: contents_def)
  ultimately show ?thesis using load_page_iff [of "psize p" w p i "Pg i"] r(1) w idx by simp
qed

lemma load_page_cong:
  "wal_of q = wal_of p \<Longrightarrow> disk_of q = disk_of p \<Longrightarrow> load_page q i = load_page p i"
  unfolding load_page_def find_frame_def file_page_def by presburger

lemma cur_page_cong:
  assumes "cache q = cache p" "wal_of q = wal_of p" "disk_of q = disk_of p"
  shows "cur_page q = cur_page p" "is_dirty q = is_dirty p"
  using assms(1) load_page_cong [OF assms(2,3)]
  by (simp_all add: fun_eq_iff cur_page_def is_dirty_def split: option.splits)

lemma take_transaction_sel [simp]:
  "hdr (take_transaction p) = hdr p" "saved_hdr (take_transaction p) = hdr p"
  "disk_of (take_transaction p) = disk_of p" "wal_of (take_transaction p) = wal_of p"
  "cache (take_transaction p) = cache p" "opened (take_transaction p) = opened p"
  "header_in_write_set (take_transaction p) = header_in_write_set p"
  "transaction_active (take_transaction p)" "trace (take_transaction p) = trace p"
  by (simp_all add: take_transaction_def)

lemma idle_take:
  assumes "idle_inv b g p w Pg"
  shows "tx_inv b g (take_transaction p) w Pg"
proof -
  let ?q = "take_transaction p"
  have load: "load_page ?q i = load_page p i" for i by (rule load_page_cong) simp_all
  have inv: "represents b (hdr p) Pg" "cache p = []" using assms by (simp_all add: idle_inv_def)
  have "cache_inv ?q"
    using idle_load [OF assms] inv(2) by (simp add: cache_inv_def cur_page_def load)
  moreover have "header_inv ?q" "fresh_dirty ?q"
    using represents_header [OF inv(1)] by (auto simp: header_inv_def fresh_dirty_def)
  ultimately show ?thesis
    using assms by (simp add: tx_inv_def idle_inv_def log_inv_def)
qed

text \<open>\<open>finish_transaction\<close> leaves an idle pager or starts the next transaction.\<close>

definition between :: "disk \<Rightarrow> devent list \<Rightarrow> pager \<Rightarrow> wal \<Rightarrow> (nat \<Rightarrow> page) \<Rightarrow> bool" where
  "between b g p w Pg \<longleftrightarrow>
     (if transaction_active p then tx_inv b g p w Pg \<and> hdr p = saved_hdr p
      else idle_inv b g p w Pg)"

lemma finish_between:
  assumes "idle_inv b g p w Pg"
  shows "between b g (fst (finish_transaction p)) w Pg"
proof -
  have q: "idle_inv b g (p\<lparr>transaction_active := a, tx_waiters := ws\<rparr>) w Pg" for a ws
    using assms by (simp add: idle_inv_def log_inv_def)
  show ?thesis
  proof (cases "tx_waiters p")
    case Nil
    then have "fst (finish_transaction p) = p\<lparr>transaction_active := False, tx_waiters := []\<rparr>"
      by (simp add: finish_transaction_def)
    then show ?thesis using q by (simp add: between_def)
  next
    case (Cons t ts)
    then have "fst (finish_transaction p) =
        take_transaction (p\<lparr>transaction_active := False, tx_waiters := ts\<rparr>)"
      by (simp add: finish_transaction_def)
    then show ?thesis using idle_take [OF q] by (simp add: between_def)
  qed
qed

lemma rollback_between:
  assumes tx: "tx_inv b g p w Pg"
  shows "between b g (fst (rollback_transaction p)) w Pg"
  unfolding rollback_transaction_def
proof (rule finish_between)
  have "psize p = page_size (saved_hdr p)" using tx by (simp add: tx_inv_def header_inv_def)
  then show "idle_inv b g (p\<lparr>hdr := saved_hdr p, header_in_write_set := False, cache := []\<rparr>) w Pg"
    using tx by (simp add: tx_inv_def idle_inv_def log_inv_def)
qed

lemma idle_invI:
  assumes "represents b (hdr p) Pg" "disk_of p = apply_devents (psize p) g b"
    "pending (committed (header w) (log b)) (page_count (hdr p)) g"
    "wal_of p = Some w" "opened p" "wf_header (log b) = Some (header w)"
    "index_ok (wal_index w) (committed (header w) (log b))" "cache p = []" "\<not> header_in_write_set p"
  shows "idle_inv b g p w Pg"
  using assms by (simp add: idle_inv_def log_inv_def)

lemma tx_opened: "tx_inv b g p w Pg \<Longrightarrow> opened p"
  by (simp add: tx_inv_def log_inv_def)

lemma idle_unchanged:
  assumes tx: "tx_inv b g p w Pg" and n: "new_count p w = 0"
  shows "idle_inv b g ((logged_pager p w)\<lparr>cache := []\<rparr>) (logged_wal p w) (new_pages p)"
proof (rule idle_invI)
  have ws: "write_set p = []" and k: "frame_count (header w) = 0" using n by simp_all
  then have h: "header (logged_wal p w) = header w" by (simp add: logged_header)
  have "contents (committed (header w) (log b)) (db b) (hdr p) (new_pages p)"
    using write_set_contents [OF tx] ws by simp
  then show "represents b (hdr ((logged_pager p w)\<lparr>cache := []\<rparr>)) (new_pages p)"
    using represents_intro [OF tx_basic(1) [OF tx]] tx_inv_log(2) [OF tx] by simp
  show "pending (committed (header (logged_wal p w)) (log b))
      (page_count (hdr ((logged_pager p w)\<lparr>cache := []\<rparr>))) g"
    using new_pending [OF tx] ws h by simp
  show "index_ok (wal_index (logged_wal p w)) (committed (header (logged_wal p w)) (log b))"
    using logged_index_ok [OF tx] ws h by simp
  show "wf_header (log b) = Some (header (logged_wal p w))" using h tx_basic(1) [OF tx] by simp
qed (use n tx_basic(6) [OF tx] tx_opened [OF tx] in \<open>simp_all add: append_events_def\<close>)

definition counted_disk :: "disk \<Rightarrow> devent list \<Rightarrow> pager \<Rightarrow> wal \<Rightarrow> disk" where
  "counted_disk b g p w = \<lparr>db = db b, log = log (apply_devents (psize p)
     (g @ append_events (header w) (write_set p) @ [LogSync, LogWriteCount (new_count p w)]) b)\<rparr>"

lemma counted_disk_log:
  assumes tx: "tx_inv b g p w Pg"
  shows "log (counted_disk b g p w) = log (disk_of (counted_pager p w))"
  using tx_basic(6) [OF tx] by (simp add: counted_disk_def logged_header count_events_def)

lemma idle_counted:
  assumes tx: "tx_inv b g p w Pg"
  shows "idle_inv (counted_disk b g p w) g ((counted_pager p w)\<lparr>cache := []\<rparr>) (logged_wal p w)
    (new_pages p)"
proof (rule idle_invI)
  let ?b = "counted_disk b g p w"
  have c: "committed (header (logged_wal p w)) (log ?b) = new_frames p w b"
    using counted_log(2) [OF tx] counted_disk_log [OF tx] by simp
  show wf: "wf_header (log ?b) = Some (header (logged_wal p w))"
    using tx_counted_log(1) [OF tx] by (simp add: counted_disk_def logged_header)
  have "log_ok (psize p) (header (logged_wal p w)) (log ?b)"
    using counted_log(1) [OF tx] counted_disk_log [OF tx] by simp
  moreover have "contents (new_frames p w b) (db ?b) (hdr p) (new_pages p)"
    using write_set_contents [OF tx] by (simp add: counted_disk_def)
  ultimately show "represents ?b (hdr ((counted_pager p w)\<lparr>cache := []\<rparr>)) (new_pages p)"
    using represents_intro [OF wf] c by simp
  show "pending (committed (header (logged_wal p w)) (log ?b))
      (page_count (hdr ((counted_pager p w)\<lparr>cache := []\<rparr>))) g"
    using new_pending [OF tx] c by simp
  show "index_ok (wal_index (logged_wal p w)) (committed (header (logged_wal p w)) (log ?b))"
    using logged_index_ok [OF tx] c by simp
  have "db (disk_of (counted_pager p w)) = db (apply_devents (psize p) g b)"
    using tx_basic(6) [OF tx] by (simp add: apply_count_events append_events_def)
  also have "\<dots> = db (apply_devents (psize p) g ?b)"
    by (rule apply_db_cong) (simp add: counted_disk_def)
  finally have "disk_of (counted_pager p w) = apply_devents (psize p) g ?b"
    using counted_disk_log [OF tx] tx_basic(2) [OF tx] by (intro disk.equality) simp_all
  then show "disk_of ((counted_pager p w)\<lparr>cache := []\<rparr>) =
      apply_devents (psize ((counted_pager p w)\<lparr>cache := []\<rparr>)) g ?b" by simp
qed (use tx_opened [OF tx] in simp_all)

lemma idle_checkpointed:
  assumes tx: "tx_inv b g p w Pg" and cws: "checkpoint_writes p w = Some cws"
  shows "idle_inv (disk_of (checkpointed_pager p w cws)) [] ((checkpointed_pager p w cws)\<lparr>cache := []\<rparr>)
    \<lparr>header = (header w)\<lparr>frame_count := 0\<rparr>, wal_index = []\<rparr> (new_pages p)"
proof (rule idle_invI)
  let ?d = "disk_of (checkpointed_pager p w cws)"
  let ?h = "(header w)\<lparr>frame_count := 0\<rparr>"
  have d: "?d = apply_devents (psize p) [DbSync, LogWriteCount 0, LogSync]
      (apply_devents (psize p) (db_writes p cws) (disk_of (counted_pager p w)))"
    by (simp add: checkpoint_events_def)
  have lg: "log ?d = (log (disk_of (counted_pager p w)))\<lparr>wf_header := Some ?h\<rparr>"
    unfolding d using db_writes_quiet(6) [OF tx cws] counted_log(1) [OF tx]
    by (auto simp: log_ok_def logged_header)
  show wf: "wf_header (log ?d) = Some (header \<lparr>header = ?h, wal_index = []\<rparr>)" using lg by simp
  have "log_ok (psize p) ?h (log ?d)"
    using log_ok_empty [OF counted_log(1) [OF tx]] lg by (simp add: logged_header)
  moreover have "contents [] (db ?d) (hdr p) (new_pages p)"
    unfolding d using checkpoint_db [OF tx cws, of "disk_of (counted_pager p w)"]
    by (simp add: apply_count_events append_events_def)
  ultimately show "represents ?d (hdr ((checkpointed_pager p w cws)\<lparr>cache := []\<rparr>)) (new_pages p)"
    using represents_intro [OF wf] by (simp add: committed_def)
qed (use tx_opened [OF tx] in \<open>simp_all add: pending_def index_ok_def committed_def\<close>)

lemma pending_db_events: "pending F n g \<Longrightarrow> list_all db_event g"
  by (auto simp: pending_def list_all_iff)

lemma settles_counted:
  assumes tx: "tx_inv b g p w Pg"
  shows "settles (psize p) b (g @ logged_events p w) (counted_disk b g p w) g"
proof -
  have g: "list_all db_event g" "DbSync \<notin> set g"
    using pending_db_events [OF tx_basic(2) [OF tx]] tx_basic(4) [OF tx] by simp_all
  have "list_all (\<lambda>e. \<not> db_event e)
      (append_events (header w) (write_set p) @ [LogSync, LogWriteCount (new_count p w)])"
    by (simp add: append_events_def)
  from settles_log [OF this g, of "psize p" b] show ?thesis
    by (simp add: counted_disk_def count_events_def)
qed

lemma settles_checkpointed:
  assumes tx: "tx_inv b g p w Pg"
  shows "settles (psize p) b (g @ logged_events p w @ checkpoint_events cws (page_count (hdr p)))
    (disk_of (checkpointed_pager p w cws)) []"
proof -
  have "list_all (\<lambda>e. \<not> db_event e) [LogWriteCount 0]" by simp
  from settles_both [OF this, of "psize p" b "g @ logged_events p w @ db_writes p cws"]
  show ?thesis
    using tx_basic(6) [OF tx] by (simp add: checkpoint_events_def logged_header)
qed

lemma commit_between:
  assumes tx: "tx_inv b g p w Pg" and c: "commit_transaction p = Some (q, r)"
  obtains es b' g' w' where "commit_trace p w es" "trace q = trace p @ es"
    "between b' g' q w' (new_pages p)" "settles (psize p) b (g @ es) b' g'" "hdr q = hdr p"
proof -
  have w: "wal_of p = Some w" using tx by (simp add: tx_inv_def log_inv_def)
  have n: "frame_count (header (logged_wal p w)) = new_count p w" by (simp add: logged_header)
  have psz: "0 < psize p" using tx by (simp add: tx_inv_def header_inv_def)
  show thesis
  proof (cases rule: commit_shape [OF c w psz, case_names unchanged counted checkpointed])
    case unchanged
    then have n0: "new_count p w = 0"
      and q: "q = fst (finish_transaction ((logged_pager p w)\<lparr>cache := []\<rparr>))"
      by (simp, metis fst_conv)
    have "between b g q (logged_wal p w) (new_pages p)"
      unfolding q by (rule finish_between [OF idle_unchanged [OF tx n0]])
    moreover have "settles (psize p) b (g @ []) b g" by (simp add: settles_refl)
    ultimately show ?thesis
      using that [of "[]" b g "logged_wal p w"] n0 q by (simp add: commit_trace_def append_events_def)
  next
    case counted
    then have q: "q = fst (finish_transaction ((counted_pager p w)\<lparr>cache := []\<rparr>))" by (metis fst_conv)
    have "between (counted_disk b g p w) g q (logged_wal p w) (new_pages p)"
      unfolding q by (rule finish_between [OF idle_counted [OF tx]])
    then show ?thesis
      using that [of "logged_events p w"] settles_counted [OF tx] q n by (simp add: commit_trace_def)
  next
    case (checkpointed cws)
    then have q: "q = fst (finish_transaction ((checkpointed_pager p w cws)\<lparr>cache := []\<rparr>))"
      by (metis fst_conv)
    have "between (disk_of (checkpointed_pager p w cws)) [] q
        \<lparr>header = (header w)\<lparr>frame_count := 0\<rparr>, wal_index = []\<rparr> (new_pages p)"
      unfolding q by (rule finish_between [OF idle_checkpointed [OF tx checkpointed(2)]])
    then show ?thesis
      using that [of "logged_events p w @ checkpoint_events cws (page_count (hdr p))"]
        settles_checkpointed [OF tx] checkpointed(2) q n by (simp add: commit_trace_def)
  qed
qed

lemma crash_in_commit:
  assumes tx: "tx_inv b g p w Pg" and ct: "commit_trace p w es"
    and c: "crash (psize p) b (g @ us) d'" and us: "prefix us es"
  shows "represents d' (saved_hdr p) Pg \<or> represents d' (hdr p) (new_pages p)"
proof -
  consider "es = []" | "es = logged_events p w"
    | cws where "checkpoint_writes p w = Some cws"
      "es = logged_events p w @ checkpoint_events cws (page_count (hdr p))"
    using ct by (auto simp: commit_trace_def)
  then show ?thesis
  proof cases
    case 1
    then have "us = []" using us by simp
    then show ?thesis using stage_append [OF tx c] by simp
  next
    case 2
    then show ?thesis using crash_in_log [OF tx c] us by simp
  next
    case (3 cws)
    then consider "prefix us (logged_events p w)"
      | vs where "us = logged_events p w @ vs" "prefix vs (checkpoint_events cws (page_count (hdr p)))"
      using us prefix_append [of us "logged_events p w"] by blast
    then show ?thesis
    proof cases
      case 1
      then show ?thesis using crash_in_log [OF tx c] by simp
    next
      case (2 vs)
      then show ?thesis using crash_in_checkpoint [OF tx 3(1)] c by simp
    qed
  qed
qed

section \<open>Operations inside a transaction\<close>

definition undone :: "pager \<Rightarrow> pager" where
  "undone p = p\<lparr>hdr := saved_hdr p, header_in_write_set := False, cache := []\<rparr>"

lemma undone_sel [simp]:
  "hdr (undone p) = saved_hdr p" "wal_of (undone p) = wal_of p" "disk_of (undone p) = disk_of p"
  "opened (undone p) = opened p" "cache (undone p) = []" "\<not> header_in_write_set (undone p)"
  by (simp_all add: undone_def)

lemma tx_inv_alt:
  "tx_inv b g p w Pg \<longleftrightarrow> transaction_active p \<and> idle_inv b g (undone p) w Pg \<and>
     header_inv p \<and> cache_inv p \<and> fresh_dirty p"
proof -
  have "header_inv p \<Longrightarrow> psize p = page_size (saved_hdr p)" by (simp add: header_inv_def)
  then show ?thesis by (auto simp: tx_inv_def idle_inv_def log_inv_def)
qed

lemma undone_load:
  assumes "idle_inv b g (undone p) w Pg" "0 < i" "i < page_count (saved_hdr p)"
  shows "load_page p i = Some (Pg i)"
  using idle_load [OF assms(1)] load_page_cong [of "undone p" p i] assms(2,3) by simp

definition cache_put :: "nat \<Rightarrow> cache_entry \<Rightarrow> pager \<Rightarrow> pager" where
  "cache_put i e p = p\<lparr>cache := AList.update i e (cache p)\<rparr>"

lemma cache_put_sel [simp]:
  "hdr (cache_put i e p) = hdr p" "saved_hdr (cache_put i e p) = saved_hdr p"
  "trace (cache_put i e p) = trace p" "disk_of (cache_put i e p) = disk_of p"
  "wal_of (cache_put i e p) = wal_of p" "opened (cache_put i e p) = opened p"
  "transaction_active (cache_put i e p) = transaction_active p"
  "header_in_write_set (cache_put i e p) = header_in_write_set p"
  "tx_waiters (cache_put i e p) = tx_waiters p"
  by (simp_all add: cache_put_def)

lemma cache_put_load [simp]: "load_page (cache_put i e p) j = load_page p j"
  by (rule load_page_cong) simp_all

lemma cache_put_map_of [simp]: "map_of (cache (cache_put i e p)) = (map_of (cache p))(i \<mapsto> e)"
  by (simp add: cache_put_def update_conv')

lemma cache_put_distinct:
  "distinct (map fst (cache p)) \<Longrightarrow> distinct (map fst (cache (cache_put i e p)))"
  by (simp add: cache_put_def distinct_update)

lemma cache_put_pages [simp]:
  "cur_page (cache_put i e p) j = (if j = i then Some (data e) else cur_page p j)"
  "is_dirty (cache_put i e p) j = (if j = i then dirty e else is_dirty p j)"
  by (simp_all add: cur_page_def is_dirty_def split: option.splits)

lemma undone_cache_put [simp]: "undone (cache_put i e p) = undone p"
  by (simp add: cache_put_def undone_def)

lemma cache_put_tx_inv:
  assumes tx: "tx_inv b g p w Pg"
    and e: "dirty e \<or> \<not> is_dirty p i \<and> 0 < i \<and> i < page_count (saved_hdr p) \<and> load_page p i = Some (data e)"
  shows "tx_inv b g (cache_put i e p) w Pg"
proof -
  have inv: "cache_inv p" "fresh_dirty p" "header_inv p" using tx by (simp_all add: tx_inv_def)
  have "cache_inv (cache_put i e p)"
    using inv(1) e cache_put_distinct [of p i e] by (auto simp: cache_inv_def is_dirty_def)
  moreover have "fresh_dirty (cache_put i e p)" using inv(2) e by (auto simp: fresh_dirty_def)
  ultimately show ?thesis using tx inv(3) by (simp add: tx_inv_alt header_inv_def)
qed

lemma rpage_cases:
  assumes "rpage p i = Some (pg, q)"
  obtains (hit) e where "map_of (cache p) i = Some e" "pg = data e" "q = p"
    | (miss) "map_of (cache p) i = None" "load_page p i = Some pg"
        "q = cache_put i \<lparr>data = pg, dirty = False\<rparr> p"
  using assms
  by (auto simp: rpage_def cache_put_def bind_eq_Some_conv split: option.splits if_splits)

lemma page_guardD: "rpage p i = Some x \<Longrightarrow> page_guard p i" "rwpage p i = Some x \<Longrightarrow> page_guard p i"
  by (auto simp: rpage_def rwpage_def split: if_splits)

lemma rwpage_eq:
  assumes "rwpage p i = Some (pg, q)"
  shows "cur_page p i = Some pg \<and> q = cache_put i \<lparr>data = pg, dirty = True\<rparr> p"
proof (cases "map_of (cache p) i")
  case None
  then show ?thesis
    using assms by (auto simp: rwpage_def cache_put_def cur_page_def bind_eq_Some_conv split: if_splits)
next
  case (Some e)
  then show ?thesis
    using assms by (cases e) (auto simp: rwpage_def cache_put_def cur_page_def bind_eq_Some_conv split: if_splits)
qed

text \<open>A miss is a page of the committed database.\<close>

lemma miss_old:
  assumes "tx_inv b g p w Pg" "map_of (cache p) i = None" "0 < i" "i < page_count (hdr p)"
  shows "i < page_count (saved_hdr p)"
proof (rule ccontr)
  assume "\<not> i < page_count (saved_hdr p)"
  then have "is_dirty p i" using assms by (simp add: tx_inv_def fresh_dirty_def)
  then show False using assms(2) by (simp add: is_dirty_def)
qed

lemma rpage_tx_inv:
  assumes tx: "tx_inv b g p w Pg" and r: "rpage p i = Some (pg, q)"
  shows "tx_inv b g q w Pg" "cur_page p i = Some pg" "cur_page q = cur_page p"
proof -
  have guard: "0 < i" "i < page_count (hdr p)" using page_guardD(1) [OF r] by (simp_all add: page_guard_def)
  show "tx_inv b g q w Pg"
    using r
  proof (cases rule: rpage_cases)
    case hit
    then show ?thesis using tx by simp
  next
    case miss
    show ?thesis
      unfolding miss(3)
      by (rule cache_put_tx_inv [OF tx])
        (use miss miss_old [OF tx miss(1) guard] guard in \<open>simp add: is_dirty_def\<close>)
  qed
  show "cur_page p i = Some pg"
    using r by (cases rule: rpage_cases) (simp_all add: cur_page_def)
  then show "cur_page q = cur_page p"
    by (cases rule: rpage_cases [OF r]) (simp_all add: fun_eq_iff)
qed

lemma rwpage_tx_inv:
  assumes "tx_inv b g p w Pg" "rwpage p i = Some (pg, q)"
  shows "tx_inv b g q w Pg"
  using rwpage_eq [OF assms(2)] cache_put_tx_inv [OF assms(1)] by simp

lemma put_page_alt:
  "put_page i pg p =
    (case map_of (cache p) i of Some e \<Rightarrow> cache_put i (e\<lparr>data := pg\<rparr>) p | None \<Rightarrow> p)"
  by (simp add: put_page_def cache_put_def split: option.splits)

lemma put_page_tx_inv:
  assumes "tx_inv b g p w Pg" "is_dirty p i"
  shows "tx_inv b g (put_page i pg p) w Pg"
    "cur_page (put_page i pg p) = (cur_page p)(i \<mapsto> pg)"
    "is_dirty (put_page i pg p) = is_dirty p"
proof -
  obtain e where e: "map_of (cache p) i = Some e" "dirty e"
    using assms(2) by (auto simp: is_dirty_def split: option.splits)
  show "tx_inv b g (put_page i pg p) w Pg"
    using cache_put_tx_inv [OF assms(1), of "e\<lparr>data := pg\<rparr>" i] e by (simp add: put_page_alt)
  show "cur_page (put_page i pg p) = (cur_page p)(i \<mapsto> pg)"
    "is_dirty (put_page i pg p) = is_dirty p"
    using e assms(2) by (auto simp: put_page_alt fun_eq_iff)
qed

lemma header_tx_inv:
  assumes tx: "tx_inv b g p w Pg"
    and H: "page_size H = psize p" "page_count H \<le> header_idx" "page_count H * psize p < 2 ^ 63"
    and grown: "\<And>i. page_count (hdr p) \<le> i \<Longrightarrow> 0 < i \<Longrightarrow> i < page_count H \<Longrightarrow> is_dirty p i"
  shows "tx_inv b g (p\<lparr>hdr := H, header_in_write_set := True\<rparr>) w Pg"
proof -
  let ?q = "p\<lparr>hdr := H, header_in_write_set := True\<rparr>"
  have inv: "cache_inv p" "fresh_dirty p" "header_inv p" using tx by (simp_all add: tx_inv_def)
  have load: "load_page ?q i = load_page p i" for i by (rule load_page_cong) simp_all
  have cur: "cur_page ?q i = cur_page p i" "is_dirty ?q i = is_dirty p i" for i
    by (simp_all add: cur_page_def is_dirty_def load split: option.splits)
  have "cur_page p i \<noteq> None" if "0 < i" "i < page_count H" for i
  proof (cases "i < page_count (hdr p)")
    case True
    then show ?thesis using inv(1) that by (simp add: cache_inv_def)
  next
    case False
    then have "is_dirty p i" using grown that by simp
    then show ?thesis by (simp add: is_dirty_def cur_page_def split: option.splits)
  qed
  then have "cache_inv ?q" using inv(1) by (simp add: cache_inv_def cur load)
  moreover have "fresh_dirty ?q"
    using inv(2) grown unfolding fresh_dirty_def cur
    by (metis not_le pager.select_convs(4,5) pager.update_convs(4,6) pager.surjective)
  moreover have "header_inv ?q" using inv(3) H by (simp add: header_inv_def)
  moreover have "undone ?q = undone p" by (simp add: undone_def)
  ultimately show ?thesis using tx by (simp add: tx_inv_alt)
qed

lemma resize_tx_inv:
  assumes tx: "tx_inv b g p w Pg" and n: "page_count (saved_hdr p) \<le> n"
  shows "tx_inv b (g @ [DbResize n]) (io [DbResize n] p) w Pg"
proof -
  let ?q = "io [DbResize n] p"
  have inv: "cache_inv p" "fresh_dirty p" "header_inv p" "idle_inv b g (undone p) w Pg"
    using tx by (simp_all add: tx_inv_alt)
  have sz: "psize p = page_size (saved_hdr p)" using inv(3) by (simp add: header_inv_def)
  have idle: "idle_inv b (g @ [DbResize n]) (undone ?q) w Pg"
    using inv(4) n sz by (auto simp: idle_inv_def log_inv_def pending_def)
  have old: "load_page p i = Some (Pg i)" "load_page ?q i = Some (Pg i)"
    if "0 < i" "i < page_count (saved_hdr p)" for i
    using undone_load [OF inv(4) that] undone_load [OF idle] that by simp_all
  have dirty: "is_dirty ?q i = is_dirty p i" for i by (simp add: is_dirty_def)
  have "cur_page ?q i \<noteq> None" if "0 < i" "i < page_count (hdr p)" for i
    using miss_old [OF tx _ that] old [OF that(1)] by (auto simp: cur_page_def split: option.splits)
  moreover have "load_page ?q i = Some (data e)" if "map_of (cache p) i = Some e" "\<not> dirty e"
      "0 < i" "i < page_count (saved_hdr p)" for i e
    using inv(1) that old [OF that(3,4)] unfolding cache_inv_def by metis
  ultimately have "cache_inv ?q" using inv(1) unfolding cache_inv_def by simp
  moreover have "fresh_dirty ?q" using inv(2) by (simp add: fresh_dirty_def dirty)
  moreover have "header_inv ?q" using inv(3) unfolding header_inv_def io_sel .
  ultimately show ?thesis using idle tx by (simp add: tx_inv_alt)
qed

lemma set_root_tx_inv:
  assumes tx: "tx_inv b g p w Pg" and s: "set_root p pg = Some q"
  shows "tx_inv b g q w Pg"
proof -
  have q: "q = p\<lparr>hdr := (hdr p)\<lparr>root_page := pg\<rparr>, header_in_write_set := True\<rparr>"
    using s by (simp add: set_root_def split: if_splits)
  have "header_inv p" using tx by (simp add: tx_inv_def)
  then show ?thesis unfolding q by (intro header_tx_inv [OF tx]) (auto simp: header_inv_def)
qed

end
