(* ===== verification/Alloc.thy ===== *)
theory Alloc
  imports Session
begin

text \<open>
  The page allocator. Page \<open>B\<close> with \<open>(B - 1) mod bitset_stride = 0\<close> is a bitset; bit \<open>k\<close> of
  it says that page \<open>B + 1 + k\<close> is in use. \<open>new_page\<close> returns a page that was free, zeroed,
  and takes its bit; \<open>delete_page\<close> gives it back and cuts unused pages off the end.
\<close>

section \<open>Bits\<close>

definition bitset_bit :: "page \<Rightarrow> nat \<Rightarrow> bool" where
  "bitset_bit bs k = bit (bs ! (k div 64)) (k mod 64)"

lemma length_takeWhile_upt:
  assumes "k < n" "\<not> P k" "\<And>j. j < k \<Longrightarrow> P j"
  shows "length (takeWhile P [0..<n]) = k"
proof -
  have "[0..<n] = [0..<k] @ k # [Suc k..<n]"
    using assms(1) upt_add_eq_append [of 0 k "n - k"] by (simp add: upt_conv_Cons)
  then show ?thesis using assms(2,3) by (simp add: takeWhile_append)
qed

lemma count_trailing_zeros_spec:
  fixes x :: u64
  assumes "x \<noteq> 0"
  shows "count_trailing_zeros x < 64" "bit x (count_trailing_zeros x)"
    "j < count_trailing_zeros x \<Longrightarrow> \<not> bit x j"
proof -
  obtain n where n: "bit x n" using assms by (auto simp: bit_eq_iff)
  define k where "k = (LEAST n. bit x n)"
  have k: "bit x k" "\<And>j. j < k \<Longrightarrow> \<not> bit x j"
    unfolding k_def using n LeastI not_less_Least by metis+
  have "k < 64" using k(1) bit_imp_le_length [of x k] by simp
  then have "count_trailing_zeros x = k"
    unfolding count_trailing_zeros_def using k by (intro length_takeWhile_upt) auto
  then show "count_trailing_zeros x < 64" "bit x (count_trailing_zeros x)"
    "j < count_trailing_zeros x \<Longrightarrow> \<not> bit x j"
    using k \<open>k < 64\<close> by auto
qed

lemma not_bits_zero:
  assumes "NOT (x :: u64) = 0" "j < 64"
  shows "bit x j"
proof -
  have "\<not> bit (NOT x) j" unfolding assms(1) by simp
  then show ?thesis using assms(2) by (simp add: bit_not_iff)
qed

lemma bit_push_1: "j < 64 \<Longrightarrow> bit (push_bit i (1 :: u64)) j \<longleftrightarrow> j = i"
  by (auto simp: bit_push_bit_iff bit_1_iff simp del: push_bit_of_1)

lemma free_entry_spec:
  assumes "free_entry n bs = Some e"
  shows "e < n" "NOT (bs ! e) \<noteq> 0" "e' < e \<Longrightarrow> NOT (bs ! e') = 0"
  using assms by (auto simp: free_entry_def find_Some_iff)

lemma free_entry_None: "free_entry n bs = None \<longleftrightarrow> (\<forall>e<n. NOT (bs ! e) = 0)"
  by (auto simp: free_entry_def find_None_iff)

text \<open>The bit \<open>take_free_bit\<close> takes is the first free one.\<close>

definition free_bit :: "page \<Rightarrow> nat \<Rightarrow> nat" where
  "free_bit bs e = pages_per_entry * e + count_trailing_zeros (NOT (bs ! e))"

lemma free_bit_spec:
  assumes "free_entry n bs = Some e"
  shows "free_bit bs e < 64 * n" "\<not> bitset_bit bs (free_bit bs e)"
    "k < free_bit bs e \<Longrightarrow> bitset_bit bs k"
proof -
  let ?b = "count_trailing_zeros (NOT (bs ! e))"
  note fe = free_entry_spec [OF assms]
  note tz = count_trailing_zeros_spec [OF fe(2)]
  have k: "free_bit bs e = 64 * e + ?b" by (simp add: free_bit_def pages_per_entry_def)
  have dm: "free_bit bs e div 64 = e" "free_bit bs e mod 64 = ?b" using tz(1) k by simp_all
  show "free_bit bs e < 64 * n" using k fe(1) tz(1) by simp
  show "\<not> bitset_bit bs (free_bit bs e)"
    using tz(1,2) by (simp add: bitset_bit_def dm bit_not_iff)
  assume lt: "k < free_bit bs e"
  show "bitset_bit bs k"
  proof (cases "k div 64 = e")
    case True
    then have "k mod 64 < ?b" using lt k by (metis add_less_cancel_left mult_div_mod_eq)
    then show ?thesis using tz(1,3) True by (simp add: bitset_bit_def bit_not_iff)
  next
    case False
    then have "k div 64 < e" using lt k tz(1) by (simp add: div_less_iff_less_mult)
    then show ?thesis using fe(3) not_bits_zero by (simp add: bitset_bit_def)
  qed
qed

lemma set_bit_bitset:
  assumes "k < 64 * length bs"
  shows "bitset_bit (bs[k div 64 := bs ! (k div 64) OR push_bit (k mod 64) 1]) j \<longleftrightarrow>
    j = k \<or> bitset_bit bs j"
proof (cases "j div 64 = k div 64")
  case True
  have "k div 64 < length bs" using assms by (simp add: div_less_iff_less_mult)
  moreover have "j mod 64 = k mod 64 \<longleftrightarrow> j = k" using True by (metis mult_div_mod_eq)
  moreover have "bit (push_bit (k mod 64) (1 :: u64)) (j mod 64) \<longleftrightarrow> j mod 64 = k mod 64"
    by (simp add: bit_push_1 del: push_bit_of_1)
  ultimately show ?thesis using True by (auto simp: bitset_bit_def bit_or_iff)
next
  case False
  then show ?thesis by (auto simp: bitset_bit_def)
qed

lemma clear_bit_bitset:
  assumes "k < 64 * length bs"
  shows "bitset_bit (bs[k div 64 := bs ! (k div 64) AND NOT (push_bit (k mod 64) 1)]) j \<longleftrightarrow>
    j \<noteq> k \<and> bitset_bit bs j"
proof (cases "j div 64 = k div 64")
  case True
  have "k div 64 < length bs" using assms by (simp add: div_less_iff_less_mult)
  moreover have "j mod 64 = k mod 64 \<longleftrightarrow> j = k" using True by (metis mult_div_mod_eq)
  moreover have "bit (push_bit (k mod 64) (1 :: u64)) (j mod 64) \<longleftrightarrow> j mod 64 = k mod 64"
    by (simp add: bit_push_1 del: push_bit_of_1)
  ultimately show ?thesis using True by (auto simp: bitset_bit_def bit_and_iff bit_not_iff)
next
  case False
  then show ?thesis by (auto simp: bitset_bit_def)
qed

section \<open>Which pages are in use\<close>

definition is_bitset :: "pager \<Rightarrow> nat \<Rightarrow> bool" where
  "is_bitset p B \<longleftrightarrow> 0 < B \<and> (B - 1) mod bitset_stride p = 0"

definition bits_of :: "pager \<Rightarrow> nat" where
  "bits_of p = 64 * bitset_entry_count p"

definition allocated :: "pager \<Rightarrow> nat \<Rightarrow> bool" where
  "allocated p i \<longleftrightarrow>
     (let B = bitset_page_of p i in
      B < i \<and> B < page_count (hdr p) \<and>
      (case cur_page p B of Some bs \<Rightarrow> bitset_bit bs (i - B - 1) | None \<Rightarrow> False))"

text \<open>Every bitset has its size, and no bit of it is behind the end of the database.\<close>

definition alloc_ok :: "pager \<Rightarrow> bool" where
  "alloc_ok p \<longleftrightarrow> 0 < bitset_entry_count p \<and> 0 < page_count (hdr p) \<and> (\<forall>B. is_bitset p B \<and> B < page_count (hdr p) \<longrightarrow>
     (\<exists>bs. cur_page p B = Some bs \<and> length bs = bitset_entry_count p \<and>
        (\<forall>k<bits_of p. bitset_bit bs k \<longrightarrow> B + 1 + k < page_count (hdr p))))"

lemma bitset_stride_bits: "bitset_stride p = bits_of p + 1"
  by (simp add: bitset_stride_def bits_of_def pages_per_entry_def)

lemma bitset_page_of_in:
  assumes "is_bitset p B" "k < bits_of p"
  shows "bitset_page_of p (B + 1 + k) = B"
proof -
  let ?s = "bitset_stride p"
  obtain m where m: "B - 1 = ?s * m" using assms(1) by (auto simp: is_bitset_def)
  then have B: "B = ?s * m + 1" using assms(1) by (simp add: is_bitset_def)
  have "1 + k < ?s" "?s \<noteq> 0" using assms(2) by (simp_all add: bitset_stride_bits)
  then have "(1 + k + ?s * m) div ?s = m" using div_mult_self2 [of ?s "1 + k" m] by simp
  then have "(?s * m + (1 + k)) div ?s = m" by (simp add: add.commute)
  then show ?thesis using B by (simp add: bitset_page_of_def mult.commute)
qed

lemma bitset_page_of_self:
  assumes "is_bitset p B"
  shows "bitset_page_of p B = B"
  using assms by (auto simp: is_bitset_def bitset_page_of_def mult.commute)

lemma is_bitset_page_of [simp]: "is_bitset p (bitset_page_of p i)"
  by (simp add: is_bitset_def bitset_page_of_def)

lemma page_of_bounds:
  assumes "0 < i"
  shows "bitset_page_of p i \<le> i" "i - bitset_page_of p i \<le> bits_of p"
proof -
  have "(i - 1) div bitset_stride p * bitset_stride p + (i - 1) mod bitset_stride p = i - 1" by simp
  moreover have "(i - 1) mod bitset_stride p < bitset_stride p" by (simp add: bitset_stride_bits)
  ultimately show "bitset_page_of p i \<le> i" "i - bitset_page_of p i \<le> bits_of p"
    using assms unfolding bitset_page_of_def bitset_stride_bits by linarith+
qed

lemma page_of_split:
  assumes "0 < i" "bitset_page_of p i < i"
  obtains k where "i = bitset_page_of p i + 1 + k" "k < bits_of p"
  using that [of "i - bitset_page_of p i - 1"] page_of_bounds [OF assms(1), of p] assms by simp

lemma bitset_not_inside: "is_bitset p B \<Longrightarrow> k < bits_of p \<Longrightarrow> \<not> is_bitset p (B + 1 + k)"
  using bitset_page_of_in [of p B k] bitset_page_of_self [of p "B + 1 + k"] by auto

lemma next_bitset: "is_bitset p B \<Longrightarrow> is_bitset p (B + bitset_stride p)"
  by (auto simp: is_bitset_def)
    (metis One_nat_def Suc_leI add_diff_assoc2 mod_add_self2 mod_0_imp_dvd mod_eq_0_iff_dvd)

text \<open>Two pagers a client cannot tell apart by reading below \<open>n\<close>.\<close>

lemma allocated_in:
  assumes "is_bitset p B" "k < bits_of p"
  shows "allocated p (B + 1 + k) \<longleftrightarrow> B < page_count (hdr p) \<and>
    (\<exists>bs. cur_page p B = Some bs \<and> bitset_bit bs k)"
  using bitset_page_of_in [OF assms] by (auto simp: allocated_def Let_def split: option.splits)

section \<open>Growing the database\<close>

lemma tx_inv_count:
  assumes "tx_inv b g p w Pg" "n * psize p < 2 ^ 63"
  shows "n \<le> header_idx"
proof -
  have "0 < psize p" using assms(1) by (simp add: tx_inv_def header_inv_def)
  then have "n \<le> n * psize p" by simp
  then have "n < 2 ^ 63" using assms(2) by (rule le_less_trans)
  then show ?thesis by (simp add: header_idx_def)
qed

lemma grown_tx_inv:
  assumes tx: "tx_inv b g p w Pg" and n: "page_count (saved_hdr p) \<le> n" "n * psize p < 2 ^ 63"
    and dirty: "\<And>i. page_count (hdr p) \<le> i \<Longrightarrow> 0 < i \<Longrightarrow> i < n \<Longrightarrow> is_dirty p i"
  shows "tx_inv b (g @ [DbResize n]) (io [DbResize n] (set_page_count n p)) w Pg"
proof -
  have "tx_inv b g (set_page_count n p) w Pg"
    unfolding set_page_count_def
    by (rule header_tx_inv [OF tx]) (use n dirty tx_inv_count [OF tx n(2)] in simp_all)
  from resize_tx_inv [OF this, of n] show ?thesis using n(1) by (simp add: set_page_count_def)
qed

lemma grow_file_eq:
  "grow_file p = Some q \<longleftrightarrow> page_count (hdr p) * psize p < 2 ^ 63 \<and>
     q = io [DbResize (page_count (hdr p))] p"
  by (auto simp: grow_file_def resize_event_def)

lemma grown_cur_page:
  assumes tx: "tx_inv b g p w Pg" and q: "tx_inv b g' q w Pg"
    and same: "cache q = cache p" "saved_hdr q = saved_hdr p" and i: "0 < i" "i < page_count (hdr p)"
  shows "cur_page q i = cur_page p i"
proof (cases "map_of (cache p) i")
  case None
  have "i < page_count (saved_hdr p)" by (rule miss_old [OF tx None i])
  moreover have "load_page p j = Some (Pg j)" if "0 < j" "j < page_count (saved_hdr p)" for j
    using undone_load [of b g p w Pg j] tx that by (simp add: tx_inv_alt)
  moreover have "load_page q j = Some (Pg j)" if "0 < j" "j < page_count (saved_hdr p)" for j
    using undone_load [of b g' q w Pg j] q same(2) that by (simp add: tx_inv_alt)
  ultimately show ?thesis using None same i by (simp add: cur_page_def)
next
  case (Some e)
  then show ?thesis using same by (simp add: cur_page_def)
qed

section \<open>Allocation\<close>

lemma ensure_page_zeroed_alt:
  "ensure_page_zeroed i p = cache_put i \<lparr>data = zero_page (psize p), dirty = True\<rparr> p"
  by (simp add: ensure_page_zeroed_def cache_put_def)

lemma zeroed_tx_inv: "tx_inv b g p w Pg \<Longrightarrow> tx_inv b g (ensure_page_zeroed i p) w Pg"
  unfolding ensure_page_zeroed_alt by (rule cache_put_tx_inv) simp_all

lemma set_page_count_sel [simp]:
  "hdr (set_page_count n p) = (hdr p)\<lparr>page_count := n\<rparr>" "cache (set_page_count n p) = cache p"
  "saved_hdr (set_page_count n p) = saved_hdr p" "trace (set_page_count n p) = trace p"
  "disk_of (set_page_count n p) = disk_of p" "wal_of (set_page_count n p) = wal_of p"
  "tx_waiters (set_page_count n p) = tx_waiters p"
  by (simp_all add: set_page_count_def)

lemma grown_commute:
  "cache_put i e (io es (set_page_count n p)) = io es (set_page_count n (cache_put i e p))"
  by (simp add: cache_put_def io_def set_page_count_def)

text \<open>What \<open>take_free_bit\<close> and \<open>append_bitset\<close> leave: two pages written, the database as long as needed.\<close>

definition allocates :: "disk \<Rightarrow> pager \<Rightarrow> wal \<Rightarrow> (nat \<Rightarrow> page) \<Rightarrow> nat \<Rightarrow> nat \<Rightarrow> page \<Rightarrow> pager \<Rightarrow> devent list \<Rightarrow> bool" where
  "allocates b p w Pg i B bs q g' \<longleftrightarrow>
     tx_inv b g' q w Pg \<and> saved_hdr q = saved_hdr p \<and> tx_waiters q = tx_waiters p \<and>
     hdr q = (hdr p)\<lparr>page_count := max (page_count (hdr p)) (i + 1)\<rparr> \<and>
     cur_page q B = Some bs \<and> cur_page q i = Some (zero_page (psize p)) \<and>
     (\<forall>j. 0 < j \<and> j < page_count (hdr p) \<and> j \<noteq> B \<and> j \<noteq> i \<longrightarrow> cur_page q j = cur_page p j)"

lemma allocates_intro:
  assumes tx: "tx_inv b g p w Pg" and saved: "page_count (saved_hdr p) \<le> page_count (hdr p)"
    and gap: "i \<le> page_count (hdr p) \<or> i = page_count (hdr p) + 1 \<and> B = page_count (hdr p)"
    and ne: "B \<noteq> i"
    and p': "p' = cache_put i \<lparr>data = zero_page (psize p), dirty = True\<rparr>
        (cache_put B \<lparr>data = bs, dirty = True\<rparr> p)"
    and q: "if page_count (hdr p) \<le> i then (i + 1) * psize p < 2 ^ 63 \<and>
        q = io [DbResize (i + 1)] (set_page_count (i + 1) p') \<and> es = [DbResize (i + 1)]
      else q = p' \<and> es = []"
  shows "allocates b p w Pg i B bs q (g @ es)" "trace q = trace p @ es"
proof -
  have tx': "tx_inv b g p' w Pg"
    unfolding p' by (intro cache_put_tx_inv tx) simp_all
  have sel: "hdr p' = hdr p" "saved_hdr p' = saved_hdr p" "trace p' = trace p"
    "tx_waiters p' = tx_waiters p"
    unfolding p' by (simp_all add: cache_put_def)
  have cur: "cur_page p' B = Some bs" "cur_page p' i = Some (zero_page (psize p))"
    "j \<noteq> B \<Longrightarrow> j \<noteq> i \<Longrightarrow> cur_page p' j = cur_page p j" for j
    using ne unfolding p' by simp_all
  have "allocates b p w Pg i B bs q (g @ es) \<and> trace q = trace p @ es"
  proof (cases "page_count (hdr p) \<le> i")
    case True
    then have q': "q = io [DbResize (i + 1)] (set_page_count (i + 1) p')" "es = [DbResize (i + 1)]"
      "(i + 1) * psize p < 2 ^ 63" using q by simp_all
    have fresh: "j = i \<or> j = B" if "page_count (hdr p) \<le> j" "j < i + 1" for j using gap that by linarith
    have txq: "tx_inv b (g @ es) q w Pg"
      unfolding q'(1,2)
      by (rule grown_tx_inv [OF tx']) (use saved True sel q'(3) fresh in \<open>auto simp: p'\<close>)
    have same: "cache q = cache p'" "saved_hdr q = saved_hdr p'" "tx_waiters q = tx_waiters p"
      "trace q = trace p @ es" "hdr q = (hdr p)\<lparr>page_count := i + 1\<rparr>"
      unfolding q' by (simp_all add: set_page_count_def sel)
    have cached: "map_of (cache p') B \<noteq> None" "map_of (cache p') i \<noteq> None"
      unfolding p' by simp_all
    then have "cur_page q B = cur_page p' B" "cur_page q i = cur_page p' i"
      using same(1) by (auto simp: cur_page_def)
    moreover have "cur_page q j = cur_page p' j" if "0 < j" "j < page_count (hdr p)" for j
      using grown_cur_page [OF tx' txq same(1,2)] that sel by simp
    ultimately show ?thesis
      using txq same cur sel True by (simp add: allocates_def max_def)
  next
    case False
    then show ?thesis using q tx' cur sel by (simp add: allocates_def max_def)
  qed
  then show "allocates b p w Pg i B bs q (g @ es)" "trace q = trace p @ es" by simp_all
qed

lemma dirty_put_page:
  assumes "is_dirty p B"
  shows "put_page B bs p = cache_put B \<lparr>data = bs, dirty = True\<rparr> p"
proof -
  obtain e where "map_of (cache p) B = Some e" "dirty e"
    using assms by (auto simp: is_dirty_def split: option.splits)
  then show ?thesis by (cases e) (simp add: put_page_alt)
qed

lemma take_free_bit_allocates:
  assumes tx: "tx_inv b g p w Pg" and saved: "page_count (saved_hdr p) \<le> page_count (hdr p)"
    and B: "is_dirty p B" "cur_page p B = Some bs" "B < page_count (hdr p)"
    and e: "free_entry n bs = Some e"
    and full: "\<And>k. k < 64 * n \<Longrightarrow> bitset_bit bs k \<Longrightarrow> B + 1 + k < page_count (hdr p)"
    and t: "take_free_bit p B bs e = Some (i, q)"
  shows "\<exists>es. allocates b p w Pg i B (bs[e := bs ! e OR push_bit (count_trailing_zeros (NOT (bs ! e))) 1]) q (g @ es) \<and>
    trace q = trace p @ es \<and> i = B + 1 + free_bit bs e \<and> i \<le> page_count (hdr p)"
proof -
  note fb = free_bit_spec [OF e]
  let ?bs = "bs[e := bs ! e OR push_bit (count_trailing_zeros (NOT (bs ! e))) 1]"
  let ?p1 = "cache_put B \<lparr>data = ?bs, dirty = True\<rparr> p"
  let ?p' = "cache_put i \<lparr>data = zero_page (psize p), dirty = True\<rparr> ?p1"
  have put: "put_page B ?bs p = ?p1" using dirty_put_page [OF B(1)] .
  have t': "i = B + 1 + free_bit bs e"
    "(if page_count (hdr p) \<le> i then (i + 1) * psize p < 2 ^ 63 \<and>
        q = io [DbResize (i + 1)] (set_page_count (i + 1) ?p') else q = ?p')"
    using t unfolding take_free_bit_def put Let_def
    by (auto simp: bind_eq_Some_conv grow_file_eq ensure_page_zeroed_alt free_bit_def
        grown_commute split: if_splits)
  have "i \<le> page_count (hdr p)"
  proof (cases "free_bit bs e")
    case 0
    then show ?thesis using t'(1) B(3) by simp
  next
    case (Suc k)
    then show ?thesis using full [of k] fb(1) fb(3) [of k] t'(1) by simp
  qed
  then have le: "i \<le> page_count (hdr p)" .
  let ?es = "if page_count (hdr p) \<le> i then [DbResize (i + 1)] else []"
  have "i \<le> page_count (hdr p) \<or> i = page_count (hdr p) + 1 \<and> B = page_count (hdr p)" "B \<noteq> i"
    using le t'(1) by simp_all
  moreover have "if page_count (hdr p) \<le> i then (i + 1) * psize p < 2 ^ 63 \<and>
      q = io [DbResize (i + 1)] (set_page_count (i + 1) ?p') \<and> ?es = [DbResize (i + 1)]
    else q = ?p' \<and> ?es = []"
    using t'(2) by meson
  ultimately show ?thesis using allocates_intro [OF tx saved _ _ refl] t'(1) le by blast
qed

lemma update_twice: "AList.update k v (AList.update k u al) = AList.update k v al"
  by (induction al) auto

lemma cache_put_twice: "cache_put i e (cache_put i d p) = cache_put i e p"
  by (simp add: cache_put_def update_twice)

text \<open>The pager \<open>append_bitset\<close> reads its fresh bitset page from.\<close>

definition grown :: "pager \<Rightarrow> pager" where
  "grown p = io [DbResize (page_count (hdr p) + 2)] (set_page_count (page_count (hdr p) + 2) p)"

lemma append_bitset_allocates:
  assumes tx: "tx_inv b g p w Pg" and saved: "page_count (saved_hdr p) \<le> page_count (hdr p)"
    and a: "append_bitset p = Some (i, q)"
  shows "\<exists>bs. cur_page (grown p) (page_count (hdr p)) = Some bs \<and> i = page_count (hdr p) + 1 \<and>
    (page_count (hdr p) - 1) mod bitset_stride p = 0 \<and>
    allocates b p w Pg i (page_count (hdr p)) (bs[0 := bs ! 0 OR 1]) q (g @ [DbResize (i + 1)]) \<and>
    trace q = trace p @ [DbResize (i + 1)]"
proof -
  let ?B = "page_count (hdr p)"
  obtain bs r where bs: "(?B - 1) mod bitset_stride p = 0" "(?B + 2) * psize p < 2 ^ 63"
    "rwpage (grown p) ?B = Some (bs, r)" "i = ?B + 1"
    "q = ensure_page_zeroed i (put_page ?B (bs[0 := bs ! 0 OR 1]) r)"
    using a by (auto simp: append_bitset_def bind_eq_Some_conv grow_file_eq grown_def Let_def split: if_splits)
  note rw = rwpage_eq [OF bs(3)]
  have "is_dirty r ?B" using rw by simp
  from dirty_put_page [OF this] have put: "put_page ?B (bs[0 := bs ! 0 OR 1]) r =
      cache_put ?B \<lparr>data = bs[0 := bs ! 0 OR 1], dirty = True\<rparr> (grown p)"
    using rw by (simp add: cache_put_twice)
  let ?p' = "cache_put i \<lparr>data = zero_page (psize p), dirty = True\<rparr>
      (cache_put ?B \<lparr>data = bs[0 := bs ! 0 OR 1], dirty = True\<rparr> p)"
  have q: "q = io [DbResize (i + 1)] (set_page_count (i + 1) ?p')"
    unfolding bs(5) put ensure_page_zeroed_alt by (simp add: grown_def grown_commute bs(4))
  have gap: "i \<le> ?B \<or> i = ?B + 1 \<and> ?B = ?B" "?B \<noteq> i" and le: "?B \<le> i"
    using bs(4) by simp_all
  have sz: "(i + 1) * psize p < 2 ^ 63" using bs(2) unfolding bs(4) by simp
  have "if page_count (hdr p) \<le> i then (i + 1) * psize p < 2 ^ 63 \<and>
      q = io [DbResize (i + 1)] (set_page_count (i + 1) ?p') \<and> [DbResize (i + 1)] = [DbResize (i + 1)]
    else q = ?p' \<and> [DbResize (i + 1)] = []"
    unfolding if_P [OF le] by (intro conjI sz q refl)
  note ai = allocates_intro [OF tx saved gap refl this]
  have "cur_page (grown p) ?B = Some bs" using rw by blast
  then show ?thesis by (intro exI [of _ bs] conjI ai bs(1,4))
qed

text \<open>The scan only reads, and marks bitset pages dirty.\<close>

definition same_view :: "pager \<Rightarrow> pager \<Rightarrow> bool" where
  "same_view p q \<longleftrightarrow> hdr q = hdr p \<and> saved_hdr q = saved_hdr p \<and> cur_page q = cur_page p \<and>
     trace q = trace p \<and> disk_of q = disk_of p \<and> wal_of q = wal_of p \<and>
     tx_waiters q = tx_waiters p \<and>
     (\<forall>i\<ge>page_count (hdr p). map_of (cache q) i = map_of (cache p) i)"

lemma rwpage_same_view:
  assumes "rwpage p i = Some (pg, q)"
  shows "same_view p q" "is_dirty q i" "cur_page p i = Some pg"
  using rwpage_eq [OF assms] page_guardD(2) [OF assms]
  by (auto simp: same_view_def fun_eq_iff page_guard_def)

lemma scan_bitsets_spec:
  assumes "scan_bitsets n ents p B = Some (found, q)" "tx_inv b g p w Pg"
    "ents = bitset_entry_count p" "is_bitset p B"
  shows "\<exists>p1. same_view p p1 \<and> tx_inv b g p1 w Pg \<and>
    (case found of
       None \<Rightarrow> q = p1 \<and> (\<forall>C bs. is_bitset p C \<and> B \<le> C \<and> C < n \<and> cur_page p C = Some bs \<longrightarrow> free_entry ents bs = None)
     | Some i \<Rightarrow> \<exists>C bs e. is_bitset p C \<and> B \<le> C \<and> C < n \<and> is_dirty p1 C \<and> cur_page p C = Some bs \<and>
         free_entry ents bs = Some e \<and> take_free_bit p1 C bs e = Some (i, q))"
  using assms
proof (induction n ents p B rule: scan_bitsets.induct)
  case (1 n ents p B)
  show ?case
  proof (cases "B < n")
    case False
    then have "found = None" "q = p" using "1.prems"(1) by (simp_all add: scan_bitsets.simps [of n ents p B])
    then show ?thesis using False "1.prems"(2) by (intro exI [of _ p]) (auto simp: same_view_def)
  next
    case True
    obtain bs p1 where rw: "rwpage p B = Some (bs, p1)"
      using "1.prems"(1) True by (auto simp: scan_bitsets.simps [of n ents p B] bind_eq_Some_conv)
    note view = rwpage_same_view [OF rw] and tx1 = rwpage_tx_inv [OF "1.prems"(2) rw]
    show ?thesis
    proof (cases "free_entry ents bs")
      case (Some e)
      then obtain i where "found = Some i" "take_free_bit p1 B bs e = Some (i, q)"
        using "1.prems"(1) True rw
        by (auto simp: scan_bitsets.simps [of n ents p B] bind_eq_Some_conv)
      then show ?thesis using view tx1 Some True "1.prems"(4) by fastforce
    next
      case None
      have rec: "scan_bitsets n ents p1 (B + bitset_stride p) = Some (found, q)"
        using "1.prems"(1) [unfolded scan_bitsets.simps [of n ents p B]] True rw None
        by (simp add: bitset_stride_def "1.prems"(3))
      have same: "is_bitset p1 C = is_bitset p C" "bitset_entry_count p1 = bitset_entry_count p"
        "cur_page p1 = cur_page p" for C
        using view(1) by (simp_all add: same_view_def is_bitset_def bitset_stride_def bitset_entry_count_def)
      have prems: "ents = bitset_entry_count p1" "is_bitset p1 (B + bitset_stride p)"
        using "1.prems"(3,4) same(2) next_bitset [OF "1.prems"(4)] by (simp_all add: same(1))
      have stride: "bitset_stride p = ents * pages_per_entry + 1"
        using "1.prems"(3) by (simp add: bitset_stride_def)
      have IH: "\<exists>p2. same_view p1 p2 \<and> tx_inv b g p2 w Pg \<and>
        (case found of
           None \<Rightarrow> q = p2 \<and> (\<forall>C bs. is_bitset p1 C \<and> B + bitset_stride p \<le> C \<and> C < n \<and> cur_page p1 C = Some bs \<longrightarrow> free_entry ents bs = None)
         | Some i \<Rightarrow> \<exists>C bs e. is_bitset p1 C \<and> B + bitset_stride p \<le> C \<and> C < n \<and> is_dirty p2 C \<and> cur_page p1 C = Some bs \<and>
             free_entry ents bs = Some e \<and> take_free_bit p2 C bs e = Some (i, q))"
        by (rule "1.IH" [OF True rw refl None, folded stride, OF rec tx1 prems])
      then obtain p2 where p2: "same_view p1 p2" "tx_inv b g p2 w Pg" and
        res: "case found of
           None \<Rightarrow> q = p2 \<and> (\<forall>C bs. is_bitset p C \<and> B + bitset_stride p \<le> C \<and> C < n \<and> cur_page p C = Some bs \<longrightarrow> free_entry ents bs = None)
         | Some i \<Rightarrow> \<exists>C bs e. is_bitset p C \<and> B + bitset_stride p \<le> C \<and> C < n \<and> is_dirty p2 C \<and> cur_page p C = Some bs \<and>
             free_entry ents bs = Some e \<and> take_free_bit p2 C bs e = Some (i, q)"
        unfolding same by blast
      have v2: "same_view p p2" using view(1) p2(1) by (simp add: same_view_def)
      have gap: "C = B \<or> B + bitset_stride p \<le> C" if "is_bitset p C" "B \<le> C" for C
      proof (rule ccontr)
        assume "\<not> ?thesis"
        then have "C = B + 1 + (C - B - 1)" "C - B - 1 < bits_of p"
          using that(2) unfolding bitset_stride_bits by linarith+
        then show False using bitset_not_inside [OF "1.prems"(4)] that(1) by metis
      qed
      show ?thesis
      proof (cases found)
        case None
        then show ?thesis
          using res v2 p2(2) gap \<open>free_entry ents bs = None\<close> view(3) by (intro exI [of _ p2]) force
      next
        case (Some i)
        then show ?thesis using res v2 p2(2) by (intro exI [of _ p2]) (auto dest: add_leD1)
      qed
    qed
  qed
qed

text \<open>One more bit in one bitset is one more page in use.\<close>

lemma same_size:
  assumes "psize q = psize p"
  shows "bitset_stride q = bitset_stride p" "bits_of q = bits_of p" "is_bitset q = is_bitset p"
    "bitset_page_of q = bitset_page_of p" "bitset_entry_count q = bitset_entry_count p"
  using assms
  by (auto simp: bitset_stride_def bits_of_def is_bitset_def bitset_page_of_def bitset_entry_count_def
      fun_eq_iff)

lemma allocate_effect:
  assumes al: "allocates b p w Pg i B bs' q g'" and B: "is_bitset p B" and i: "i = B + 1 + k" "k < bits_of p"
    and gap: "i \<le> page_count (hdr p) \<or> i = page_count (hdr p) + 1 \<and> B = page_count (hdr p)"
    and old: "B < page_count (hdr p) \<longrightarrow> cur_page p B = Some bs"
    and bits: "\<forall>j<bits_of p. bitset_bit bs' j \<longleftrightarrow> j = k \<or> B < page_count (hdr p) \<and> bitset_bit bs j"
  shows "allocated q j \<longleftrightarrow> j = i \<or> allocated p j"
    "alloc_ok p \<Longrightarrow> length bs' = bitset_entry_count p \<Longrightarrow> alloc_ok q"
proof -
  let ?n = "page_count (hdr p)" and ?n' = "max (page_count (hdr p)) (i + 1)"
  have hq: "hdr q = (hdr p)\<lparr>page_count := ?n'\<rparr>" and curB: "cur_page q B = Some bs'"
    and cur: "\<And>j. 0 < j \<Longrightarrow> j < ?n \<Longrightarrow> j \<noteq> B \<Longrightarrow> j \<noteq> i \<Longrightarrow> cur_page q j = cur_page p j"
    using al by (simp_all add: allocates_def)
  note sz = same_size [of q p, unfolded hq, simplified]
  have ni: "\<not> is_bitset p i" using bitset_not_inside [OF B i(2)] i(1) by simp
  have Bn: "B < ?n'" using i(1) by simp
  have other: "C < ?n' \<longleftrightarrow> C < ?n" "C < ?n \<Longrightarrow> cur_page q C = cur_page p C"
    if "is_bitset p C" "C \<noteq> B" for C
  proof -
    have "C \<noteq> i" "0 < C" using ni that by (auto simp: is_bitset_def)
    then show "C < ?n' \<longleftrightarrow> C < ?n" using gap that(2) by (auto simp: max_def)
    show "C < ?n \<Longrightarrow> cur_page q C = cur_page p C" using cur \<open>C \<noteq> i\<close> \<open>0 < C\<close> that(2) by simp
  qed
  show "allocated q j \<longleftrightarrow> j = i \<or> allocated p j"
  proof (cases "bitset_page_of p j = B \<and> B < j")
    case True
    then obtain k' where k': "j = B + 1 + k'" "k' < bits_of p"
      using page_of_split [of j p] by (metis not_less_zero gr0I)
    have "allocated q j \<longleftrightarrow> bitset_bit bs' k'"
      using allocated_in [of q B k'] sz B k' Bn curB hq by simp
    moreover have "allocated p j \<longleftrightarrow> B < ?n \<and> bitset_bit bs k'"
      using allocated_in [OF B k'(2)] k'(1) old by auto
    ultimately show ?thesis using bits k' i(1) by auto
  next
    case False
    then have "j \<noteq> i" using bitset_page_of_in [OF B i(2)] i(1) by auto
    then show ?thesis
      using False other [of "bitset_page_of p j"] hq
      by (auto simp: allocated_def Let_def sz split: option.splits)
  qed
  show "alloc_ok q" if ok: "alloc_ok p" and len: "length bs' = bitset_entry_count p"
    unfolding alloc_ok_def sz
  proof (intro conjI allI impI)
    show "0 < bitset_entry_count p" "0 < page_count (hdr q)" using ok hq by (simp_all add: alloc_ok_def)
    fix C assume C: "is_bitset p C \<and> C < page_count (hdr q)"
    show "\<exists>bs. cur_page q C = Some bs \<and> length bs = bitset_entry_count p \<and>
        (\<forall>k<bits_of p. bitset_bit bs k \<longrightarrow> C + 1 + k < page_count (hdr q))"
    proof (cases "C = B")
      case True
      have "B + 1 + k' < ?n'" if "k' < bits_of p" "bitset_bit bs' k'" for k'
      proof (cases "k' = k")
        case False
        then have "B < ?n" "bitset_bit bs k'" using bits that by auto
        then have "B + 1 + k' < ?n" using ok B old that(1) unfolding alloc_ok_def by force
        then show ?thesis by simp
      qed (use i(1) in simp)
      then show ?thesis using True curB len hq by simp
    next
      case False
      have "is_bitset p C" "C < ?n'" using C unfolding hq by simp_all
      then have "C < ?n" using other(1) False by blast
      then show ?thesis
        using ok C other(2) [of C] False hq unfolding alloc_ok_def
        by (metis less_max_iff_disj pager_header.select_convs(3) pager_header.surjective pager_header.update_convs(3))
    qed
  qed
qed

definition fresh_zero :: "pager \<Rightarrow> bool" where
  "fresh_zero p \<longleftrightarrow>
     (let n = page_count (hdr p); ps = db_pages (db (disk_of p)) in
      map_of (cache p) n = None \<and> find_frame p n = None \<and>
      (n < length ps \<longrightarrow> ps ! n = zero_page (psize p)))"

lemma fresh_zero_page:
  assumes "fresh_zero p"
  shows "cur_page (grown p) (page_count (hdr p)) = Some (zero_page (psize p))"
  using assms
  by (simp add: fresh_zero_def Let_def grown_def cur_page_def load_page_def find_frame_def file_page_def
      resize_pages_nth split: option.splits)

lemma same_view_fields:
  assumes "same_view p p1"
  shows "hdr p1 = hdr p" "saved_hdr p1 = saved_hdr p" "cur_page p1 = cur_page p" "trace p1 = trace p"
    "disk_of p1 = disk_of p" "wal_of p1 = wal_of p" "tx_waiters p1 = tx_waiters p"
  using assms by (simp_all add: same_view_def)

lemma same_view_grown:
  assumes "same_view p p1"
  shows "cur_page (grown p1) (page_count (hdr p)) = cur_page (grown p) (page_count (hdr p))"
proof -
  note v = same_view_fields [OF assms]
  have "map_of (cache p1) (page_count (hdr p)) = map_of (cache p) (page_count (hdr p))"
    using assms by (simp add: same_view_def)
  moreover have "load_page (grown p1) i = load_page (grown p) i" for i
    by (rule load_page_cong) (simp_all add: grown_def v)
  moreover have "cache (grown x) = cache x" for x by (simp add: grown_def)
  ultimately show ?thesis by (simp add: cur_page_def split: option.splits)
qed

lemma same_view_allocates: "same_view p p1 \<Longrightarrow> allocates b p1 w Pg i B bs q g \<Longrightarrow> allocates b p w Pg i B bs q g"
  by (simp add: allocates_def same_view_def)

lemma zero_page_bit [simp]: "k < 64 * (sz div 8) \<Longrightarrow> \<not> bitset_bit (zero_page sz) k"
  by (simp add: bitset_bit_def zero_page_def div_less_iff_less_mult mult.commute)

lemma free_bit_div_mod:
  assumes "free_entry n bs = Some e"
  shows "free_bit bs e div 64 = e" "free_bit bs e mod 64 = count_trailing_zeros (NOT (bs ! e))"
  using count_trailing_zeros_spec(1) [OF free_entry_spec(2) [OF assms]]
  by (simp_all add: free_bit_def pages_per_entry_def)

text \<open>The two ways to allocate: the first free bit of a bitset, or the first bit of a new one.\<close>

definition takes_bit :: "pager \<Rightarrow> nat \<Rightarrow> nat \<Rightarrow> page \<Rightarrow> page \<Rightarrow> bool" where
  "takes_bit p B k bs bs' \<longleftrightarrow> B < page_count (hdr p) \<and> B + 1 + k \<le> page_count (hdr p) \<and>
     cur_page p B = Some bs \<and> \<not> bitset_bit bs k \<and>
     bs' = bs[k div 64 := bs ! (k div 64) OR push_bit (k mod 64) 1]"

definition adds_bitset :: "pager \<Rightarrow> nat \<Rightarrow> nat \<Rightarrow> page \<Rightarrow> page \<Rightarrow> bool" where
  "adds_bitset p B k bs bs' \<longleftrightarrow> B = page_count (hdr p) \<and> k = 0 \<and>
     cur_page (grown p) B = Some bs \<and> bs' = bs[0 := bs ! 0 OR 1]"

lemma new_page_allocates:
  assumes np: "new_page p = Some (i, q)" and tx: "tx_inv b g p w Pg"
    and saved: "page_count (saved_hdr p) \<le> page_count (hdr p)" and ok: "alloc_ok p"
  obtains es B k bs bs' where "allocates b p w Pg i B bs' q (g @ es)" "trace q = trace p @ es"
    "is_bitset p B" "i = B + 1 + k" "k < bits_of p" "takes_bit p B k bs bs'"
  | es B bs bs' where "allocates b p w Pg i B bs' q (g @ es)" "trace q = trace p @ es"
    "is_bitset p B" "i = B + 1" "adds_bitset p B 0 bs bs'"
proof -
  let ?n = "page_count (hdr p)"
  obtain found q1 where sc: "scan_bitsets ?n (bitset_entry_count p) p 1 = Some (found, q1)"
    and rest: "(case found of Some pg \<Rightarrow> Some (pg, q1) | None \<Rightarrow> append_bitset q1) = Some (i, q)"
    using np by (auto simp: new_page_def bind_eq_Some_conv split: if_splits)
  have "is_bitset p 1" by (simp add: is_bitset_def)
  from scan_bitsets_spec [OF sc tx refl this] obtain p1 where
    view: "same_view p p1" and tx1: "tx_inv b g p1 w Pg" and
    res: "case found of
       None \<Rightarrow> q1 = p1 \<and> (\<forall>C bs. is_bitset p C \<and> 1 \<le> C \<and> C < ?n \<and> cur_page p C = Some bs \<longrightarrow>
         free_entry (bitset_entry_count p) bs = None)
     | Some i \<Rightarrow> \<exists>C bs e. is_bitset p C \<and> 1 \<le> C \<and> C < ?n \<and> is_dirty p1 C \<and> cur_page p C = Some bs \<and>
         free_entry (bitset_entry_count p) bs = Some e \<and> take_free_bit p1 C bs e = Some (i, q1)"
    by blast
  note v = same_view_fields [OF view]
  show thesis
  proof (cases found)
    case None
    then have ap: "append_bitset p1 = Some (i, q)" using res rest by simp
    have s1: "page_count (saved_hdr p1) \<le> page_count (hdr p1)" using saved v by simp
    obtain bs where bs: "cur_page (grown p) ?n = Some bs" "i = ?n + 1"
      "(?n - 1) mod bitset_stride p = 0"
      "allocates b p1 w Pg i ?n (bs[0 := bs ! 0 OR 1]) q (g @ [DbResize (i + 1)])"
      "trace q = trace p @ [DbResize (i + 1)]"
      using append_bitset_allocates [OF tx1 s1 ap] v same_view_grown [OF view]
        same_size(1) [of p1 p] by auto
    show thesis
      by (rule that(2) [OF same_view_allocates [OF view bs(4)] bs(5)])
        (use bs ok in \<open>simp_all add: is_bitset_def alloc_ok_def adds_bitset_def\<close>)
  next
    case (Some j)
    then obtain C bs e where C: "is_bitset p C" "C < ?n" "is_dirty p1 C" "cur_page p C = Some bs"
      "free_entry (bitset_entry_count p) bs = Some e" "take_free_bit p1 C bs e = Some (i, q)"
      using res rest by auto
    have full: "C + 1 + k < ?n" if "k < 64 * bitset_entry_count p" "bitset_bit bs k" for k
      using ok C(1,2,4) that unfolding alloc_ok_def bits_of_def by force
    let ?bs = "bs[e := bs ! e OR push_bit (count_trailing_zeros (NOT (bs ! e))) 1]"
    obtain es where es: "allocates b p1 w Pg i C ?bs q (g @ es)" "trace q = trace p1 @ es"
      "i = C + 1 + free_bit bs e" "i \<le> page_count (hdr p1)"
      using take_free_bit_allocates [OF tx1 _ C(3) _ _ C(5) _ C(6)] saved full C v by auto
    note dm = free_bit_div_mod [OF C(5)] and fb = free_bit_spec [OF C(5)]
    show thesis
      by (rule that(1) [OF same_view_allocates [OF view es(1)] _ C(1) es(3)])
        (use es fb C dm v in \<open>simp_all add: takes_bit_def bits_of_def del: push_bit_of_1\<close>)
  qed
qed

section \<open>Trimming\<close>

lemma count_leading_zeros_spec:
  fixes x :: u64
  assumes "x \<noteq> 0"
  shows "count_leading_zeros x < 64" "bit x (63 - count_leading_zeros x)"
    "j < 64 \<Longrightarrow> 63 - count_leading_zeros x < j \<Longrightarrow> \<not> bit x j"
proof -
  obtain n where n: "bit x n" using assms by (auto simp: bit_eq_iff)
  have n64: "n < 64" using n bit_imp_le_length [of x n] by simp
  define k where "k = (LEAST k. k < 64 \<and> bit x (63 - k))"
  have ex: "63 - n < 64 \<and> bit x (63 - (63 - n))" using n n64 by simp
  have k: "k < 64" "bit x (63 - k)" "\<And>j. j < k \<Longrightarrow> \<not> bit x (63 - j)"
    unfolding k_def using LeastI [of "\<lambda>k. k < 64 \<and> bit x (63 - k)", OF ex]
      not_less_Least [of _ "\<lambda>k. k < 64 \<and> bit x (63 - k)"] by fastforce+
  have rev: "rev [0..<64] = map (\<lambda>i. 63 - i) [0..<64]" by (simp add: rev_map upt_rec)
  have "count_leading_zeros x = k"
    unfolding count_leading_zeros_def rev takeWhile_map using k
    by (simp add: comp_def, intro length_takeWhile_upt) auto
  then show "count_leading_zeros x < 64" "bit x (63 - count_leading_zeros x)" using k by simp_all
  assume "j < 64" "63 - count_leading_zeros x < j"
  then show "\<not> bit x j" using k(3) [of "63 - j"] \<open>count_leading_zeros x = k\<close> by simp
qed

lemma last_used_spec:
  "case last_used bs e of
     Some (e', occ) \<Rightarrow> e' \<le> e \<and> 0 < occ \<and> occ \<le> 64 \<and> bit (bs ! e') (occ - 1) \<and>
       (\<forall>j<64. occ \<le> j \<longrightarrow> \<not> bit (bs ! e') j) \<and> (\<forall>e''. e' < e'' \<and> e'' \<le> e \<longrightarrow> bs ! e'' = 0)
   | None \<Rightarrow> \<forall>e'\<le>e. bs ! e' = 0"
proof (induction e)
  case 0
  show ?case
    using count_leading_zeros_spec [of "bs ! 0"] by (auto simp: last_used.simps pages_per_entry_def)
next
  case (Suc e)
  show ?case
  proof (cases "bs ! Suc e = 0")
    case True
    then have "last_used bs (Suc e) = last_used bs e" by (simp add: last_used.simps)
    then show ?thesis
      using Suc True by (auto split: option.splits simp: le_Suc_eq)
  next
    case False
    then show ?thesis
      using count_leading_zeros_spec [of "bs ! Suc e"] by (auto simp: last_used.simps pages_per_entry_def)
  qed
qed

lemma trimmed_count_spec:
  assumes high: "\<And>k. k < 64 * ents \<Longrightarrow> bitset_bit bs k \<Longrightarrow> k < 64 * (e + 1)" and e: "e < ents"
  shows "k < 64 * ents \<Longrightarrow> bitset_bit bs k \<Longrightarrow> B + 1 + k < trimmed_count B bs e"
    "trimmed_count B bs e = B \<or> (\<exists>k<64 * ents. bitset_bit bs k \<and> trimmed_count B bs e = B + 2 + k)"
proof -
  show "B + 1 + k < trimmed_count B bs e" if k: "k < 64 * ents" "bitset_bit bs k"
  proof -
    have le: "k div 64 \<le> e" using high [OF k] by (simp add: less_mult_imp_div_less)
    have kb: "bit (bs ! (k div 64)) (k mod 64)" using k(2) by (simp add: bitset_bit_def)
    show ?thesis
    proof (cases "last_used bs e")
      case None
      then show ?thesis using last_used_spec [where bs = bs and e = e] le kb by simp
    next
      case (Some x)
      obtain e' occ where x: "x = (e', occ)" by (cases x)
      have lu: "\<forall>j<64. occ \<le> j \<longrightarrow> \<not> bit (bs ! e') j" "\<forall>e''. e' < e'' \<and> e'' \<le> e \<longrightarrow> bs ! e'' = 0" "0 < occ"
        using last_used_spec [where bs = bs and e = e] Some x by simp_all
      have "k div 64 \<le> e'" using lu(2) le kb by (metis bit_0_eq bot_apply bot_bool_def not_le)
      moreover have "k div 64 = e' \<Longrightarrow> k mod 64 < occ" using lu(1) kb by (metis mod_less_divisor not_le zero_less_numeral)
      ultimately have "k < 64 * e' + occ"
        using mult_div_mod_eq [of 64 k] lu(3) by (cases "k div 64 = e'") auto
      then show ?thesis using Some x by (simp add: trimmed_count_def pages_per_entry_def)
    qed
  qed
  show "trimmed_count B bs e = B \<or> (\<exists>k<64 * ents. bitset_bit bs k \<and> trimmed_count B bs e = B + 2 + k)"
  proof (cases "last_used bs e")
    case None
    then show ?thesis by (simp add: trimmed_count_def)
  next
    case (Some x)
    obtain e' occ where x: "x = (e', occ)" by (cases x)
    have lu: "e' \<le> e" "0 < occ" "occ \<le> 64" "bit (bs ! e') (occ - 1)"
      using last_used_spec [where bs = bs and e = e] Some x by simp_all
    let ?k = "64 * e' + (occ - 1)"
    have o: "occ - 1 < 64" using lu(2,3) by simp
    have "?k div 64 = e'" "?k mod 64 = occ - 1"
      using o by (simp_all only: div_mult_self4 mod_mult_self4 div_less mod_less add_0_right zero_neq_numeral not_False_eq_True)
    then have "bitset_bit bs ?k" using lu(4) by (simp only: bitset_bit_def)
    moreover have "?k < 64 * ents" using lu e by linarith
    moreover have "trimmed_count B bs e = B + 2 + ?k"
      using Some x lu(2) by (simp add: trimmed_count_def pages_per_entry_def)
    ultimately show ?thesis by blast
  qed
qed

text \<open>The header is marked after the trim; marking it before makes no difference.\<close>

definition marked :: "pager \<Rightarrow> pager" where
  "marked p = p\<lparr>header_in_write_set := True\<rparr>"

lemma rpage_marked:
  assumes "rpage p i = Some (pg, q)"
  shows "rpage (marked p) i = Some (pg, marked q)"
proof -
  have l: "load_page (marked p) i = load_page p i" by (rule load_page_cong) (simp_all add: marked_def)
  from assms show ?thesis
    by (cases rule: rpage_cases)
      (use page_guardD(1) [OF assms] l in \<open>auto simp: rpage_def marked_def page_guard_def cache_put_def\<close>)
qed

lemma trim_pages_marked:
  "trim_pages ents p B bs e = Some t \<Longrightarrow> trim_pages ents (marked p) B bs e = Some (marked t)"
proof (induction ents p B bs e arbitrary: t rule: trim_pages.induct)
  case (1 ents p B bs e)
  let ?n = "trimmed_count B bs e" and ?s = "ents * pages_per_entry + 1"
  let ?q = "p\<lparr>hdr := (hdr p)\<lparr>page_count := ?n\<rparr>\<rparr>"
  have m: "(marked p)\<lparr>hdr := (hdr (marked p))\<lparr>page_count := ?n\<rparr>\<rparr> = marked ?q"
    by (simp add: marked_def)
  show ?case
  proof (cases "?n \<noteq> B \<or> ?n \<le> ?s")
    case True
    then show ?thesis using "1.prems" m by (simp add: trim_pages.simps [of ents _ B bs e] Let_def)
  next
    case False
    obtain bs' r where r: "rpage ?q (B - ?s) = Some (bs', r)"
      "trim_pages ents r (B - ?s) bs' (ents - 1) = Some t"
      using "1.prems" [unfolded trim_pages.simps [of ents p B bs e]] False
      by (auto simp: Let_def bind_eq_Some_conv)
    from "1.IH" [OF refl refl refl False r(1) refl r(2)] rpage_marked [OF r(1)] False m
    show ?thesis by (simp add: trim_pages.simps [of ents "marked p" B bs e] Let_def)
  qed
qed

lemma bitset_gap:
  assumes "is_bitset p B" "is_bitset p C" "B < C"
  shows "B + bitset_stride p \<le> C"
proof (rule ccontr)
  assume "\<not> ?thesis"
  then have "C = B + 1 + (C - B - 1)" "C - B - 1 < bits_of p"
    using assms(3) unfolding bitset_stride_bits by linarith+
  then show False using bitset_not_inside [OF assms(1)] assms(2) by metis
qed

lemma prev_bitset:
  assumes "is_bitset p B" "bitset_stride p < B"
  shows "is_bitset p (B - bitset_stride p)"
proof -
  let ?s = "bitset_stride p"
  obtain m where m: "B - 1 = ?s * m" using assms(1) by (auto simp: is_bitset_def)
  then have "B - ?s - 1 = ?s * (m - 1)" by (simp add: diff_mult_distrib2 diff_commute)
  then show ?thesis using assms(2) by (simp add: is_bitset_def)
qed

text \<open>Cutting the database after its last used page, of the last bitset.\<close>

lemma cut_ok:
  assumes tx: "tx_inv b g p w Pg" and m: "header_in_write_set p" and ok: "alloc_ok p"
    and B: "is_bitset p B" "B < page_count (hdr p)" "page_count (hdr p) \<le> B + bitset_stride p"
      "cur_page p B = Some bs"
    and n: "\<And>k. k < bits_of p \<Longrightarrow> bitset_bit bs k \<Longrightarrow> B + 1 + k < n"
      "n = B \<or> (\<exists>k<bits_of p. bitset_bit bs k \<and> n = B + 2 + k)" "n \<noteq> B \<or> 0 < n"
    and q: "q = p\<lparr>hdr := (hdr p)\<lparr>page_count := n\<rparr>\<rparr>"
  shows "tx_inv b g q w Pg" "n \<le> page_count (hdr p)" "cur_page q = cur_page p" "alloc_ok q"
    "allocated q = allocated p"
proof -
  show le: "n \<le> page_count (hdr p)"
    using n(2) B ok unfolding alloc_ok_def by force
  have q': "q = p\<lparr>hdr := (hdr p)\<lparr>page_count := n\<rparr>, header_in_write_set := True\<rparr>"
    using m q by simp
  have "header_inv p" using tx by (simp add: tx_inv_def)
  then have "n \<le> header_idx" "n * psize p < 2 ^ 63"
    using le mult_le_mono1 [OF le, of "psize p"] unfolding header_inv_def by linarith+
  then show "tx_inv b g q w Pg"
    unfolding q' by (intro header_tx_inv [OF tx]) (use le in auto)
  show cur: "cur_page q = cur_page p" by (rule cur_page_cong) (simp_all add: q)
  note sz = same_size [of q p, unfolded q, simplified, folded q]
  have n0: "0 < n" using n(2,3) by auto
  have inside: "C + 1 + k < n" if "is_bitset p C" "C < n" "cur_page p C = Some bs'" "k < bits_of p"
      "bitset_bit bs' k" for C k bs'
  proof (cases "C = B")
    case True
    then show ?thesis using n(1) that B(4) by simp
  next
    case False
    have "C < B" using bitset_gap [OF B(1) that(1)] that(2) le B(3) False by linarith
    then have "C + bitset_stride p \<le> B" using bitset_gap [OF that(1) B(1)] by simp
    moreover have "B \<le> n" using n(2) by auto
    ultimately show ?thesis using that(4) by (simp add: bitset_stride_bits)
  qed
  have hq: "page_count (hdr q) = n" by (simp add: q)
  show "alloc_ok q"
    unfolding alloc_ok_def sz cur hq
  proof (intro conjI allI impI)
    show "0 < bitset_entry_count p" using ok by (simp add: alloc_ok_def)
    show "0 < n" by (rule n0)
    fix C assume C: "is_bitset p C \<and> C < n"
    then obtain bs' where "cur_page p C = Some bs'" "length bs' = bitset_entry_count p"
      using ok le unfolding alloc_ok_def by (meson less_le_trans)
    then show "\<exists>bs. cur_page p C = Some bs \<and> length bs = bitset_entry_count p \<and>
        (\<forall>k<bits_of p. bitset_bit bs k \<longrightarrow> C + 1 + k < n)"
      using inside C by blast
  qed
  have "allocated q j = allocated p j" for j
  proof (cases "bitset_page_of p j < n \<or> \<not> bitset_page_of p j < page_count (hdr p)")
    case True
    then show ?thesis using le by (auto simp: allocated_def Let_def sz cur hq)
  next
    case False
    then have out: "n \<le> bitset_page_of p j" "bitset_page_of p j < page_count (hdr p)" by simp_all
    have "B \<le> n" using n(2) by auto
    then have "bitset_page_of p j = B"
      using bitset_gap [OF B(1) is_bitset_page_of, of j] out B(3) by linarith
    moreover have "\<not> bitset_bit bs k" if "k < bits_of p" for k
      using n(1) [OF that] out(1) calculation by auto
    ultimately have "\<not> allocated p j"
      using B(4) page_of_bounds [of j p] by (cases "j = 0") (auto simp: allocated_def Let_def)
    moreover have "\<not> allocated q j" using out(1) by (simp add: allocated_def Let_def sz hq)
    ultimately show ?thesis by simp
  qed
  then show "allocated q = allocated p" by blast
qed

lemma rpage_keeps:
  assumes "rpage p i = Some (pg, q)"
  shows "hdr q = hdr p" "saved_hdr q = saved_hdr p" "trace q = trace p" "tx_waiters q = tx_waiters p"
    "header_in_write_set q = header_in_write_set p"
  by (cases rule: rpage_cases [OF assms]; simp)+

definition trims :: "disk \<Rightarrow> devent list \<Rightarrow> wal \<Rightarrow> (nat \<Rightarrow> page) \<Rightarrow> pager \<Rightarrow> pager \<Rightarrow> bool" where
  "trims b g w Pg p t \<longleftrightarrow> tx_inv b g t w Pg \<and> alloc_ok t \<and> allocated t = allocated p \<and>
     cur_page t = cur_page p \<and> page_count (hdr t) \<le> page_count (hdr p) \<and> psize t = psize p \<and>
     saved_hdr t = saved_hdr p \<and> trace t = trace p \<and> tx_waiters t = tx_waiters p"

lemma trim_pages_ok:
  assumes "trim_pages ents p B bs e = Some t" "tx_inv b g p w Pg" "header_in_write_set p" "alloc_ok p"
    "is_bitset p B" "B < page_count (hdr p)" "page_count (hdr p) \<le> B + bitset_stride p"
    "cur_page p B = Some bs" "ents = bitset_entry_count p" "e < ents"
    "\<And>k. k < bits_of p \<Longrightarrow> bitset_bit bs k \<Longrightarrow> k < 64 * (e + 1)"
  shows "trims b g w Pg p t"
  using assms
proof (induction ents p B bs e arbitrary: t rule: trim_pages.induct)
  case (1 ents p B bs e)
  let ?n = "trimmed_count B bs e" and ?s = "ents * pages_per_entry + 1"
  let ?q = "p\<lparr>hdr := (hdr p)\<lparr>page_count := ?n\<rparr>\<rparr>"
  have s: "?s = bitset_stride p" and bits: "bits_of p = 64 * ents"
    using "1.prems"(9) by (simp_all add: bitset_stride_def bits_of_def)
  have n: "k < bits_of p \<Longrightarrow> bitset_bit bs k \<Longrightarrow> B + 1 + k < ?n"
    "?n = B \<or> (\<exists>k<bits_of p. bitset_bit bs k \<and> ?n = B + 2 + k)" for k
    using trimmed_count_spec [OF "1.prems"(11)] "1.prems"(10) bits by simp_all
  have B0: "0 < B" using "1.prems"(5) by (simp add: is_bitset_def)
  then have n0: "?n \<noteq> B \<or> 0 < ?n" by auto
  note cut = cut_ok [OF "1.prems"(2-8) n n0 refl]
  have qf: "psize ?q = psize p" "page_count (hdr ?q) = ?n" by simp_all
  show ?case
  proof (cases "?n \<noteq> B \<or> ?n \<le> ?s")
    case True
    then have "t = ?q" using "1.prems"(1) by (simp add: trim_pages.simps [of ents p B bs e] Let_def)
    then show ?thesis using cut by (simp add: trims_def)
  next
    case False
    then obtain bs' r where r: "rpage ?q (B - ?s) = Some (bs', r)"
      "trim_pages ents r (B - ?s) bs' (ents - 1) = Some t"
      using "1.prems"(1) [unfolded trim_pages.simps [of ents p B bs e]]
      by (auto simp: Let_def bind_eq_Some_conv)
    note rt = rpage_tx_inv [OF cut(1) r(1)] and rk = rpage_keeps [OF r(1)]
    have psr: "psize r = psize p" using rk(1) by simp
    note sz = same_size [OF psr]
    have nB: "?n = B" "?s < B" using False by simp_all
    have okr: "alloc_ok r"
      using cut(4) same_size [of r ?q] rt(3) rk(1) by (simp add: alloc_ok_def)
    have alr: "allocated r = allocated ?q"
      using same_size [of r ?q] rt(3) rk(1) by (simp add: allocated_def fun_eq_iff)
    have "trims b g w Pg r t"
    proof (rule "1.IH" [OF refl refl refl False r(1) refl r(2)])
      show "tx_inv b g r w Pg" "alloc_ok r" using rt(1) okr by simp_all
      show "header_in_write_set r" using rk(5) "1.prems"(3) by simp
      show "is_bitset r (B - ?s)"
        using prev_bitset [OF "1.prems"(5)] nB(2) unfolding sz s by simp
      show "B - ?s < page_count (hdr r)" "page_count (hdr r) \<le> B - ?s + bitset_stride r"
        using rk(1) nB unfolding sz s by (simp_all add: bitset_stride_bits)
      show "cur_page r (B - ?s) = Some bs'" using rt(2,3) by simp
      show "ents = bitset_entry_count r" using "1.prems"(9) sz(5) by simp
      show "ents - 1 < ents" using "1.prems"(10) by simp
      show "\<And>k. k < bits_of r \<Longrightarrow> bitset_bit bs' k \<Longrightarrow> k < 64 * (ents - 1 + 1)"
        using "1.prems"(10) bits sz(2) by simp
    qed
    then show ?thesis
      using cut alr rt(3) rk nB by (auto simp: trims_def)
  qed
qed

section \<open>Freeing a page\<close>

lemma clear_bit_effect:
  assumes ok: "alloc_ok p" and B: "is_bitset p B" "B < page_count (hdr p)" "cur_page p B = Some bs"
    and i: "i = B + 1 + k" "k < bits_of p"
    and q: "hdr q = hdr p" "cur_page q = (cur_page p)(B \<mapsto> bs[k div 64 := bs ! (k div 64) AND NOT (push_bit (k mod 64) 1)],
      i \<mapsto> pg)"
  shows "alloc_ok q" "allocated q j \<longleftrightarrow> j \<noteq> i \<and> allocated p j"
proof -
  let ?bs = "bs[k div 64 := bs ! (k div 64) AND NOT (push_bit (k mod 64) 1)]"
  note sz = same_size [of q p, unfolded q(1), simplified]
  have len: "length bs = bitset_entry_count p" using ok B unfolding alloc_ok_def by force
  have bits: "bitset_bit ?bs j \<longleftrightarrow> j \<noteq> k \<and> bitset_bit bs j" for j
    by (rule clear_bit_bitset) (use i(2) len in \<open>simp add: bits_of_def\<close>)
  have ni: "\<not> is_bitset p i" using bitset_not_inside [OF B(1) i(2)] i(1) by simp
  have "\<exists>bs. cur_page q C = Some bs \<and> length bs = bitset_entry_count p \<and>
      (\<forall>k<bits_of p. bitset_bit bs k \<longrightarrow> C + 1 + k < page_count (hdr p))"
    if C: "is_bitset p C" "C < page_count (hdr p)" for C
  proof -
    obtain bs1 where bs1: "cur_page p C = Some bs1" "length bs1 = bitset_entry_count p"
      "\<forall>k<bits_of p. bitset_bit bs1 k \<longrightarrow> C + 1 + k < page_count (hdr p)"
      using ok C unfolding alloc_ok_def by blast
    have "C \<noteq> i" using ni C(1) by blast
    then show ?thesis
    proof (cases "C = B")
      case True
      have "bs1 = bs" using bs1(1) B(3) True by simp
      then have "\<forall>k<bits_of p. bitset_bit ?bs k \<longrightarrow> C + 1 + k < page_count (hdr p)"
        using bs1(3) bits by blast
      moreover have "cur_page q C = Some ?bs" using True \<open>C \<noteq> i\<close> q(2) by simp
      ultimately show ?thesis using len by (intro exI [of _ ?bs]) simp
    next
      case False
      then show ?thesis using bs1 \<open>C \<noteq> i\<close> q(2) by simp
    qed
  qed
  then show "alloc_ok q" using ok q(1) unfolding alloc_ok_def sz by simp
  show "allocated q j \<longleftrightarrow> j \<noteq> i \<and> allocated p j"
  proof (cases "bitset_page_of p j = B \<and> B < j")
    case True
    then obtain k' where k': "j = B + 1 + k'" "k' < bits_of p"
      using page_of_split [of j p] by (metis not_less_zero gr0I)
    have "B \<noteq> i" using i(1) by simp
    then have "cur_page q B = Some ?bs" using q(2) by simp
    then have "allocated q j \<longleftrightarrow> bitset_bit ?bs k'"
      using allocated_in [of q B k'] sz B(1,2) k' q(1) by simp
    moreover have "allocated p j \<longleftrightarrow> bitset_bit bs k'"
      using allocated_in [OF B(1) k'(2)] k'(1) B(2,3) by auto
    ultimately show ?thesis using bits k' i(1) by auto
  next
    case False
    have "j \<noteq> i" using False bitset_page_of_in [OF B(1) i(2)] i(1) by auto
    moreover have "bitset_page_of p j \<noteq> i" using ni is_bitset_page_of by metis
    ultimately show ?thesis
      using False q by (auto simp: allocated_def Let_def sz split: option.splits)
  qed
qed

lemma alloc_ok_bit:
  assumes "alloc_ok p" "is_bitset p B" "B < page_count (hdr p)" "cur_page p B = Some bs"
    "k < bits_of p" "bitset_bit bs k"
  shows "B + 1 + k < page_count (hdr p)"
  using assms unfolding alloc_ok_def by force

lemma marked_view:
  "cur_page (marked p) = cur_page p" "alloc_ok (marked p) = alloc_ok p"
  "allocated (marked p) = allocated p"
proof -
  show cur: "cur_page (marked p) = cur_page p" by (rule cur_page_cong) (simp_all add: marked_def)
  have h: "hdr (marked p) = hdr p" by (simp add: marked_def)
  then have "psize (marked p) = psize p" by simp
  note sz = same_size [OF this]
  show "alloc_ok (marked p) = alloc_ok p" unfolding alloc_ok_def cur h sz ..
  show "allocated (marked p) = allocated p" unfolding fun_eq_iff allocated_def cur h sz by simp
qed

lemma marked_tx_inv:
  assumes "tx_inv b g p w Pg"
  shows "tx_inv b g (marked p) w Pg"
proof -
  have h: "header_inv p" using assms by (simp add: tx_inv_def)
  have "page_count (hdr p) \<le> header_idx" "page_count (hdr p) * psize p < 2 ^ 63"
    using h unfolding header_inv_def by blast+
  then have "tx_inv b g (p\<lparr>hdr := hdr p, header_in_write_set := True\<rparr>) w Pg"
    by (intro header_tx_inv [OF assms]) simp_all
  then show ?thesis by (simp add: marked_def)
qed

text \<open>The bit goes, the page is zeroed; if it was the last one the end of the database is cut.\<close>

lemma delete_page_cases:
  assumes d: "delete_page p i = Some q" and tx: "tx_inv b g p w Pg" and ok: "alloc_ok p"
  obtains r where "tx_inv b g r w Pg" "alloc_ok r" "\<And>j. allocated r j \<longleftrightarrow> j \<noteq> i \<and> allocated p j"
    "hdr r = hdr p" "saved_hdr r = saved_hdr p" "trace r = trace p" "tx_waiters r = tx_waiters p"
    "allocated p i" "\<And>j. allocated p j \<Longrightarrow> j \<noteq> i \<Longrightarrow> cur_page r j = cur_page p j"
    "q = r \<and> i + 1 < page_count (hdr p) \<or> trims b g w Pg r q \<and> page_count (hdr q) < page_count (hdr p)"
proof -
  let ?B = "bitset_page_of p i"
  let ?k = "i - ?B - 1"
  have gd: "transaction_active p" "i < page_count (hdr p)" "0 < i" "i \<noteq> ?B"
    using d unfolding delete_page_def Let_def bind_assert_true by (auto split: if_splits)
  obtain bs q1 where rd: "rwpage p ?B = Some (bs, q1)"
    using d gd unfolding delete_page_def Let_def bind_assert_true
    by (cases "rwpage p ?B") (auto split: if_splits)
  have d': "(if bs ! (?k div 64) AND push_bit (?k mod 64) 1 \<noteq> 0 then
      (let bs' = bs[?k div 64 := bs ! (?k div 64) AND NOT (push_bit (?k mod 64) 1)];
         r = ensure_page_zeroed i (put_page ?B bs' q1)
       in if i \<noteq> page_count (hdr p) - 1 then Some r
        else do {
         t \<leftarrow> trim_pages (bitset_entry_count p) r ?B bs' (?k div 64);
         assert_true (page_count (hdr t) < page_count (hdr r));
         Some (t\<lparr>header_in_write_set := True\<rparr>)
       }) else None) = Some q"
    using d gd rd unfolding delete_page_def Let_def pages_per_entry_def
    by (simp only: bind_assert_true bind.bind_lunit prod.case if_True conj_absorb simp_thms)
  have s: "transaction_active p" "i < page_count (hdr p)" "0 < i" "i \<noteq> ?B"
    "rwpage p ?B = Some (bs, q1)" "bs ! (?k div 64) AND push_bit (?k mod 64) 1 \<noteq> 0"
    using gd rd d' by (simp_all del: push_bit_of_1 split: if_split_asm)
  have fin: "(let bs' = bs[?k div 64 := bs ! (?k div 64) AND NOT (push_bit (?k mod 64) 1)];
         r = ensure_page_zeroed i (put_page ?B bs' q1)
       in if i \<noteq> page_count (hdr p) - 1 then Some r
        else do {
         t \<leftarrow> trim_pages (bitset_entry_count p) r ?B bs' (?k div 64);
         assert_true (page_count (hdr t) < page_count (hdr r));
         Some (t\<lparr>header_in_write_set := True\<rparr>)
       }) = Some q"
    using d' s(6) by (simp only: simp_thms if_True)
  let ?bs = "bs[?k div 64 := bs ! (?k div 64) AND NOT (push_bit (?k mod 64) 1)]"
  let ?r = "ensure_page_zeroed i (put_page ?B ?bs q1)"
  have bnd: "?B \<le> i" "i - ?B \<le> bits_of p" using page_of_bounds [OF s(3)] by auto
  then have ik: "i = ?B + 1 + ?k" "?k < bits_of p" using s(4) by linarith+
  note rw = rwpage_same_view [OF s(5)] and v = same_view_fields [OF rwpage_same_view(1) [OF s(5)]]
  have tx1: "tx_inv b g q1 w Pg" by (rule rwpage_tx_inv [OF tx s(5)])
  note pt = put_page_tx_inv [OF tx1 rw(2), of ?bs]
  have txr: "tx_inv b g ?r w Pg" by (rule zeroed_tx_inv [OF pt(1)])
  have put: "put_page ?B ?bs q1 = cache_put ?B \<lparr>data = ?bs, dirty = True\<rparr> q1"
    by (rule dirty_put_page [OF rw(2)])
  have rf: "hdr ?r = hdr p" "saved_hdr ?r = saved_hdr p" "trace ?r = trace p" "tx_waiters ?r = tx_waiters p"
    unfolding ensure_page_zeroed_alt put using v by simp_all
  have curr: "cur_page ?r = (cur_page p)(?B \<mapsto> ?bs, i \<mapsto> zero_page (psize p))"
    unfolding ensure_page_zeroed_alt put using v by (simp add: fun_eq_iff)
  have Bn: "?B < page_count (hdr p)" using bnd(1) s(2) by simp
  note eff = clear_bit_effect [OF ok is_bitset_page_of Bn rw(3) ik rf(1) curr]
  have "bit (bs ! (?k div 64)) (?k mod 64)"
  proof (rule ccontr)
    assume nb: "\<not> bit (bs ! (?k div 64)) (?k mod 64)"
    have "bs ! (?k div 64) AND push_bit (?k mod 64) 1 = 0"
    proof (rule bit_word_eqI)
      fix j assume "j < LENGTH(64)"
      then have "bit (push_bit (?k mod 64) (1 :: u64)) j \<longleftrightarrow> j = ?k mod 64" by (intro bit_push_1) simp
      then show "bit (bs ! (?k div 64) AND push_bit (?k mod 64) 1) j \<longleftrightarrow> bit (0 :: u64) j"
        using nb by (auto simp: bit_and_iff simp del: push_bit_of_1)
    qed
    then show False using s(6) by simp
  qed
  then have "bitset_bit bs ?k" by (simp add: bitset_bit_def)
  then have alli: "allocated p i"
    using rw(3) Bn s(4) bnd(1) by (simp add: allocated_def Let_def)
  have keep: "cur_page ?r j = cur_page p j" if "allocated p j" "j \<noteq> i" for j
  proof -
    have "\<not> is_bitset p j"
      using that(1) bitset_page_of_self [of p j] by (auto simp: allocated_def Let_def)
    then have "j \<noteq> ?B" using is_bitset_page_of by metis
    then show ?thesis using that(2) curr by simp
  qed
  have "q = ?r \<and> i + 1 < page_count (hdr p) \<or> trims b g w Pg ?r q \<and> page_count (hdr q) < page_count (hdr p)"
  proof (cases "i = page_count (hdr p) - 1")
    case False
    then have "q = ?r" using fin by (simp add: Let_def)
    moreover have "i + 1 < page_count (hdr p)" using False s(2) by linarith
    ultimately show ?thesis by blast
  next
    case True
    then have neg: "(i \<noteq> page_count (hdr p) - 1) = False" by blast
    have fin': "Option.bind (trim_pages (bitset_entry_count p) ?r ?B ?bs (?k div 64))
        (\<lambda>t. Option.bind (assert_true (page_count (hdr t) < page_count (hdr ?r)))
          (\<lambda>_. Some (t\<lparr>header_in_write_set := True\<rparr>))) = Some q"
      using fin unfolding Let_def neg if_False .
    obtain t where t: "trim_pages (bitset_entry_count p) ?r ?B ?bs (?k div 64) = Some t"
      "page_count (hdr t) < page_count (hdr ?r)" "q = marked t"
    proof (rule bind_eq_Some_conv [THEN iffD1, OF fin', THEN exE])
      fix t assume "trim_pages (bitset_entry_count p) ?r ?B ?bs (?k div 64) = Some t \<and>
        Option.bind (assert_true (page_count (hdr t) < page_count (hdr ?r)))
          (\<lambda>_. Some (t\<lparr>header_in_write_set := True\<rparr>)) = Some q"
      then show thesis using that [of t] by (simp add: marked_def split: if_splits)
    qed
    have t': "trim_pages (bitset_entry_count p) (marked ?r) ?B ?bs (?k div 64) = Some q"
      using trim_pages_marked [OF t(1)] t(3) by simp
    note mc = marked_view(1) [of ?r]
    have mh: "hdr (marked ?r) = hdr p" using rf(1) by (simp add: marked_def)
    have "psize (marked ?r) = psize p" "psize ?r = psize p" unfolding mh rf(1) by (rule refl)+
    note msz = same_size [OF this(1)] and rsz = same_size [OF this(2)]
    have "trims b g w Pg (marked ?r) q"
    proof (rule trim_pages_ok [OF t'])
      show "tx_inv b g (marked ?r) w Pg" by (rule marked_tx_inv [OF txr])
      show "header_in_write_set (marked ?r)" by (simp add: marked_def)
      show "alloc_ok (marked ?r)" unfolding marked_view by (rule eff(1))
      show "is_bitset (marked ?r) ?B" unfolding msz by (rule is_bitset_page_of)
      show "?B < page_count (hdr (marked ?r))" using Bn mh by simp
      show "page_count (hdr (marked ?r)) \<le> ?B + bitset_stride (marked ?r)"
        using True ik s(2) unfolding mh msz(1) unfolding bitset_stride_bits by linarith
      show "cur_page (marked ?r) ?B = Some ?bs" using mc curr s(4) by simp
      show "bitset_entry_count p = bitset_entry_count (marked ?r)" unfolding msz ..
      show "?k div 64 < bitset_entry_count p"
        using ik(2) by (simp add: bits_of_def less_mult_imp_div_less mult.commute)
      fix k assume k: "k < bits_of (marked ?r)" "bitset_bit ?bs k"
      have "cur_page ?r ?B = Some ?bs" using curr s(4) by simp
      moreover have "is_bitset ?r ?B" unfolding rsz by (rule is_bitset_page_of)
      moreover have "k < bits_of ?r" using k(1) unfolding msz rsz .
      ultimately have "?B + 1 + k < page_count (hdr ?r)"
        using alloc_ok_bit [OF eff(1)] Bn k(2) unfolding rf(1) by blast
      then have "?B + 1 + k < page_count (hdr p)" unfolding rf(1) .
      then have "k \<le> ?k" using True ik(1) by linarith
      moreover have "?k < 64 * (?k div 64 + 1)" using mult_div_mod_eq [of 64 ?k] by simp
      ultimately show "k < 64 * (?k div 64 + 1)" by linarith
    qed
    then have "trims b g w Pg ?r q"
      unfolding trims_def marked_view by (simp add: marked_def)
    then show ?thesis using t(2,3) rf(1) by (simp add: marked_def)
  qed
  then show thesis using that [OF txr eff rf alli keep] by blast
qed

section \<open>The two operations\<close>

lemma new_page_effect:
  assumes np: "new_page p = Some (i, q)" and tx: "tx_inv b g p w Pg"
    and saved: "page_count (saved_hdr p) \<le> page_count (hdr p)" and ok: "alloc_ok p" and fz: "fresh_zero p"
  shows "\<not> allocated p i" "\<not> is_bitset p i" "i < page_count (hdr q)"
    "cur_page q i = Some (zero_page (psize p))" "alloc_ok q"
    "allocated q j \<longleftrightarrow> j = i \<or> allocated p j" "allocated p j \<Longrightarrow> cur_page q j = cur_page p j"
proof -
  have all: "\<not> allocated p i \<and> \<not> is_bitset p i \<and> i < page_count (hdr q) \<and>
      cur_page q i = Some (zero_page (psize p)) \<and> alloc_ok q \<and>
      (allocated q j \<longleftrightarrow> j = i \<or> allocated p j) \<and> (allocated p j \<longrightarrow> cur_page q j = cur_page p j)"
    if al: "allocates b p w Pg i B bs' q g'" and B: "is_bitset p B" and i: "i = B + 1 + k" "k < bits_of p"
      and gap: "i \<le> page_count (hdr p) \<or> i = page_count (hdr p) + 1 \<and> B = page_count (hdr p)"
      and old: "B < page_count (hdr p) \<longrightarrow> cur_page p B = Some bs"
      and bits: "\<forall>j<bits_of p. bitset_bit bs' j \<longleftrightarrow> j = k \<or> B < page_count (hdr p) \<and> bitset_bit bs j"
      and new: "\<not> (B < page_count (hdr p) \<and> bitset_bit bs k)" and len: "length bs' = bitset_entry_count p"
    for B k bs bs' g'
  proof -
    note eff = allocate_effect [OF al B i gap old bits]
    have na: "\<not> allocated p i" using allocated_in [OF B i(2)] i(1) old new by auto
    moreover have "\<not> is_bitset p i" using bitset_not_inside [OF B i(2)] i(1) by simp
    moreover have "i < page_count (hdr q)" "cur_page q i = Some (zero_page (psize p))"
      using al by (simp_all add: allocates_def)
    moreover have "cur_page q j = cur_page p j" if j: "allocated p j"
    proof -
      have "bitset_page_of p j < j" "bitset_page_of p j < page_count (hdr p)"
        using j by (auto simp: allocated_def Let_def)
      moreover have jnb: "\<not> is_bitset p j" using bitset_page_of_self [of p j] calculation by auto
      then have "j \<noteq> B" "j \<noteq> i" using B na j by auto
      moreover obtain k' where k': "j = bitset_page_of p j + 1 + k'" "k' < bits_of p"
        using page_of_split [of j p] calculation(1) by (metis gr_implies_not0 gr0I)
      obtain bs1 where "cur_page p (bitset_page_of p j) = Some bs1" "bitset_bit bs1 k'"
        using allocated_in [OF is_bitset_page_of k'(2), of j] j k'(1) by metis
      then have "j < page_count (hdr p)"
        using ok calculation(2) k' is_bitset_page_of [of p j] unfolding alloc_ok_def by force
      moreover have "0 < j" using k'(1) by simp
      ultimately show ?thesis using al by (simp add: allocates_def)
    qed
    ultimately show ?thesis using eff(1) eff(2) [OF ok len] by blast
  qed
  have "\<not> allocated p i \<and> \<not> is_bitset p i \<and> i < page_count (hdr q) \<and>
      cur_page q i = Some (zero_page (psize p)) \<and> alloc_ok q \<and>
      (allocated q j \<longleftrightarrow> j = i \<or> allocated p j) \<and> (allocated p j \<longrightarrow> cur_page q j = cur_page p j)"
  proof (rule new_page_allocates [OF np tx saved ok])
    fix es B k bs bs'
    assume a: "allocates b p w Pg i B bs' q (g @ es)" "is_bitset p B" "i = B + 1 + k" "k < bits_of p"
      "takes_bit p B k bs bs'"
    have t: "B < page_count (hdr p)" "i \<le> page_count (hdr p)" "cur_page p B = Some bs" "\<not> bitset_bit bs k"
      "bs' = bs[k div 64 := bs ! (k div 64) OR push_bit (k mod 64) 1]"
      using a(3,5) by (simp_all add: takes_bit_def)
    have len: "length bs = bitset_entry_count p" using ok a(2) t(1,3) unfolding alloc_ok_def by force
    have bits: "bitset_bit bs' j \<longleftrightarrow> j = k \<or> bitset_bit bs j" for j
      unfolding t(5) by (rule set_bit_bitset) (use a(4) len in \<open>simp add: bits_of_def\<close>)
    show ?thesis
      by (rule all [OF a(1-4)]) (use t(1-4) bits len t(5) in auto)
  next
    fix es B bs bs'
    assume a: "allocates b p w Pg i B bs' q (g @ es)" "is_bitset p B" "i = B + 1" "adds_bitset p B 0 bs bs'"
    have t: "B = page_count (hdr p)" "bs' = (zero_page (psize p))[0 := zero_page (psize p) ! 0 OR 1]"
      using a(4) fresh_zero_page [OF fz] by (auto simp: adds_bitset_def)
    have n: "0 < bitset_entry_count p" using ok by (simp add: alloc_ok_def)
    have len: "length (zero_page (psize p)) = bitset_entry_count p"
      by (simp add: zero_page_def bitset_entry_count_def)
    have bits: "bitset_bit bs' j \<longleftrightarrow> j = 0" if "j < bits_of p" for j
      using set_bit_bitset [of 0 "zero_page (psize p)" j] that n len t(2)
      by (simp add: bits_of_def bitset_entry_count_def)
    show ?thesis
      by (rule all [OF a(1,2), of 0 "[]"]) (use a(3) t bits n len in \<open>auto simp: bits_of_def\<close>)
  qed
  then show "\<not> allocated p i" "\<not> is_bitset p i" "i < page_count (hdr q)"
    "cur_page q i = Some (zero_page (psize p))" "alloc_ok q"
    "allocated q j \<longleftrightarrow> j = i \<or> allocated p j" "allocated p j \<Longrightarrow> cur_page q j = cur_page p j"
    by simp_all
qed

end
