(* ===== verification/Runs.thy ===== *)
theory Runs
  imports Alloc
begin

text \<open>
  Runs: the operations of a client from the moment the files are opened, and what a crash
  leaves at any moment of them. \<open>run\<close> keeps the header and pages of the last commit;
  \<open>run_inv\<close> is the invariant of every reachable state.
\<close>

section \<open>Crashes during recovery\<close>

lemma redo_event_cases:
  "frame_wf sz salt fr \<Longrightarrow>
    (\<exists>pg. redo_event fr = DbWritePage (frame_idx fr) pg) \<or>
    (\<exists>h. redo_event fr = DbWriteHeader h \<and> frame_idx fr = header_idx \<and> page_size h = sz)"
  by (cases "frame_data fr") (auto simp: redo_event_def frame_wf_def typed_def)

lemma redo_harmless:
  assumes wf: "\<forall>fr\<in>set frs. frame_wf (page_size H) salt fr"
  shows "harmless frs H (map redo_event frs)"
    "LogSync \<notin> set (map redo_event frs)" "DbSync \<notin> set (map redo_event frs)"
    "LogWriteCount k \<notin> set (map redo_event frs)" "quiet_log n (map redo_event frs)"
    "log (apply_devents sz (map redo_event frs) d) = log d"
proof -
  have some: "logged frs (frame_idx fr) \<noteq> None" if "fr \<in> set frs" for fr
    using that unfolding logged_def map_of_eq_None_iff by force
  show "harmless frs H (map redo_event frs)"
    unfolding harmless_def
  proof (intro ballI)
    fix e assume "e \<in> set (map redo_event frs)"
    then obtain fr where fr: "fr \<in> set frs" "e = redo_event fr" by auto
    show "(\<forall>i. touches_page e i \<and> 0 < i \<and> i < page_count H \<longrightarrow> logged frs i \<noteq> None) \<and>
        (\<forall>h. e = DbWriteHeader h \<longrightarrow> page_size h = page_size H \<and> logged frs header_idx \<noteq> None)"
      using redo_event_cases wf fr some [OF fr(1)] by fastforce
  qed
  have ev: "\<not> touches_frame (redo_event fr) i" "redo_event fr \<noteq> LogCreate h" "redo_event fr \<noteq> LogSync"
    "redo_event fr \<noteq> DbSync" "redo_event fr \<noteq> LogWriteCount k" for fr i h
    by (cases "frame_data fr"; simp add: redo_event_def)+
  show "LogSync \<notin> set (map redo_event frs)" "DbSync \<notin> set (map redo_event frs)"
    "LogWriteCount k \<notin> set (map redo_event frs)" "quiet_log n (map redo_event frs)"
    using ev by (auto simp: quiet_log_def image_iff) (metis ev)+
  show "log (apply_devents sz (map redo_event frs) d) = log d"
    by (rule apply_log_db_events [OF db_event_redo])
qed

text \<open>The log before and after its count goes to zero.\<close>

lemma recovering_log:
  assumes ok: "log_ok (page_size H) h f" and cr: "crash_log f es f'" "quiet_log (frame_count h) es"
    and es: "\<forall>k. LogWriteCount k \<in> set es \<longrightarrow> k = 0"
  obtains "wf_header f' = Some h" "log_ok (page_size H) h f'" "committed h f' = committed h f"
  | "wf_header f' = Some (h\<lparr>frame_count := 0\<rparr>)" "log_ok (page_size H) (h\<lparr>frame_count := 0\<rparr>) f'"
    "LogWriteCount 0 \<in> set es"
proof -
  have f: "wf_header f = Some h" "frame_count h \<le> length (wf_frames f)" "wal_magic h = WAL_MAGIC"
    "wal_page_size h = page_size H"
    "\<forall>fr\<in>set (take (frame_count h) (wf_frames f)). frame_wf (page_size H) (wal_salt h) fr"
    using ok by (simp_all add: log_ok_def committed_def)
  show thesis
  proof (cases rule: crash_log_header [OF cr f(1), case_names old new])
    case old
    note cl = crashed_log [OF cr f(2,5) old f(3,4) order_refl]
    show thesis by (rule that(1) [OF old cl(1)]) (use cl(2) in \<open>simp only: committed_def [of h f]\<close>)
  next
    case (new k)
    then have h': "wf_header f' = Some (h\<lparr>frame_count := 0\<rparr>)" and z: "LogWriteCount 0 \<in> set es"
      using es by auto
    have "\<forall>fr\<in>set (take (frame_count h) (wf_frames f)). frame_wf (page_size H) (wal_salt (h\<lparr>frame_count := 0\<rparr>)) fr"
      using f(5) by simp
    from crashed_log(1) [OF cr f(2) this h'] f(3,4) have "log_ok (page_size H) (h\<lparr>frame_count := 0\<rparr>) f'"
      by simp
    then show thesis by (rule that(2) [OF h' _ z])
  qed
qed

lemma crash_in_recovery:
  assumes rep: "represents d H Pg" and h: "wf_header (log d) = Some h"
    and c: "crash (page_size H) d us d'"
    and us: "prefix us (recovery_events H (if frame_count h = 0 then [] else committed h (log d)))"
  shows "represents d' H Pg"
proof -
  let ?F = "committed h (log d)" and ?sz = "page_size H"
  let ?R = "map redo_event ?F"
  note ok = representsD(1) [OF rep h] and cont = representsD(2) [OF rep h]
  have wf: "\<forall>fr\<in>set ?F. frame_wf ?sz (wal_salt h) fr" using ok by (simp add: log_ok_def)
  note red = redo_harmless [OF wf]
  have pre: "prefix us (?R @ [DbSync, LogWriteCount 0, LogSync, DbResize (page_count H)])"
    using us by (auto simp: recovery_events_def split: if_splits)
  have db_new: "contents [] (db d') H Pg"
    if "us = ?R @ DbSync # vs" "DbSync \<notin> set vs" "harmless [] H vs" for vs
    by (rule contents_crash [OF redo_contents [OF wf cont, where sz = ?sz] crash_db_synced that(3)])
      (use c that(1,2) in simp_all)
  have zero: "represents d' H Pg"
    if "wf_header (log d') = Some (h\<lparr>frame_count := 0\<rparr>)" "log_ok ?sz (h\<lparr>frame_count := 0\<rparr>) (log d')"
      "contents [] (db d') H Pg"
    by (rule represents_intro [OF that(1,2)]) (use that(3) in \<open>simp add: committed_def\<close>)
  have unsynced: "represents d' H Pg"
    if u: "LogSync \<notin> set us" "quiet_log (frame_count h) us" "\<forall>k. LogWriteCount k \<in> set us \<longrightarrow> k = 0"
      "contents ?F (db d') H Pg" "LogWriteCount 0 \<in> set us \<Longrightarrow> contents [] (db d') H Pg"
  proof -
    have cl: "crash_log (log d) us (log d')"
      using c u(1) by (simp add: crash_def upto_sync_none after_sync_none)
    show ?thesis
    proof (cases rule: recovering_log [OF ok cl u(2,3), case_names old new])
      case old
      show ?thesis by (rule represents_intro [OF old(1,2)]) (use old(3) u(4) in simp)
    next
      case new
      show ?thesis by (rule zero [OF new(1,2) u(5) [OF new(3)]])
    qed
  qed
  have synced: "represents d' H Pg"
    if u: "us = ?R @ [DbSync, LogWriteCount 0] @ LogSync # vs" "vs = [] \<or> vs = [DbResize (page_count H)]" for vs
  proof -
    let ?f = "(log d)\<lparr>wf_header := Some (h\<lparr>frame_count := 0\<rparr>)\<rparr>"
    have vs: "LogSync \<notin> set vs" "DbSync \<notin> set vs" "quiet_log 0 vs" "\<And>k. LogWriteCount k \<notin> set vs"
      "harmless [] H vs" using u(2) by (auto simp: quiet_log_def harmless_def)
    have "log (apply_devents ?sz (?R @ [DbSync, LogWriteCount 0]) d) = ?f" using red(6) h by simp
    then have "crash_log ?f vs (log d')"
      using crash_log_synced [of ?sz d "?R @ [DbSync, LogWriteCount 0]" vs d'] c u(1) vs(1) by simp
    moreover have "contents [] (db d') H Pg"
      by (rule db_new [of "LogWriteCount 0 # LogSync # vs"]) (use u(1) vs in simp_all)
    moreover have "quiet_log (frame_count (h\<lparr>frame_count := 0\<rparr>)) vs" using vs(3) by simp
    ultimately show ?thesis
      by (cases rule: recovering_log [OF log_ok_empty [OF ok], where es = vs and f' = "log d'"])
        (use vs zero in simp_all)
  qed
  have part: "represents d' H Pg" if "prefix us ?R"
  proof -
    have sub: "set us \<subseteq> set ?R" by (rule set_mono_prefix [OF that])
    have no: "LogSync \<notin> set us" "DbSync \<notin> set us" "LogWriteCount k \<notin> set us" for k
      using sub red(2-4) by blast+
    show ?thesis
    proof (rule unsynced [OF no(1) quiet_log_mono [OF red(5) sub]])
      show "contents ?F (db d') H Pg"
        by (rule contents_crash [OF cont crash_db_unsynced [OF c no(2)] harmless_mono [OF red(1) sub]])
    qed (use no in blast)+
  qed
  consider "prefix us ?R" | vs where "us = ?R @ vs" "prefix vs [DbSync, LogWriteCount 0, LogSync, DbResize (page_count H)]"
    using pre prefix_append [of us ?R] by blast
  then show ?thesis
  proof cases
    case 1
    then show ?thesis by (rule part)
  next
    case (2 vs)
    then consider "us = ?R" | "us = ?R @ [DbSync]" | "us = ?R @ [DbSync, LogWriteCount 0]"
      | "us = ?R @ [DbSync, LogWriteCount 0] @ LogSync # []"
      | "us = ?R @ [DbSync, LogWriteCount 0] @ LogSync # [DbResize (page_count H)]"
      by (auto simp: prefix_Cons)
    then show ?thesis
    proof cases
      case 1
      then show ?thesis by (intro part) simp
    next
      case 2
      have n: "contents [] (db d') H Pg" by (rule db_new [of "[]"]) (use 2 in simp_all)
      show ?thesis
        by (rule unsynced [OF _ _ _ contents_over [OF cont n] n]) (use 2 red in auto)
    next
      case 3
      have n: "contents [] (db d') H Pg" by (rule db_new [of "[LogWriteCount 0]"]) (use 3 in simp_all)
      show ?thesis
        by (rule unsynced [OF _ _ _ contents_over [OF cont n] n]) (use 3 red in auto)
    next
      case 4
      then show ?thesis by (rule synced) simp
    next
      case 5
      then show ?thesis by (rule synced) simp
    qed
  qed
qed

section \<open>Opened pagers are idle\<close>

lemma recovered_idle:
  assumes r: "recovered r H Pg" and d: "disk_of r = apply_devents (page_size H) g b"
    and g: "g = [] \<or> g = [DbResize (page_count H)]" and o: "opened r" "\<not> header_in_write_set r"
    and b: "contents [] (db b) H Pg" "log b = log (disk_of r)"
  shows "\<exists>w. idle_inv b g r w Pg"
proof -
  obtain h where h: "hdr r = H" "cache r = []" "log_ok (page_size H) h (log (disk_of r))"
    "frame_count h = 0" "wal_of r = Some \<lparr>header = h, wal_index = []\<rparr>"
    using r by (auto simp: recovered_def)
  have f: "wf_header (log b) = Some h" "log_ok (page_size H) h (log b)" "committed h (log b) = []"
    using h b(2) by (simp_all add: log_ok_def committed_def)
  then have "represents b H Pg" using b(1) by (simp add: represents_def)
  then have "idle_inv b g r \<lparr>header = h, wal_index = []\<rparr> Pg"
    using h f d g o by (intro idle_invI) (auto simp: pending_def index_ok_def)
  then show ?thesis by blast
qed

lemma opened_idle:
  assumes rep: "represents d H Pg" and r: "init_recover d k = Some r"
  shows "\<exists>b g w. idle_inv b g r w Pg \<and> settles (page_size H) d (trace r) b g \<and>
    \<not> transaction_active r \<and> hdr r = H"
proof -
  let ?sz = "page_size H"
  obtain h where h: "recovered r H Pg" "wf_header (log d) = Some h"
    "trace r = recovery_events H (if frame_count h = 0 then [] else committed h (log d))"
    "disk_of r = apply_devents ?sz (trace r) d" "opened r" "\<not> transaction_active r" "\<not> header_in_write_set r"
    using init_recover_represents [OF rep, of k] r by auto
  have hr: "hdr r = H" using h(1) by (simp add: recovered_def)
  show ?thesis
  proof (cases "frame_count h = 0 \<or> committed h (log d) = []")
    case True
    then have e: "trace r = []" using h(3) by (auto simp: recovery_events_def)
    have "contents [] (db d) H Pg"
      using representsD(2) [OF rep h(2)] True by (auto simp: committed_def)
    then have "\<exists>w. idle_inv d [] r w Pg"
      using h e by (intro recovered_idle [OF h(1)]) simp_all
    then show ?thesis using settles_refl [of ?sz d "[]"] e h(6) hr by auto
  next
    case False
    let ?tr = "map redo_event (committed h (log d)) @ DbSync # [LogWriteCount 0] @ [LogSync]"
    let ?b = "apply_devents ?sz ?tr d"
    have tr: "trace r = ?tr @ [DbResize (page_count H)]"
      using h(3) False by (simp add: recovery_events_def)
    have wf: "\<forall>fr\<in>set (committed h (log d)). frame_wf ?sz (wal_salt h) fr"
      using representsD(1) [OF rep h(2)] by (simp add: log_ok_def)
    have "contents [] (db ?b) H Pg"
      using redo_contents [OF wf representsD(2) [OF rep h(2)], of ?sz] by simp
    moreover have "disk_of r = apply_devents ?sz [DbResize (page_count H)] ?b" using h(4) tr by simp
    ultimately have "\<exists>w. idle_inv ?b [DbResize (page_count H)] r w Pg"
      using h by (intro recovered_idle [OF h(1)]) simp_all
    moreover have "settles ?sz d ?tr ?b []" by (rule settles_both) simp
    then have "settles ?sz d (trace r) ?b [DbResize (page_count H)]"
      using settles_snoc [of ?sz d ?tr ?b "[]" "[DbResize (page_count H)]"] tr by simp
    ultimately show ?thesis using h(6) hr by blast
  qed
qed

section \<open>Runs\<close>

text \<open>
  \<open>run d k p H Pg\<close>: the pager \<open>p\<close> is reached from opening the files \<open>d\<close>, and \<open>(H, Pg)\<close> is
  the database of the last commit. Stores go to pages \<open>rwpage\<close> handed out. Pages are
  allocated only while the database is not shorter than at the last commit.
\<close>

inductive run :: "disk \<Rightarrow> nat \<Rightarrow> pager_header \<Rightarrow> (nat \<Rightarrow> page) \<Rightarrow> pager \<Rightarrow> pager_header \<Rightarrow> (nat \<Rightarrow> page) \<Rightarrow> bool"
  for d k H0 Pg0 where
  run_open: "represents d H0 Pg0 \<Longrightarrow> init_recover d k = Some p \<Longrightarrow> run d k H0 Pg0 p H0 Pg0"
| run_begin: "run d k H0 Pg0 p H Pg \<Longrightarrow> run d k H0 Pg0 (begin_transaction t p) H Pg"
| run_read: "run d k H0 Pg0 p H Pg \<Longrightarrow> rpage p i = Some (pg, q) \<Longrightarrow> run d k H0 Pg0 q H Pg"
| run_write: "run d k H0 Pg0 p H Pg \<Longrightarrow> rwpage p i = Some (pg, q) \<Longrightarrow> run d k H0 Pg0 q H Pg"
| run_store: "run d k H0 Pg0 p H Pg \<Longrightarrow> transaction_active p \<Longrightarrow> is_dirty p i \<Longrightarrow>
    run d k H0 Pg0 (put_page i pg p) H Pg"
| run_root: "run d k H0 Pg0 p H Pg \<Longrightarrow> set_root p i = Some q \<Longrightarrow> run d k H0 Pg0 q H Pg"
| run_new: "run d k H0 Pg0 p H Pg \<Longrightarrow> alloc_ok p \<Longrightarrow> page_count H \<le> page_count (hdr p) \<Longrightarrow>
    new_page p = Some (i, q) \<Longrightarrow> run d k H0 Pg0 q H Pg"
| run_delete: "run d k H0 Pg0 p H Pg \<Longrightarrow> alloc_ok p \<Longrightarrow> delete_page p i = Some q \<Longrightarrow>
    run d k H0 Pg0 q H Pg"
| run_commit: "run d k H0 Pg0 p H Pg \<Longrightarrow> commit_transaction p = Some (q, r) \<Longrightarrow>
    run d k H0 Pg0 q (hdr p) (new_pages p)"
| run_rollback: "run d k H0 Pg0 p H Pg \<Longrightarrow> transaction_active p \<Longrightarrow> rollback_transaction p = (q, r) \<Longrightarrow>
    run d k H0 Pg0 q H Pg"

text \<open>The invariant of a run: the device is as some settled pair of files says.\<close>

definition run_inv :: "disk \<Rightarrow> pager_header \<Rightarrow> pager \<Rightarrow> pager_header \<Rightarrow> (nat \<Rightarrow> page) \<Rightarrow> bool" where
  "run_inv d H0 p H Pg \<longleftrightarrow> page_size H = page_size H0 \<and>
     (\<exists>b g w. settles (page_size H0) d (trace p) b g \<and>
        (if transaction_active p then tx_inv b g p w Pg \<and> saved_hdr p = H
         else idle_inv b g p w Pg \<and> hdr p = H))"

lemma run_inv_tx:
  assumes "run_inv d H0 p H Pg" "transaction_active p"
  obtains b g w where "settles (page_size H0) d (trace p) b g" "tx_inv b g p w Pg" "saved_hdr p = H"
    "page_size H = page_size H0"
  using assms by (auto simp: run_inv_def)

lemma run_inv_txI:
  assumes "settles (page_size H0) d (trace q) b g" "tx_inv b g q w Pg" "saved_hdr q = H"
    "page_size H = page_size H0"
  shows "run_inv d H0 q H Pg"
proof -
  have "transaction_active q" using assms(2) by (simp add: tx_inv_def)
  then show ?thesis using assms unfolding run_inv_def by auto
qed

lemma between_run_inv:
  assumes "between b g q w Pg" "settles (page_size H0) d (trace q) b g" "hdr q = H" "page_size H = page_size H0"
  shows "run_inv d H0 q H Pg"
  using assms unfolding run_inv_def between_def by (auto split: if_splits)

lemma tx_page_size: "tx_inv b g p w Pg \<Longrightarrow> psize p = page_size (saved_hdr p)"
  by (simp add: tx_inv_def header_inv_def)

lemma begin_run_inv:
  assumes "run_inv d H0 p H Pg"
  shows "run_inv d H0 (begin_transaction t p) H Pg"
proof (cases "transaction_active p")
  case True
  have keep: "tx_inv b g (p\<lparr>tx_waiters := ws\<rparr>) w Pg" if "tx_inv b g p w Pg" for b g w ws
  proof -
    let ?q = "p\<lparr>tx_waiters := ws\<rparr>"
    have l: "load_page ?q i = load_page p i" for i by (rule load_page_cong) simp_all
    have c: "cur_page ?q = cur_page p" "is_dirty ?q = is_dirty p" by (rule cur_page_cong; simp)+
    have "tx_inv b g ?q w Pg = tx_inv b g p w Pg"
      by (simp add: tx_inv_def log_inv_def header_inv_def cache_inv_def fresh_dirty_def l c)
    then show ?thesis using that by blast
  qed
  obtain b g w where "settles (page_size H0) d (trace p) b g" "tx_inv b g p w Pg"
    "saved_hdr p = H" "page_size H = page_size H0" using run_inv_tx [OF assms True] by metis
  moreover have "begin_transaction t p = p\<lparr>tx_waiters := tx_waiters p @ [t]\<rparr>"
    using True by (simp add: begin_transaction_def)
  ultimately show ?thesis by (simp add: run_inv_txI [OF _ keep])
next
  case False
  then obtain b g w where "settles (page_size H0) d (trace p) b g" "idle_inv b g p w Pg" "hdr p = H"
    "page_size H = page_size H0" using assms by (auto simp: run_inv_def)
  then show ?thesis
    using False idle_take [of b g p w Pg] by (intro run_inv_txI) (auto simp: begin_transaction_def)
qed

lemma no_tx_ops:
  assumes "\<not> transaction_active p"
  shows "rpage p i = None" "rwpage p i = None" "set_root p i = None" "new_page p = None"
    "delete_page p i = None" "commit_transaction p = None"
  using assms
  by (simp_all add: rpage_def rwpage_def page_guard_def set_root_def new_page_def delete_page_def
      commit_transaction_def)

lemma commit_run_inv:
  assumes "run_inv d H0 p H Pg" "commit_transaction p = Some (q, r)"
  shows "run_inv d H0 q (hdr p) (new_pages p)"
proof -
  have "transaction_active p" using no_tx_ops(6) assms(2) by fastforce
  then obtain b g w where inv: "settles (page_size H0) d (trace p) b g" "tx_inv b g p w Pg"
    "saved_hdr p = H" "page_size H = page_size H0" using run_inv_tx [OF assms(1)] by metis
  have sz: "psize p = page_size H0" using tx_page_size [OF inv(2)] inv(3,4) by simp
  obtain es b' g' w' where c: "trace q = trace p @ es" "between b' g' q w' (new_pages p)"
    "settles (psize p) b (g @ es) b' g'" "hdr q = hdr p"
    using commit_between [OF inv(2) assms(2)] by metis
  have "settles (page_size H0) d (trace q) b' g'"
    using settles_trans [OF settles_snoc [OF inv(1), of es]] c(1,3) sz by simp
  then show ?thesis using between_run_inv [OF c(2)] c(4) sz by simp
qed

lemma rollback_run_inv:
  assumes "run_inv d H0 p H Pg" "transaction_active p" "rollback_transaction p = (q, r)"
  shows "run_inv d H0 q H Pg"
proof -
  obtain b g w where inv: "settles (page_size H0) d (trace p) b g" "tx_inv b g p w Pg"
    "saved_hdr p = H" "page_size H = page_size H0" using run_inv_tx [OF assms(1,2)] by metis
  have q: "q = fst (rollback_transaction p)" using assms(3) by simp
  have "trace q = trace p" "hdr q = H" unfolding q rollback_transaction_def using inv(3) by simp_all
  then show ?thesis
    using between_run_inv [OF rollback_between [OF inv(2)], folded q] inv(1,4) by simp
qed

text \<open>An operation that keeps \<open>tx_inv\<close>, with the resizes it issued.\<close>

lemma op_run_inv:
  assumes "run_inv d H0 p H Pg" "transaction_active p"
    and "\<And>b g w. tx_inv b g p w Pg \<Longrightarrow> saved_hdr p = H \<Longrightarrow>
      \<exists>es. tx_inv b (g @ es) q w Pg \<and> trace q = trace p @ es \<and> saved_hdr q = saved_hdr p"
  shows "run_inv d H0 q H Pg"
proof -
  obtain b g w where inv: "settles (page_size H0) d (trace p) b g" "tx_inv b g p w Pg"
    "saved_hdr p = H" "page_size H = page_size H0" using run_inv_tx [OF assms(1,2)] by metis
  obtain es where es: "tx_inv b (g @ es) q w Pg" "trace q = trace p @ es" "saved_hdr q = H"
    using assms(3) [OF inv(2,3)] inv(3) by metis
  show ?thesis
    by (rule run_inv_txI [OF _ es(1,3) inv(4)]) (use settles_snoc [OF inv(1)] es(2) in simp)
qed

lemma new_page_tx_inv:
  assumes "new_page p = Some (i, q)" "tx_inv b g p w Pg" "alloc_ok p"
    "page_count (saved_hdr p) \<le> page_count (hdr p)"
  shows "\<exists>es. tx_inv b (g @ es) q w Pg \<and> trace q = trace p @ es \<and> saved_hdr q = saved_hdr p"
  by (rule new_page_allocates [OF assms(1,2,4,3)]) (auto simp: allocates_def)

lemma delete_page_tx_inv:
  assumes "delete_page p i = Some q" "tx_inv b g p w Pg" "alloc_ok p"
  shows "\<exists>es. tx_inv b (g @ es) q w Pg \<and> trace q = trace p @ es \<and> saved_hdr q = saved_hdr p"
  by (rule delete_page_cases [OF assms]) (auto simp: trims_def)

lemma run_invariant: "run d k H0 Pg0 p H Pg \<Longrightarrow> run_inv d H0 p H Pg"
proof (induction rule: run.induct)
  case (run_open p)
  then show ?case using opened_idle [of d H0 Pg0 k p] by (auto simp: run_inv_def)
next
  case (run_begin p H Pg t)
  show ?case by (rule begin_run_inv [OF run_begin.IH])
next
  case (run_read p H Pg i pg q)
  have a: "transaction_active p" using run_read.hyps(2) no_tx_ops(1) by fastforce
  show ?case
    by (rule op_run_inv [OF run_read.IH a])
      (use rpage_tx_inv(1) [OF _ run_read.hyps(2)] rpage_keeps [OF run_read.hyps(2)] in force)
next
  case (run_write p H Pg i pg q)
  have a: "transaction_active p" using run_write.hyps(2) no_tx_ops(2) by fastforce
  show ?case
    by (rule op_run_inv [OF run_write.IH a])
      (use rwpage_tx_inv [OF _ run_write.hyps(2)] rwpage_eq [OF run_write.hyps(2)] in force)
next
  case (run_store p H Pg i pg)
  show ?case
    by (rule op_run_inv [OF run_store.IH run_store.hyps(2)])
      (use put_page_tx_inv(1) [OF _ run_store.hyps(3)] dirty_put_page [OF run_store.hyps(3)] in force)
next
  case (run_root p H Pg i q)
  have a: "transaction_active p" using run_root.hyps(2) no_tx_ops(3) by fastforce
  have q: "trace q = trace p" "saved_hdr q = saved_hdr p"
    using run_root.hyps(2) by (auto simp: set_root_def split: if_splits)
  show ?case
    by (rule op_run_inv [OF run_root.IH a]) (use set_root_tx_inv [OF _ run_root.hyps(2)] q in force)
next
  case (run_new p H Pg i q)
  have a: "transaction_active p" using run_new.hyps(4) no_tx_ops(4) by fastforce
  show ?case
    by (rule op_run_inv [OF run_new.IH a])
      (use new_page_tx_inv [OF run_new.hyps(4) _ run_new.hyps(2)] run_new.hyps(3) in auto)
next
  case (run_delete p H Pg i q)
  have a: "transaction_active p" using run_delete.hyps(3) no_tx_ops(5) by fastforce
  show ?case
    by (rule op_run_inv [OF run_delete.IH a])
      (use delete_page_tx_inv [OF run_delete.hyps(3) _ run_delete.hyps(2)] in auto)
next
  case (run_commit p H Pg q r)
  then show ?case using commit_run_inv by blast
next
  case (run_rollback p H Pg q r)
  then show ?case using rollback_run_inv by blast
qed

section \<open>Crashes of a run\<close>

lemma idle_crash:
  assumes "idle_inv b g p w Pg" "crash (psize p) b g d'"
  shows "represents d' (hdr p) Pg"
  using stage_append [OF idle_take [OF assms(1)], of "[]" d'] assms(2) by simp

lemma run_inv_crash:
  assumes inv: "run_inv d H0 p H Pg" and c: "crash (page_size H0) d (trace p) d'"
  shows "represents d' H Pg"
proof -
  obtain b g w where st: "settles (page_size H0) d (trace p) b g" "page_size H = page_size H0"
    "if transaction_active p then tx_inv b g p w Pg \<and> saved_hdr p = H else idle_inv b g p w Pg \<and> hdr p = H"
    using inv by (auto simp: run_inv_def)
  have cb: "crash (page_size H0) b g d'" using st(1) c unfolding settles_def by (metis append_Nil2)
  show ?thesis
  proof (cases "transaction_active p")
    case True
    then have tx: "tx_inv b g p w Pg" "saved_hdr p = H" using st(3) by simp_all
    then show ?thesis
      using stage_append [OF tx(1), of "[]" d'] cb tx_page_size [OF tx(1)] st(2) by simp
  next
    case False
    then show ?thesis using st(2,3) cb idle_crash [of b g p w Pg d'] by simp
  qed
qed

lemma run_inv_commit_crash:
  assumes inv: "run_inv d H0 p H Pg" and cm: "commit_transaction p = Some (q, r)"
    and tr: "prefix (trace p) tr" "prefix tr (trace q)" and c: "crash (page_size H0) d tr d'"
  shows "represents d' H Pg \<or> represents d' (hdr p) (new_pages p)"
proof -
  have "transaction_active p" using no_tx_ops(6) cm by fastforce
  then obtain b g w where st: "settles (page_size H0) d (trace p) b g" "tx_inv b g p w Pg"
    "saved_hdr p = H" "page_size H = page_size H0" using run_inv_tx [OF inv] by metis
  obtain es where es: "commit_trace p w es" "trace q = trace p @ es"
    using commit_between [OF st(2) cm] by metis
  obtain us where us: "tr = trace p @ us" "prefix us es"
    using tr es(2) by (auto simp: prefix_def)
  have "crash (page_size H0) b (g @ us) d'" using st(1) c us(1) by (simp add: settles_def)
  then show ?thesis
    using crash_in_commit [OF st(2) es(1) _ us(2)] tx_page_size [OF st(2)] st(3,4) by simp
qed

section \<open>A new database\<close>

text \<open>\<open>pager::create\<close> and \<open>wal::create\<close> on empty files.\<close>

definition empty_disk :: disk where
  "empty_disk = \<lparr>db = \<lparr>db_header = default_header, db_pages = []\<rparr>,
     log = \<lparr>wf_header = None, wf_frames = []\<rparr>\<rparr>"

definition created :: "nat \<Rightarrow> u64 \<Rightarrow> disk option" where
  "created sz salt = do {
     (h, es) \<leftarrow> create sz empty_disk;
     Some (apply_devents sz (es @ snd (wal_create salt sz)) empty_disk)
   }"

definition new_header :: "nat \<Rightarrow> pager_header" where
  "new_header sz = \<lparr>magic_version = HEADER_MAGIC_VERSION, page_size = sz, page_count = 1,
     root_page = header_idx\<rparr>"

lemma created_eq:
  assumes "32 \<le> sz" "sz mod 8 = 0"
  shows "created sz salt = Some \<lparr>db = \<lparr>db_header = new_header sz, db_pages = [zero_page sz]\<rparr>,
    log = \<lparr>wf_header = Some \<lparr>wal_magic = WAL_MAGIC, wal_page_size = sz, wal_salt = salt,
      frame_count = 0\<rparr>, wf_frames = []\<rparr>\<rparr>"
  using assms
  by (simp add: created_def create_def wal_create_def empty_disk_def new_header_def apply_devent_def
      resize_pages_def Let_def)

lemma represents_created:
  assumes "created sz salt = Some d" "32 \<le> sz" "sz mod 8 = 0" "sz < 2 ^ 63"
  shows "represents d (new_header sz) Pg"
  using assms(2-4) assms(1) [symmetric] created_eq [OF assms(2,3), of salt]
  by (simp add: represents_def log_ok_def committed_def contents_def holds_header_def new_header_def
      header_idx_def)

text \<open>What a committed database is after a recovery.\<close>

lemma represents_recovers: "represents d H Pg \<Longrightarrow> \<exists>r. init_recover d k = Some r \<and> recovered r H Pg"
  using init_recover_represents by blast

section \<open>A crash that loses nothing\<close>

lemma upto_after_sync: "upto_sync s es @ after_sync s es = es"
proof (induction es)
  case (Cons e es)
  then show ?case by (cases "s \<in> set es") (auto simp: upto_sync_none)
qed simp

lemma crash_db_step:
  assumes "crash_db f es f1"
  shows "crash_db f (es @ [e]) (apply_db sz e f1)"
proof (cases e)
  case (DbWritePage j pg)
  then show ?thesis
    using assms by (auto simp: crash_db_def write_page_other max_def)
next
  case (DbResize n)
  then show ?thesis using assms by (auto simp: crash_db_def resize_pages_nth)
qed (use assms in \<open>auto simp: crash_db_def\<close>)

lemma crash_log_step:
  assumes "crash_log f es f1"
  shows "crash_log f (es @ [e]) (apply_log e f1)"
proof (cases e)
  case (LogWriteFrames b fs)
  then show ?thesis using assms by (auto simp: crash_log_def write_frames_def nth_append)
next
  case (LogWriteCount n)
  let ?set = "\<lambda>k x. map_option (\<lambda>h. h\<lparr>frame_count := k\<rparr>) x"
  have twice: "?set n (?set m x) = ?set n x" for m x by (cases x) simp_all
  have "?set n (wf_header f1) = ?set n (wf_header f)" if "\<forall>h. LogCreate h \<notin> set es"
    using assms that twice unfolding crash_log_def by metis
  then show ?thesis using LogWriteCount assms unfolding crash_log_def by simp blast
qed (use assms in \<open>auto simp: crash_log_def\<close>)

lemma crash_db_apply: "crash_db (db d) es (db (apply_devents sz es d))"
proof (induction es rule: rev_induct)
  case Nil
  then show ?case by (simp add: crash_db_def)
next
  case (snoc e es)
  then show ?case by (simp add: crash_db_step)
qed

lemma crash_log_apply: "crash_log (log d) es (log (apply_devents sz es d))"
proof (induction es rule: rev_induct)
  case Nil
  then show ?case by (simp add: crash_log_def)
next
  case (snoc e es)
  then show ?case by (simp add: crash_log_step)
qed

lemma crash_lossless: "crash sz d es (apply_devents sz es d)"
proof -
  have "apply_devents sz (after_sync s es) (apply_devents sz (upto_sync s es) d) = apply_devents sz es d" for s
    using upto_after_sync [of s es] apply_devents_simps(3) by metis
  then show ?thesis using crash_db_apply crash_log_apply unfolding crash_def by metis
qed

section \<open>A concrete run\<close>

definition example_disk :: disk where
  "example_disk = the (created 32 0)"

definition example_open :: pager where
  "example_open = the (init_recover example_disk 5)"

definition example_tx :: pager where
  "example_tx = begin_transaction 0 example_open"

definition example_root :: pager where
  "example_root = the (set_root example_tx 7)"

definition example_new :: pager where
  "example_new = snd (the (new_page example_tx))"

definition example_done :: pager where
  "example_done = fst (the (commit_transaction example_root))"

lemmas example_defs = example_disk_def example_open_def example_tx_def example_root_def
  created_eq new_header_def begin_transaction_def take_transaction_def set_root_def
  init_recover_def maybe_recover_wal_def read_header_def fresh_pager_def try_load_def Let_def

lemmas commit_defs = commit_transaction_def write_set_def dirty_pages_def log_writes_def
  append_frames_def mk_frame_def io_def apply_devent_def write_frames_def commit_log_def
  finish_transaction_def wal_commit_def index_frames_def zero_page_def

lemmas new_page_defs = new_page_def scan_bitsets.simps append_bitset_def bitset_stride_def
  bitset_entry_count_def pages_per_entry_def grow_file_eq ensure_page_zeroed_def set_page_count_def
  grow_file_def resize_event_def rwpage_def page_guard_def load_page_def find_frame_def
  file_page_def put_page_def io_def apply_devent_def resize_pages_def zero_page_def

lemma example_represents: "represents example_disk (new_header 32) Pg"
  by (rule represents_created [where salt = 0]) (simp_all add: example_disk_def created_eq)

lemma example_open: "init_recover example_disk 5 = Some example_open"
  by (simp add: example_defs)

lemma example_run:
  "run example_disk 5 (new_header 32) Pg example_open (new_header 32) Pg"
  "run example_disk 5 (new_header 32) Pg example_tx (new_header 32) Pg"
  "run example_disk 5 (new_header 32) Pg example_root (new_header 32) Pg"
proof -
  show a: "run example_disk 5 (new_header 32) Pg example_open (new_header 32) Pg"
    by (rule run_open [OF example_represents example_open])
  then show b: "run example_disk 5 (new_header 32) Pg example_tx (new_header 32) Pg"
    unfolding example_tx_def by (rule run_begin)
  have "set_root example_tx 7 = Some example_root" by (simp add: example_defs)
  with b show "run example_disk 5 (new_header 32) Pg example_root (new_header 32) Pg"
    by (rule run_root)
qed

lemma example_commit: "commit_transaction example_root = Some (example_done, None)"
  by (simp add: example_done_def example_defs commit_defs)

lemma example_alloc_ok: "alloc_ok example_tx"
  by (auto simp: alloc_ok_def is_bitset_def example_defs bitset_entry_count_def)

lemma example_new_page: "new_page example_tx = Some (2, example_new)"
  by (simp add: example_new_def example_defs new_page_defs)

lemma example_done_run:
  "run example_disk 5 (new_header 32) Pg example_done (hdr example_root) (new_pages example_root)"
  by (rule run_commit [OF example_run(3) example_commit])

definition example_disk2 :: disk where
  "example_disk2 = apply_devents 32 (trace example_done) example_disk"

lemma example_disk2: "represents example_disk2 (hdr example_root) (new_pages example_root)"
proof (rule run_inv_crash [OF run_invariant [OF example_done_run]])
  show "crash (page_size (new_header 32)) example_disk (trace example_done) example_disk2"
    using crash_lossless [of 32 example_disk "trace example_done"]
    by (simp add: example_disk2_def) (simp add: new_header_def)
qed

text \<open>The end of a transaction wakes the first waiter.\<close>

lemma io_tx_waiters [simp]: "tx_waiters (io es p) = tx_waiters p"
  by (simp add: io_def)

lemma checkpoint_tx_waiters: "checkpoint p = Some q \<Longrightarrow> tx_waiters q = tx_waiters p"
  by (auto simp: checkpoint_def wal_reset_def bind_eq_Some_conv Let_def split: if_split_asm)

lemma commit_log_tx_waiters:
  assumes "commit_log p = Some q"
  shows "tx_waiters q = tx_waiters p"
proof -
  obtain w where w: "wal_of p = Some w"
    using assms by (cases "wal_of p") (auto simp: commit_log_def)
  show ?thesis
  proof (cases "frame_count (header w) > 0")
    case False
    then show ?thesis using assms w by (simp add: commit_log_def)
  next
    case True
    then obtain es where es: "wal_commit (header w) = Some es"
      using assms w by (auto simp: commit_log_def bind_eq_Some_conv)
    define q' where "q' = (io es p)\<lparr>wal_transaction_count := wal_transaction_count p + 1\<rparr>"
    have "commit_log p = (if wal_transaction_count q' \<ge> checkpoint_interval q' then checkpoint q'
      else Some q')"
      unfolding commit_log_def Let_def q'_def using w True es by simp
    then have "checkpoint q' = Some q \<or> q' = q" using assms by (metis option.inject)
    then have "tx_waiters q = tx_waiters q'" by (auto dest: checkpoint_tx_waiters)
    then show ?thesis by (simp add: q'_def)
  qed
qed

lemma commit_tx_waiters:
  assumes "commit_transaction p = Some (q, r)"
  obtains s where "(q, r) = finish_transaction s" "tx_waiters s = tx_waiters p"
proof (cases "wal_of p")
  case None
  then obtain s where "commit_no_wal p = Some s" "(q, r) = finish_transaction s"
    using assms by (auto simp: commit_transaction_def bind_eq_Some_conv split: if_splits)
  then show thesis using that
    by (auto simp: commit_no_wal_def bind_eq_Some_conv Let_def split: if_splits)
next
  case (Some w)
  then obtain q1 q2 where c: "log_writes p w = Some q1" "commit_log q1 = Some q2"
    "(q, r) = finish_transaction (q2\<lparr>cache := []\<rparr>)"
    using assms by (auto simp: commit_transaction_def bind_eq_Some_conv split: if_splits)
  have "tx_waiters q2 = tx_waiters p"
    using log_writes_eq [OF c(1)] commit_log_tx_waiters [OF c(2)] by simp
  then show thesis using that [OF c(3)] by simp
qed

lemma finish_handover:
  assumes "(q, r) = finish_transaction s"
  shows "case tx_waiters s of [] \<Rightarrow> r = None \<and> \<not> transaction_active q \<and> tx_waiters q = []
    | t # ts \<Rightarrow> r = Some t \<and> transaction_active q \<and> tx_waiters q = ts \<and> saved_hdr q = hdr s"
  using assms by (auto simp: finish_transaction_def take_transaction_def Let_def split: list.splits)

text \<open>A clean page is a page of the last commit.\<close>

lemma tx_clean_page:
  assumes tx: "tx_inv b g p w Pg" and "\<not> is_dirty p i" "0 < i" "i < page_count (hdr p)"
  shows "cur_page p i = Some (Pg i)"
proof (cases "map_of (cache p) i")
  case None
  then show ?thesis
    using undone_load [of b g p w Pg i] tx miss_old [OF tx None assms(3,4)] assms(3)
    by (simp add: tx_inv_alt cur_page_def)
next
  case (Some e)
  then have "\<not> dirty e" using assms(2) by (simp add: is_dirty_def)
  then have "i < page_count (saved_hdr p)" "load_page p i = Some (data e)"
    using tx Some by (auto simp: tx_inv_def cache_inv_def)
  moreover have "load_page p i = Some (Pg i)"
    using undone_load [of b g p w Pg i] tx calculation(1) assms(3) by (simp add: tx_inv_alt)
  ultimately show ?thesis using Some by (simp add: cur_page_def)
qed

text \<open>A second committed state, of three pages.\<close>

definition example_new_done :: pager where
  "example_new_done = fst (the (commit_transaction example_new))"

definition example_tx2 :: pager where
  "example_tx2 = begin_transaction 1 example_new_done"

lemma example_new_run:
  "run example_disk 5 (new_header 32) Pg example_new (new_header 32) Pg"
  by (rule run_new [OF example_run(2) example_alloc_ok _ example_new_page])
    (simp add: example_defs)

lemma header_idx_neq [simp]: "Suc 0 \<noteq> header_idx" "2 \<noteq> header_idx" "3 \<noteq> header_idx" "4 \<noteq> header_idx"
    "header_idx \<noteq> Suc 0" "header_idx \<noteq> 2" "header_idx \<noteq> 3" "header_idx \<noteq> 4"
  by (simp_all add: header_idx_def)

lemmas read_defs = rpage_def rwpage_def page_guard_def load_page_def find_frame_def file_page_def
  read_frame_def page_payload_def

lemma example_new_commit: "commit_transaction example_new = Some (example_new_done, None)"
  by (simp add: example_new_done_def example_new_def example_defs new_page_defs commit_defs)

lemma example_tx2_run:
  "run example_disk 5 (new_header 32) Pg example_tx2 (hdr example_new) (new_pages example_new)"
  unfolding example_tx2_def by (rule run_begin [OF run_commit [OF example_new_run example_new_commit]])

lemma example_read: "\<exists>q. rpage example_tx2 2 = Some (zero_page 32, q)" "\<not> is_dirty example_tx2 2"
  by (simp_all add: example_tx2_def example_new_done_def example_new_def example_defs new_page_defs
      commit_defs read_defs is_dirty_def)

lemma example_new_alloc_ok: "alloc_ok example_new"
proof -
  have "fresh_zero example_tx" "psize example_tx = 32" "page_count (new_header 32) \<le> page_count (hdr example_tx)"
    by (simp_all add: fresh_zero_def example_defs find_frame_def)
  moreover obtain b g w where "tx_inv b g example_tx w (\<lambda>i. [])" "saved_hdr example_tx = new_header 32"
    using run_inv_tx [OF run_invariant [OF example_run(2)]] no_tx_ops(4) example_new_page
    by (metis option.distinct(1))
  ultimately show ?thesis using new_page_effect(5) [OF example_new_page] example_alloc_ok by auto
qed

lemma example_delete: "\<exists>q. delete_page example_new 2 = Some q \<and> page_count (hdr q) = 1"
  by (simp add: example_new_def example_defs new_page_defs delete_page_def bitset_page_of_def
      trim_pages.simps trimmed_count_def last_used.simps)

section \<open>Properties\<close>





text \<open>C3 Recovery is idempotent under crashes. If the process dies again while it replays the
  log, at any transfer of the replay, the next recovery still finds the same database.\<close>

theorem recovery_crash_safe:
  assumes "represents d H Pg" "init_recover d k = Some r"
    and "prefix us (trace r)" "crash (page_size H) d us d'"
  shows "\<exists>r'. init_recover d' k' = Some r' \<and> recovered r' H Pg"
proof -
  obtain h where "wf_header (log d) = Some h"
    "trace r = recovery_events H (if frame_count h = 0 then [] else committed h (log d))"
    using init_recover_represents [OF assms(1), of k] assms(2) by auto
  then have "represents d' H Pg" using crash_in_recovery [OF assms(1) _ assms(4)] assms(3) by simp
  then show ?thesis by (rule represents_recovers)
qed

theorem recovery_crash_safe_witness:
  "\<exists>r r'. init_recover example_disk2 5 = Some r \<and>
     init_recover (apply_devents 32 (take 1 (trace r)) example_disk2) 5 = Some r' \<and>
     recovered r' (hdr example_root) (new_pages example_root)"
proof -
  obtain r where r: "init_recover example_disk2 5 = Some r"
    using represents_recovers [OF example_disk2] by blast
  have "page_size (hdr example_root) = 32" by (simp add: example_defs)
  then show ?thesis
    using recovery_crash_safe [OF example_disk2 r take_is_prefix, of 1 _ 5] r
      crash_lossless [of 32 example_disk2 "take 1 (trace r)"] by auto
qed





text \<open>C9 Freeing. \<open>delete_page\<close> takes a used page out of use and no other one; the end of the
  database is cut only behind the last used page, so every used page stays inside it.\<close>

theorem delete_page_frees_one:
  assumes "run d k H0 Pg0 p H Pg" "delete_page p i = Some q" "alloc_ok p"
  shows "allocated p i \<and> (\<forall>j. allocated q j \<longleftrightarrow> j \<noteq> i \<and> allocated p j) \<and> alloc_ok q \<and>
    page_count (hdr q) \<le> page_count (hdr p) \<and> (\<forall>j. allocated q j \<longrightarrow> cur_page q j = cur_page p j)"
proof -
  have "transaction_active p" using no_tx_ops(5) assms(2) by fastforce
  then obtain b g w where tx: "tx_inv b g p w Pg" "saved_hdr p = H"
    using run_inv_tx [OF run_invariant [OF assms(1)]] by metis
  show ?thesis
    by (rule delete_page_cases [OF assms(2) tx(1) assms(3)]) (auto simp: trims_def)
qed

theorem delete_page_frees_one_witness:
  "\<exists>q. delete_page example_new 2 = Some q \<and> allocated example_new 2 \<and> \<not> allocated q 2 \<and>
     page_count (hdr q) = 1"
proof -
  obtain q where q: "delete_page example_new 2 = Some q" "page_count (hdr q) = 1"
    using example_delete by blast
  from delete_page_frees_one [OF example_new_run [where Pg = "\<lambda>i. []"] q(1) example_new_alloc_ok] q
  show ?thesis by auto
qed

text \<open>C39 Hand-over. When a transaction commits, the coroutine that waits longest gets the next
  transaction, started from the committed header; with nobody waiting the pager is idle.\<close>

theorem commit_hands_over:
  assumes "commit_transaction p = Some (q, r)"
  shows "case tx_waiters p of
      [] \<Rightarrow> r = None \<and> \<not> transaction_active q
    | t # ts \<Rightarrow> r = Some t \<and> transaction_active q \<and> tx_waiters q = ts \<and> saved_hdr q = hdr q"
proof (rule commit_tx_waiters [OF assms])
  fix s assume s: "(q, r) = finish_transaction s" "tx_waiters s = tx_waiters p"
  have "q = fst (finish_transaction s)" using s(1) by (metis fst_conv)
  then have "hdr q = hdr s" by simp
  then show ?thesis using finish_handover [OF s(1)] s(2) by (auto split: list.splits)
qed

theorem commit_hands_over_witness:
  "\<exists>q. commit_transaction (begin_transaction 9 example_root) = Some (q, Some 9) \<and> transaction_active q"
proof -
  obtain q r where qr: "commit_transaction (begin_transaction 9 example_root) = Some (q, r)"
    by (simp add: example_defs commit_defs)
  have "tx_waiters (begin_transaction 9 example_root) = [9]" by (simp add: example_defs)
  then show ?thesis using commit_hands_over [OF qr] qr by simp
qed

end
