(* ===== verification/Anomalies.thy ===== *)
theory Anomalies
  imports Runs
begin

text \<open>
  A run in which the allocator loses committed data. \<open>new_page\<close> grows the file with
  \<open>file_resize_zero\<close>, which is \<open>ftruncate\<close>: after a \<open>delete_page\<close> that trimmed the database
  in the same transaction the new size is below the committed one.
\<close>

text \<open>A database of five pages without a log: the header page, a bitset, pages 2 to 4 in use.\<close>

definition five_pages :: disk where
  "five_pages = \<lparr>
     db = \<lparr>db_header = (new_header 32)\<lparr>page_count := 5\<rparr>,
       db_pages = [zero_page 32, [7, 0, 0, 0], zero_page 32, zero_page 32, [42, 0, 0, 0]]\<rparr>,
     log = \<lparr>wf_header = None, wf_frames = []\<rparr>\<rparr>"

definition shrink_start :: pager where
  "shrink_start = begin_transaction 0 (init five_pages 10)"

definition shrink_freed4 :: pager where
  "shrink_freed4 = shrink_start\<lparr>hdr := (hdr shrink_start)\<lparr>page_count := 4\<rparr>, header_in_write_set := True,
     cache := [(1, \<lparr>data = [3, 0, 0, 0], dirty = True\<rparr>), (4, \<lparr>data = zero_page 32, dirty = True\<rparr>)]\<rparr>"

definition shrink_freed :: pager where
  "shrink_freed = shrink_start\<lparr>hdr := (hdr shrink_start)\<lparr>page_count := 3\<rparr>, header_in_write_set := True,
     cache := [(1, \<lparr>data = [1, 0, 0, 0], dirty = True\<rparr>), (4, \<lparr>data = zero_page 32, dirty = True\<rparr>),
       (3, \<lparr>data = zero_page 32, dirty = True\<rparr>)]\<rparr>"

definition shrink_new :: pager where
  "shrink_new = shrink_start\<lparr>hdr := (hdr shrink_start)\<lparr>page_count := 4\<rparr>, header_in_write_set := True,
     cache := [(1, \<lparr>data = [3, 0, 0, 0], dirty = True\<rparr>), (4, \<lparr>data = zero_page 32, dirty = True\<rparr>),
       (3, \<lparr>data = zero_page 32, dirty = True\<rparr>)],
     disk_of := five_pages\<lparr>db := (db five_pages)\<lparr>db_pages := take 4 (db_pages (db five_pages))\<rparr>\<rparr>,
     trace := [DbResize 4]\<rparr>"

text \<open>After the rollback.\<close>

definition shrink_after :: pager where
  "shrink_after = begin_transaction 1 (fst (rollback_transaction shrink_new))"

lemmas delete_defs = delete_page_def bitset_page_of_def trim_pages.simps trimmed_count_def last_used.simps

lemmas shrink_defs = shrink_start_def five_pages_def init_def read_header_def fresh_pager_def
  new_header_def begin_transaction_def take_transaction_def

lemma replicate_4: "replicate 4 x = [x, x, x, x]"
  by (simp add: numeral_eq_Suc)

lemma bits: "free_entry 4 [1, 0, 0, 0] = Some 0"
  "count_trailing_zeros (- 2) = 1" "count_leading_zeros 1 = 63" "count_leading_zeros 3 = 62"
  by code_simp+


lemma shrink_step1: "delete_page shrink_start 4 = Some shrink_freed4"
  by (simp add: shrink_freed4_def shrink_defs delete_defs new_page_defs replicate_4 bits)

lemma shrink_step2: "delete_page shrink_freed4 3 = Some shrink_freed"
  by (simp add: shrink_freed_def shrink_freed4_def shrink_defs delete_defs new_page_defs replicate_4 bits)

lemma shrink_step3: "new_page shrink_freed = Some (3, shrink_new)"
  by (simp add: shrink_freed_def shrink_new_def shrink_defs new_page_defs take_free_bit_def replicate_4 bits Let_def)


text \<open>An empty log empties the database. When the log file is missing its header, \<open>init\<close> with
  a log keeps the default log header, whose page size is 0; the first checkpoint then sizes the
  database file to \<open>page_count\<close> pages of 0 bytes. Every page is lost.\<close>

theorem unread_log_checkpoint_empties:
  assumes "try_load (log d) (page_size (db_header (db d))) = None"
    and "init_recover d k = Some p" "checkpoint p = Some q"
  shows "db_pages (db (disk_of q)) = []"
proof -
  have p: "p = read_header (fresh_pager d k (Some \<lparr>header = default_wal_header, wal_index = []\<rparr>))"
    using assms(1,2)
    by (simp add: init_recover_def maybe_recover_wal_def read_header_def fresh_pager_def)
  show ?thesis using assms(3)
    by (auto simp: p checkpoint_def read_header_def fresh_pager_def default_wal_header_def
        wal_reset_def io_def resize_pages_def split: if_splits)
qed

theorem unread_log_checkpoint_empties_witness:
  "\<exists>p q. init_recover five_pages 1 = Some p \<and> file_page (disk_of p) 4 = Some [42, 0, 0, 0] \<and>
     checkpoint p = Some q \<and> db_pages (db (disk_of q)) = []"
proof -
  define p where
    "p = read_header (fresh_pager five_pages 1 (Some \<lparr>header = default_wal_header, wal_index = []\<rparr>))"
  have l: "try_load (log five_pages) (page_size (db_header (db five_pages))) = None"
    by (simp add: five_pages_def try_load_def)
  then have p: "init_recover five_pages 1 = Some p"
    by (simp add: p_def init_recover_def maybe_recover_wal_def read_header_def fresh_pager_def)
  have "\<exists>q. checkpoint p = Some q" "file_page (disk_of p) 4 = Some [42, 0, 0, 0]"
    by (simp_all add: p_def checkpoint_def read_header_def fresh_pager_def default_wal_header_def
        wal_reset_def five_pages_def file_page_def)
  then show ?thesis using p unread_log_checkpoint_empties [OF l p] by blast
qed

end
