(* ===== verification/CqlValue.thy ===== *)
theory CqlValue
  imports Bytes
begin

text \<open>
  The data types and the column values of CQL (\<open>cql/engine/types.cppm\<close>,
  \<open>cql/engine/column_value.cppm\<close>).

  Machine integers are words, signed ones read with \<open>sint\<close>; floating point numbers are
  their IEEE bit patterns (the code moves them as bits, and orders them by the bits). A text
  or a blob is its bytes. A UUID is the list of its sixteen bytes, an address the list of its
  four or sixteen. \<open>DynamicSet\<close> and \<open>DynamicMap\<close> are hash tables: a list of slots, each a
  list of keys, in the order an iterator visits them. A \<open>UDT*\<close> is the type it points to;
  every one the code stores comes from \<open>create_udt\<close>, which traps on a null pointer.
\<close>

section \<open>Types\<close>

datatype basic =
    BAscii | BBigint | BBlob | BBoolean | BCounter | BDate | BDecimal | BDouble | BDuration
  | BFloat | BInet | BInt | BSmallint | BText | BTime | BTimestamp | BTimeuuid | BTinyint
  | BUuid | BVarchar | BVarint | BHex | BCOUNT

datatype ctype =
    TBasic basic
  | TList ctype bool
  | TSet ctype bool
  | TMap ctype ctype bool
  | TVector ctype u64 bool
  | TTuple "ctype list" bool
  | TUdt bytes bytes "bytes list" "ctype list"

section \<open>Values\<close>

record varint =
  negative :: bool
  magnitude :: bytes

datatype cv =
    CText bytes
  | CS64 u64
  | CS32 u32
  | CS16 u16
  | CU8 u8
  | CF64 u64
  | CF32 u32
  | CBlob bytes
  | CUuid bytes
  | CInet bool bytes
  | CVarInt varint
  | CDecimal u32 varint
  | CDuration u32 u32 u64
  | CArray "cv list"
  | CSet "cv list list"
  | CMap "(cv \<times> cv) list list"
  | CNull

text \<open>The fixed sizes of the arrays inside a value, and lengths that fit a machine word.\<close>

fun wf_basic :: "cv \<Rightarrow> bool" where
  "wf_basic (CText s) \<longleftrightarrow> length s < 2 ^ 64"
| "wf_basic (CBlob s) \<longleftrightarrow> length s < 2 ^ 64"
| "wf_basic (CUuid u) \<longleftrightarrow> length u = 16"
| "wf_basic (CInet v6 a) \<longleftrightarrow> length a = (if v6 then 16 else 4)"
| "wf_basic (CVarInt v) \<longleftrightarrow> length (magnitude v) < 2 ^ 64"
| "wf_basic (CDecimal s v) \<longleftrightarrow> length (magnitude v) < 2 ^ 64"
| "wf_basic _ \<longleftrightarrow> True"

text \<open>The members of \<open>ColumnValueBasicTypes\<close>.\<close>

fun is_basic :: "cv \<Rightarrow> bool" where
  "is_basic (CArray _) \<longleftrightarrow> False"
| "is_basic (CSet _) \<longleftrightarrow> False"
| "is_basic (CMap _) \<longleftrightarrow> False"
| "is_basic CNull \<longleftrightarrow> False"
| "is_basic _ \<longleftrightarrow> True"

end
