(* ===== verification/Codec.thy ===== *)
theory Codec
  imports CqlValue
begin

text \<open>
  The storage encoding of basic column values: the generated reader, skipper, writer and
  default writer (\<open>cql/engine/generated/io_codec_wire.cpp\<close>, \<open>io_codec_wire.cppm\<close>) and the
  synchronous reader with its 16-bit cursor (\<open>generated/io_codec_sync.cpp\<close>).
\<close>

section \<open>Readers\<close>

text \<open>A length word and as many bytes; the shape of texts, blobs and magnitudes.\<close>

definition rd_sized :: "bytes \<Rightarrow> (bytes \<times> bytes) option" where
  "rd_sized bs = do { (n, bs) \<leftarrow> rd_u64 bs; rd (unat n) bs }"

definition rd_bool :: "bytes \<Rightarrow> (bool \<times> bytes) option" where
  "rd_bool bs = do { (raw, bs) \<leftarrow> rd_u8 bs; Some (raw \<noteq> 0, bs) }"

definition rd_varint :: "bytes \<Rightarrow> (varint \<times> bytes) option" where
  "rd_varint bs = do {
     (neg, bs) \<leftarrow> rd_bool bs;
     (mag, bs) \<leftarrow> rd_sized bs;
     Some (\<lparr>negative = neg, magnitude = mag\<rparr>, bs)
   }"

definition rd_inet :: "bytes \<Rightarrow> (cv \<times> bytes) option" where
  "rd_inet bs = do {
     (v6, bs) \<leftarrow> rd_bool bs;
     (a, bs) \<leftarrow> rd (if v6 then 16 else 4) bs;
     Some (CInet v6 a, bs)
   }"

definition rd_decimal :: "bytes \<Rightarrow> (cv \<times> bytes) option" where
  "rd_decimal bs = do {
     (scale, bs) \<leftarrow> rd_u32 bs;
     (unscaled, bs) \<leftarrow> rd_varint bs;
     Some (CDecimal scale unscaled, bs)
   }"

definition rd_duration :: "bytes \<Rightarrow> (cv \<times> bytes) option" where
  "rd_duration bs = do {
     (months, bs) \<leftarrow> rd_u32 bs;
     (days, bs) \<leftarrow> rd_u32 bs;
     (ns, bs) \<leftarrow> rd_u64 bs;
     Some (CDuration months days ns, bs)
   }"

definition got :: "('a \<Rightarrow> cv) \<Rightarrow> ('a \<times> bytes) option \<Rightarrow> (cv \<times> bytes) option" where
  "got c = map_option (\<lambda>(x, bs). (c x, bs))"

definition read_basic :: "basic \<Rightarrow> bytes \<Rightarrow> (cv \<times> bytes) option" where
  "read_basic dtype bs = (case dtype of
       BSmallint \<Rightarrow> got CS16 (rd_u16 bs)
     | BInt \<Rightarrow> got CS32 (rd_u32 bs) | BDate \<Rightarrow> got CS32 (rd_u32 bs)
     | BBigint \<Rightarrow> got CS64 (rd_u64 bs) | BTimestamp \<Rightarrow> got CS64 (rd_u64 bs)
     | BCounter \<Rightarrow> got CS64 (rd_u64 bs) | BTime \<Rightarrow> got CS64 (rd_u64 bs)
     | BTinyint \<Rightarrow> got CU8 (rd_u8 bs)
     | BBoolean \<Rightarrow> got CU8 (rd_u8 bs)
     | BFloat \<Rightarrow> got CF32 (rd_u32 bs)
     | BDouble \<Rightarrow> got CF64 (rd_u64 bs)
     | BText \<Rightarrow> got CText (rd_sized bs) | BVarchar \<Rightarrow> got CText (rd_sized bs)
     | BAscii \<Rightarrow> got CText (rd_sized bs)
     | BBlob \<Rightarrow> got CBlob (rd_sized bs) | BHex \<Rightarrow> got CBlob (rd_sized bs)
     | BUuid \<Rightarrow> got CUuid (rd 16 bs) | BTimeuuid \<Rightarrow> got CUuid (rd 16 bs)
     | BInet \<Rightarrow> rd_inet bs
     | BVarint \<Rightarrow> got CVarInt (rd_varint bs)
     | BDecimal \<Rightarrow> rd_decimal bs
     | BDuration \<Rightarrow> rd_duration bs
     | BCOUNT \<Rightarrow> None)"

text \<open>A skip reads into no buffer: the stream moves on by as many bytes.\<close>

definition skip :: "nat \<Rightarrow> bytes \<Rightarrow> bytes option" where
  "skip n bs = map_option snd (rd n bs)"

definition skip_sized :: "bytes \<Rightarrow> bytes option" where
  "skip_sized bs = do { (n, bs) \<leftarrow> rd_u64 bs; skip (unat n) bs }"

definition skip_basic :: "basic \<Rightarrow> bytes \<Rightarrow> bytes option" where
  "skip_basic dtype bs = (case dtype of
       BSmallint \<Rightarrow> skip 2 bs
     | BInt \<Rightarrow> skip 4 bs | BDate \<Rightarrow> skip 4 bs
     | BBigint \<Rightarrow> skip 8 bs | BTimestamp \<Rightarrow> skip 8 bs | BCounter \<Rightarrow> skip 8 bs | BTime \<Rightarrow> skip 8 bs
     | BTinyint \<Rightarrow> skip 1 bs
     | BBoolean \<Rightarrow> skip 1 bs
     | BFloat \<Rightarrow> skip 4 bs
     | BDouble \<Rightarrow> skip 8 bs
     | BText \<Rightarrow> skip_sized bs | BVarchar \<Rightarrow> skip_sized bs | BAscii \<Rightarrow> skip_sized bs
     | BBlob \<Rightarrow> skip_sized bs | BHex \<Rightarrow> skip_sized bs
     | BUuid \<Rightarrow> skip 16 bs | BTimeuuid \<Rightarrow> skip 16 bs
     | BInet \<Rightarrow> do { (v6, bs) \<leftarrow> rd_bool bs; skip (if v6 then 16 else 4) bs }
     | BVarint \<Rightarrow> do { bs \<leftarrow> skip 1 bs; skip_sized bs }
     | BDecimal \<Rightarrow> do { bs \<leftarrow> skip 4 bs; bs \<leftarrow> skip 1 bs; skip_sized bs }
     | BDuration \<Rightarrow> do { bs \<leftarrow> skip 4 bs; bs \<leftarrow> skip 4 bs; skip 8 bs }
     | BCOUNT \<Rightarrow> None)"

section \<open>Writers\<close>

definition put_sized :: "bytes \<Rightarrow> bytes" where
  "put_sized xs = put_word (word_of_nat (length xs) :: u64) @ xs"

definition put_bool :: "bool \<Rightarrow> bytes" where
  "put_bool b = put_word (if b then 1 else 0 :: u8)"

definition put_varint :: "varint \<Rightarrow> bytes" where
  "put_varint v = put_bool (negative v) @ put_sized (magnitude v)"

text \<open>\<open>write_typed_basic\<close> has an instance for every basic type; the code never calls it on others.\<close>

fun write_typed_basic :: "cv \<Rightarrow> bytes" where
  "write_typed_basic (CS16 x) = put_word x"
| "write_typed_basic (CS32 x) = put_word x"
| "write_typed_basic (CS64 x) = put_word x"
| "write_typed_basic (CU8 x) = put_word x"
| "write_typed_basic (CF32 x) = put_word x"
| "write_typed_basic (CF64 x) = put_word x"
| "write_typed_basic (CText s) = put_sized s"
| "write_typed_basic (CBlob s) = put_sized s"
| "write_typed_basic (CUuid u) = u"
| "write_typed_basic (CInet v6 a) = put_bool v6 @ a"
| "write_typed_basic (CVarInt v) = put_varint v"
| "write_typed_basic (CDecimal s v) = put_word s @ put_varint v"
| "write_typed_basic (CDuration m d n) = put_word m @ put_word d @ put_word n"
| "write_typed_basic _ = []"

definition write_default_basic :: "basic \<Rightarrow> bytes" where
  "write_default_basic dtype = (case dtype of
       BSmallint \<Rightarrow> put_word (0 :: u16)
     | BInt \<Rightarrow> put_word (0 :: u32) | BDate \<Rightarrow> put_word (0 :: u32)
     | BBigint \<Rightarrow> put_word (0 :: u64) | BTimestamp \<Rightarrow> put_word (0 :: u64)
     | BCounter \<Rightarrow> put_word (0 :: u64) | BTime \<Rightarrow> put_word (0 :: u64)
     | BTinyint \<Rightarrow> put_word (0 :: u8)
     | BBoolean \<Rightarrow> put_word (0 :: u8)
     | BFloat \<Rightarrow> put_word (0 :: u32)
     | BDouble \<Rightarrow> put_word (0 :: u64)
     | BText \<Rightarrow> put_word (0 :: u64) | BVarchar \<Rightarrow> put_word (0 :: u64)
     | BAscii \<Rightarrow> put_word (0 :: u64)
     | BBlob \<Rightarrow> put_word (0 :: u64) | BHex \<Rightarrow> put_word (0 :: u64)
     | BUuid \<Rightarrow> replicate 16 0 | BTimeuuid \<Rightarrow> replicate 16 0
     | BInet \<Rightarrow> put_word (0 :: u8) @ replicate 4 0
     | BVarint \<Rightarrow> put_word (0 :: u8) @ put_word (0 :: u64)
     | BDecimal \<Rightarrow> put_word (0 :: u32) @ put_word (0 :: u8) @ put_word (0 :: u64)
     | BDuration \<Rightarrow> put_word (0 :: u32) @ put_word (0 :: u32) @ put_word (0 :: u64)
     | BCOUNT \<Rightarrow> [])"

definition is_literal_integer_family :: "basic \<Rightarrow> bool" where
  "is_literal_integer_family dtype \<longleftrightarrow>
     dtype \<in> {BSmallint, BInt, BDate, BBigint, BTimestamp, BCounter, BTime, BTinyint}"

definition is_literal_float_family :: "basic \<Rightarrow> bool" where
  "is_literal_float_family dtype \<longleftrightarrow> dtype \<in> {BFloat, BDouble}"

fun can_write_basic :: "cv \<Rightarrow> basic \<Rightarrow> bool" where
  "can_write_basic (CS64 _) t \<longleftrightarrow> is_literal_integer_family t"
| "can_write_basic (CF64 _) t \<longleftrightarrow> is_literal_float_family t"
| "can_write_basic CNull t \<longleftrightarrow> True"
| "can_write_basic (CS16 _) t \<longleftrightarrow> t = BSmallint"
| "can_write_basic (CS32 _) t \<longleftrightarrow> t = BInt \<or> t = BDate"
| "can_write_basic (CU8 _) t \<longleftrightarrow> t = BTinyint \<or> t = BBoolean"
| "can_write_basic (CF32 _) t \<longleftrightarrow> t = BFloat"
| "can_write_basic (CText _) t \<longleftrightarrow> t = BText \<or> t = BVarchar \<or> t = BAscii"
| "can_write_basic (CBlob _) t \<longleftrightarrow> t = BBlob \<or> t = BHex"
| "can_write_basic (CUuid _) t \<longleftrightarrow> t = BUuid \<or> t = BTimeuuid"
| "can_write_basic (CInet _ _) t \<longleftrightarrow> t = BInet"
| "can_write_basic (CVarInt _) t \<longleftrightarrow> t = BVarint"
| "can_write_basic (CDecimal _ _) t \<longleftrightarrow> t = BDecimal"
| "can_write_basic (CDuration _ _ _) t \<longleftrightarrow> t = BDuration"
| "can_write_basic _ t \<longleftrightarrow> False"

text \<open>A literal of 64 bits cut to the width of its column: the high bits are dropped.\<close>

definition narrow_s64_literal :: "u64 \<Rightarrow> basic \<Rightarrow> cv" where
  "narrow_s64_literal v dtype = (case dtype of
       BSmallint \<Rightarrow> CS16 (ucast v)
     | BInt \<Rightarrow> CS32 (ucast v) | BDate \<Rightarrow> CS32 (ucast v)
     | BTinyint \<Rightarrow> CU8 (ucast v)
     | _ \<Rightarrow> CS64 v)"

section \<open>The synchronous reader\<close>

text \<open>
  The source is a buffer of \<open>len\<close> bytes and the position a 16-bit cursor. The bounds check
  adds in 64 bits, so a huge length word wraps around it; the copy then leaves the buffer,
  which is \<open>None\<close> here like the trap.
\<close>

definition in_bounds :: "u16 \<Rightarrow> u64 \<Rightarrow> u16 \<Rightarrow> bool" where
  "in_bounds pos n len \<longleftrightarrow> ucast pos + n \<le> (ucast len :: u64)"

definition take_sync :: "bytes \<Rightarrow> u16 \<Rightarrow> u64 \<Rightarrow> u16 \<Rightarrow> (bytes \<times> u16) option" where
  "take_sync src len n pos = do {
     assert_true (in_bounds pos n len);
     (xs, _) \<leftarrow> rd (unat n) (drop (unat pos) src);
     Some (xs, pos + ucast n)
   }"

definition sync_word :: "bytes \<Rightarrow> u16 \<Rightarrow> ('a::len word \<Rightarrow> cv) \<Rightarrow> u16 \<Rightarrow> (cv \<times> u16) option" where
  "sync_word src len c pos = do {
     (xs, pos) \<leftarrow> take_sync src len (word_of_nat (LENGTH('a) div 8)) pos;
     Some (c (word_at xs), pos)
   }"

definition sync_sized :: "bytes \<Rightarrow> u16 \<Rightarrow> u16 \<Rightarrow> (bytes \<times> u16) option" where
  "sync_sized src len pos = do {
     (xs, pos) \<leftarrow> take_sync src len 8 pos;
     take_sync src len (word_at xs) pos
   }"

definition sync_bool :: "bytes \<Rightarrow> u16 \<Rightarrow> u16 \<Rightarrow> (bool \<times> u16) option" where
  "sync_bool src len pos = do {
     (xs, pos) \<leftarrow> take_sync src len 1 pos;
     Some ((word_at xs :: u8) \<noteq> 0, pos)
   }"

definition sync_text :: "bytes \<Rightarrow> u16 \<Rightarrow> u16 \<Rightarrow> (cv \<times> u16) option" where
  "sync_text src len pos = do { (s, pos) \<leftarrow> sync_sized src len pos; Some (CText s, pos) }"

definition sync_blob :: "bytes \<Rightarrow> u16 \<Rightarrow> u16 \<Rightarrow> (cv \<times> u16) option" where
  "sync_blob src len pos = do { (s, pos) \<leftarrow> sync_sized src len pos; Some (CBlob s, pos) }"

definition sync_uuid :: "bytes \<Rightarrow> u16 \<Rightarrow> u16 \<Rightarrow> (cv \<times> u16) option" where
  "sync_uuid src len pos = do { (u, pos) \<leftarrow> take_sync src len 16 pos; Some (CUuid u, pos) }"

definition sync_inet :: "bytes \<Rightarrow> u16 \<Rightarrow> u16 \<Rightarrow> (cv \<times> u16) option" where
  "sync_inet src len pos = do {
     (v6, pos) \<leftarrow> sync_bool src len pos;
     (a, pos) \<leftarrow> take_sync src len (if v6 then 16 else 4) pos;
     Some (CInet v6 a, pos)
   }"

definition sync_varint :: "bytes \<Rightarrow> u16 \<Rightarrow> u16 \<Rightarrow> (varint \<times> u16) option" where
  "sync_varint src len pos = do {
     (neg, pos) \<leftarrow> sync_bool src len pos;
     (mag, pos) \<leftarrow> sync_sized src len pos;
     Some (\<lparr>negative = neg, magnitude = mag\<rparr>, pos)
   }"

definition sync_decimal :: "bytes \<Rightarrow> u16 \<Rightarrow> u16 \<Rightarrow> (cv \<times> u16) option" where
  "sync_decimal src len pos = do {
     (xs, pos) \<leftarrow> take_sync src len 4 pos;
     (v, pos) \<leftarrow> sync_varint src len pos;
     Some (CDecimal (word_at xs) v, pos)
   }"

definition sync_duration :: "bytes \<Rightarrow> u16 \<Rightarrow> u16 \<Rightarrow> (cv \<times> u16) option" where
  "sync_duration src len pos = do {
     (ms, pos) \<leftarrow> take_sync src len 4 pos;
     (ds, pos) \<leftarrow> take_sync src len 4 pos;
     (ns, pos) \<leftarrow> take_sync src len 8 pos;
     Some (CDuration (word_at ms) (word_at ds) (word_at ns), pos)
   }"

definition read_sync :: "bytes \<Rightarrow> u16 \<Rightarrow> u16 \<Rightarrow> basic \<Rightarrow> (cv \<times> u16) option" where
  "read_sync src len pos dtype = (case dtype of
       BSmallint \<Rightarrow> sync_word src len CS16 pos
     | BInt \<Rightarrow> sync_word src len CS32 pos | BDate \<Rightarrow> sync_word src len CS32 pos
     | BBigint \<Rightarrow> sync_word src len CS64 pos | BTimestamp \<Rightarrow> sync_word src len CS64 pos
     | BCounter \<Rightarrow> sync_word src len CS64 pos | BTime \<Rightarrow> sync_word src len CS64 pos
     | BTinyint \<Rightarrow> sync_word src len CU8 pos
     | BBoolean \<Rightarrow> sync_word src len CU8 pos
     | BFloat \<Rightarrow> sync_word src len CF32 pos
     | BDouble \<Rightarrow> sync_word src len CF64 pos
     | BText \<Rightarrow> sync_text src len pos | BVarchar \<Rightarrow> sync_text src len pos
     | BAscii \<Rightarrow> sync_text src len pos
     | BBlob \<Rightarrow> sync_blob src len pos | BHex \<Rightarrow> sync_blob src len pos
     | BUuid \<Rightarrow> sync_uuid src len pos | BTimeuuid \<Rightarrow> sync_uuid src len pos
     | BInet \<Rightarrow> sync_inet src len pos
     | BVarint \<Rightarrow> do { (v, pos) \<leftarrow> sync_varint src len pos; Some (CVarInt v, pos) }
     | BDecimal \<Rightarrow> sync_decimal src len pos
     | BDuration \<Rightarrow> sync_duration src len pos
     | BCOUNT \<Rightarrow> None)"

section \<open>Reading back\<close>

text \<open>The tag a reader produces for a type: the only tag that survives a write and a read.\<close>

fun exact :: "cv \<Rightarrow> basic \<Rightarrow> bool" where
  "exact (CS64 _) t \<longleftrightarrow> t \<in> {BBigint, BTimestamp, BCounter, BTime}"
| "exact (CF64 _) t \<longleftrightarrow> t = BDouble"
| "exact CNull t \<longleftrightarrow> False"
| "exact v t \<longleftrightarrow> can_write_basic v t"

lemma exact_can_write: "exact v t \<Longrightarrow> can_write_basic v t"
  by (cases v) (auto simp: is_literal_integer_family_def is_literal_float_family_def)

lemma exact_is_basic: "exact v t \<Longrightarrow> is_basic v \<and> t \<noteq> BCOUNT"
  by (cases v) auto

lemma rd_sized_put_sized [codec]: "length xs < 2 ^ 64 \<Longrightarrow> rd_sized (put_sized xs @ bs) = Some (xs, bs)"
  by (simp add: rd_sized_def put_sized_def unat_of_nat)

lemma rd_bool_put_bool [codec]: "rd_bool (put_bool b @ bs) = Some (b, bs)"
  by (simp add: rd_bool_def put_bool_def)

lemma rd_varint_put_varint [codec]:
  "length (magnitude v) < 2 ^ 64 \<Longrightarrow> rd_varint (put_varint v @ bs) = Some (v, bs)"
  by (simp add: rd_varint_def put_varint_def codec)

lemma read_write_basic:
  assumes "wf_basic v" "exact v t"
  shows "read_basic t (write_typed_basic v @ bs) = Some (v, bs)"
  using assms
  by (cases v) (auto simp: read_basic_def got_def rd_inet_def rd_decimal_def rd_duration_def codec)

lemma exact_unique: "exact v t \<Longrightarrow> exact w t \<Longrightarrow> wf_basic v \<Longrightarrow> wf_basic w \<Longrightarrow>
    write_typed_basic v @ bs = write_typed_basic w @ cs \<Longrightarrow> v = w \<and> bs = cs"
  by (metis Pair_inject option.inject read_write_basic)

text \<open>A reader produces values of its type.\<close>

lemma rd_split: "rd n bs = Some (xs, r) \<longleftrightarrow> length xs = n \<and> bs = xs @ r"
  by (auto simp: rd_def)

lemma rd_word_split:
  "rd_u8 bs = Some (a, r) \<Longrightarrow> \<exists>xs. length xs = 1 \<and> bs = xs @ r"
  "rd_u16 bs = Some (b, r) \<Longrightarrow> \<exists>xs. length xs = 2 \<and> bs = xs @ r"
  "rd_u32 bs = Some (c, r) \<Longrightarrow> \<exists>xs. length xs = 4 \<and> bs = xs @ r"
  "rd_u64 bs = Some (d, r) \<Longrightarrow> \<exists>xs. length xs = 8 \<and> bs = xs @ r"
  by (auto simp: rd_u8_def rd_u16_def rd_u32_def rd_u64_def rd_split)

lemma rd_sized_length: "rd_sized bs = Some (xs, r) \<Longrightarrow> length xs < 2 ^ 64"
proof (auto simp: rd_sized_def bind_eq_Some_conv rd_split)
  fix n :: u64
  show "unat n < 18446744073709551616" using unsigned_less [of n, where ?'a = nat] by simp
qed

lemma rd_varint_length: "rd_varint bs = Some (v, r) \<Longrightarrow> length (magnitude v) < 2 ^ 64"
  by (auto simp: rd_varint_def bind_eq_Some_conv dest: rd_sized_length)

lemma read_basic_typed:
  assumes "read_basic t bs = Some (v, r)"
  shows "exact v t \<and> wf_basic v"
  using assms
  by (cases t) (auto simp: read_basic_def got_def rd_inet_def rd_decimal_def rd_duration_def rd_split
      bind_eq_Some_conv dest: rd_sized_length rd_varint_length split: if_splits)

text \<open>Skipping is reading without the value.\<close>

lemma skip_words [simp]:
  "skip (Suc 0) bs = map_option snd (rd_u8 bs)" "skip 2 bs = map_option snd (rd_u16 bs)"
  "skip 4 bs = map_option snd (rd_u32 bs)" "skip 8 bs = map_option snd (rd_u64 bs)"
  by (simp_all add: skip_def rd_u8_def rd_u16_def rd_u32_def rd_u64_def option.map_comp o_def split_def)

lemma skip_rd: "skip 16 bs = map_option snd (rd 16 bs)"
  "skip (if b then 16 else 4) bs = map_option snd (rd (if b then 16 else 4) bs)"
  by (simp_all only: skip_def)

lemma skip_sized_rd_sized: "skip_sized bs = map_option snd (rd_sized bs)"
  by (cases "rd_u64 bs") (auto simp: skip_sized_def rd_sized_def skip_def)

lemma skip_basic_reads: "skip_basic t bs = map_option snd (read_basic t bs)"
  by (cases t)
    (auto simp: skip_basic_def read_basic_def got_def skip_sized_rd_sized option.map_comp o_def split_def
      rd_inet_def rd_decimal_def rd_duration_def rd_varint_def rd_bool_def skip_rd
      split: Option.bind_splits)

definition default_value :: "basic \<Rightarrow> cv" where
  "default_value t = (case t of
       BSmallint \<Rightarrow> CS16 0 | BInt \<Rightarrow> CS32 0 | BDate \<Rightarrow> CS32 0
     | BBigint \<Rightarrow> CS64 0 | BTimestamp \<Rightarrow> CS64 0 | BCounter \<Rightarrow> CS64 0 | BTime \<Rightarrow> CS64 0
     | BTinyint \<Rightarrow> CU8 0 | BBoolean \<Rightarrow> CU8 0 | BFloat \<Rightarrow> CF32 0 | BDouble \<Rightarrow> CF64 0
     | BText \<Rightarrow> CText [] | BVarchar \<Rightarrow> CText [] | BAscii \<Rightarrow> CText [] | BBlob \<Rightarrow> CBlob [] | BHex \<Rightarrow> CBlob []
     | BUuid \<Rightarrow> CUuid (replicate 16 0) | BTimeuuid \<Rightarrow> CUuid (replicate 16 0)
     | BInet \<Rightarrow> CInet False (replicate 4 0)
     | BVarint \<Rightarrow> CVarInt \<lparr>negative = False, magnitude = []\<rparr>
     | BDecimal \<Rightarrow> CDecimal 0 \<lparr>negative = False, magnitude = []\<rparr>
     | BDuration \<Rightarrow> CDuration 0 0 0
     | BCOUNT \<Rightarrow> CNull)"

lemma write_default: "t \<noteq> BCOUNT \<Longrightarrow> write_default_basic t = write_typed_basic (default_value t)"
  by (cases t) (simp_all add: write_default_basic_def default_value_def put_sized_def put_varint_def put_bool_def)

lemma default_exact: "t \<noteq> BCOUNT \<Longrightarrow> exact (default_value t) t \<and> wf_basic (default_value t)"
  by (cases t) (simp_all add: default_value_def)

section \<open>The synchronous reader\<close>

text \<open>Where the cursor stands when \<open>r\<close> of the \<open>len\<close> bytes are left.\<close>

definition cursor :: "u16 \<Rightarrow> bytes \<Rightarrow> u16" where
  "cursor len r = len - word_of_nat (length r)"

lemma unat_cursor: "length r \<le> unat len \<Longrightarrow> unat (cursor len r) = unat len - length r"
proof -
  assume r: "length r \<le> unat len"
  then have "unat (word_of_nat (length r) :: u16) = length r"
    using unsigned_less [of len, where ?'a = nat] by (simp add: unat_of_nat)
  moreover have "(word_of_nat (length r) :: u16) \<le> len" using calculation r by (simp add: word_le_nat_alt)
  ultimately show ?thesis by (simp add: cursor_def unat_sub)
qed

lemma drop_cursor: "length (xs @ r) = unat len \<Longrightarrow> drop (unat (cursor len r)) (xs @ r) = r"
  by (simp add: unat_cursor)

lemma unat_ucast_64 [simp]: "unat (ucast (x :: u16) :: u64) = unat x"
  using unsigned_less [of x, where ?'a = nat]
  by (simp add: unsigned_ucast_eq take_bit_nat_eq_self)

lemma take_sync_rd:
  assumes "src = xs @ r" "length src = unat len"
  shows "take_sync src len n (cursor len r) = map_option (\<lambda>(ys, r'). (ys, cursor len r')) (rd (unat n) r)"
proof -
  have r: "length r \<le> unat len" "drop (unat (cursor len r)) src = r"
    using assms drop_cursor [of xs r len] by auto
  show ?thesis
  proof (cases "unat n \<le> length r")
    case False
    then show ?thesis using r by (simp add: take_sync_def rd_def)
  next
    case True
    have "unat (ucast (cursor len r) :: u64) = unat len - length r" using r(1) by (simp add: unat_cursor)
    moreover have "unat len < 2 ^ 16" using unsigned_less [of len, where ?'a = nat] by simp
    ultimately have "unat (ucast (cursor len r) + n :: u64) = unat len - length r + unat n"
      using True r(1) by (subst unat_add_lem [THEN iffD1]) simp_all
    then have b: "in_bounds (cursor len r) n len"
      using True r(1) by (simp add: in_bounds_def word_le_nat_alt)
    have "ucast n = (word_of_nat (unat n) :: u16)" by simp
    then have "cursor len r + ucast n = cursor len (drop (unat n) r)"
      using True by (simp add: cursor_def of_nat_diff)
    then show ?thesis using b r(2) True by (simp add: take_sync_def rd_def)
  qed
qed


text \<open>Every field reader moves the cursor as the stream reader moves the stream.\<close>

definition tracks :: "u16 \<Rightarrow> ('a \<times> bytes) option \<Rightarrow> ('a \<times> u16) option" where
  "tracks len = map_option (\<lambda>(x, r). (x, cursor len r))"

lemma sync_bind:
  assumes "a = tracks len x" "\<And>y r. x = Some (y, r) \<Longrightarrow> f (y, cursor len r) = tracks len (g (y, r))"
  shows "a \<bind> f = tracks len (x \<bind> g)"
  using assms by (cases x) (auto simp: tracks_def)

lemma tracks_Some [simp]: "tracks len (Some (x, r)) = Some (x, cursor len r)"
  and tracks_None [simp]: "tracks len None = None"
  by (simp_all add: tracks_def)

lemma rd_suffix:
  "rd n bs = Some (a, r) \<Longrightarrow> \<exists>xs. bs = xs @ r" "rd_u8 bs = Some (b, r) \<Longrightarrow> \<exists>xs. bs = xs @ r"
  "rd_u32 bs = Some (c, r) \<Longrightarrow> \<exists>xs. bs = xs @ r" "rd_u64 bs = Some (d, r) \<Longrightarrow> \<exists>xs. bs = xs @ r"
  by (auto simp: rd_split dest: rd_word_split)

definition at_suffix :: "bytes \<Rightarrow> u16 \<Rightarrow> bytes \<Rightarrow> bool" where
  "at_suffix src len r \<longleftrightarrow> (\<exists>xs. src = xs @ r) \<and> length src = unat len"

lemma take_sync_tracks:
  "at_suffix src len r \<Longrightarrow> take_sync src len n (cursor len r) = tracks len (rd (unat n) r)"
  by (auto simp: at_suffix_def tracks_def take_sync_rd)

lemma at_suffix_rd: "rd n r = Some (x, r') \<Longrightarrow> at_suffix src len r \<Longrightarrow> at_suffix src len r'"
  by (auto simp: at_suffix_def rd_split)

lemma sync_word_tracks:
  assumes "at_suffix src len r" "LENGTH('a) div 8 < 2 ^ 64"
  shows "sync_word src len (c :: 'a::len word \<Rightarrow> cv) (cursor len r)
    = tracks len (got c (map_option (\<lambda>(xs, r). (word_at xs, r)) (rd (LENGTH('a) div 8) r)))"
  using assms
  by (cases "rd (LENGTH('a) div 8) r") (auto simp: sync_word_def take_sync_tracks tracks_def got_def unat_of_nat)

lemma sync_sized_tracks:
  assumes "at_suffix src len r"
  shows "sync_sized src len (cursor len r) = tracks len (rd_sized r)"
proof -
  have "rd_sized r = rd 8 r \<bind> (\<lambda>(xs, r). rd (unat (word_at xs :: u64)) r)"
    by (cases "rd 8 r") (auto simp: rd_sized_def rd_u64_def)
  then show ?thesis unfolding sync_sized_def
    by (auto simp: assms take_sync_tracks dest: at_suffix_rd [OF _ assms] intro!: sync_bind)
qed

lemma sync_bool_tracks:
  assumes "at_suffix src len r"
  shows "sync_bool src len (cursor len r) = tracks len (rd_bool r)"
  using assms
  by (cases "rd 1 r") (auto simp: sync_bool_def take_sync_tracks tracks_def rd_bool_def rd_u8_def)


lemma at_suffix_rds:
  "rd_bool r = Some (b, r') \<Longrightarrow> at_suffix src len r \<Longrightarrow> at_suffix src len r'"
  by (cases "rd 1 r") (auto simp: rd_bool_def rd_u8_def dest: at_suffix_rd)

lemma sync_varint_tracks:
  "at_suffix src len r \<Longrightarrow> sync_varint src len (cursor len r) = tracks len (rd_varint r)"
  unfolding sync_varint_def rd_varint_def
  by (auto simp: sync_bool_tracks sync_sized_tracks dest: at_suffix_rds intro!: sync_bind)

lemma sync_inet_tracks:
  "at_suffix src len r \<Longrightarrow> sync_inet src len (cursor len r) = tracks len (rd_inet r)"
  unfolding sync_inet_def rd_inet_def
  by (intro sync_bind) (auto simp: sync_bool_tracks take_sync_tracks dest: at_suffix_rds intro!: sync_bind)

lemma sync_decimal_tracks:
  assumes "at_suffix src len r"
  shows "sync_decimal src len (cursor len r) = tracks len (rd_decimal r)"
proof -
  have "rd_decimal r = do { (xs, r) \<leftarrow> rd 4 r; (v, r) \<leftarrow> rd_varint r; Some (CDecimal (word_at xs) v, r) }"
    by (cases "rd 4 r") (auto simp: rd_decimal_def rd_u32_def)
  then show ?thesis unfolding sync_decimal_def using assms
    by (auto simp: take_sync_tracks sync_varint_tracks dest: at_suffix_rd intro!: sync_bind)
qed

lemma sync_duration_tracks:
  assumes "at_suffix src len r"
  shows "sync_duration src len (cursor len r) = tracks len (rd_duration r)"
proof -
  have "rd_duration r = do { (ms, r) \<leftarrow> rd 4 r; (ds, r) \<leftarrow> rd 4 r; (ns, r) \<leftarrow> rd 8 r;
      Some (CDuration (word_at ms) (word_at ds) (word_at ns), r) }"
    by (auto simp: rd_duration_def rd_u32_def rd_u64_def split: Option.bind_splits)
  then show ?thesis unfolding sync_duration_def using assms
    by (auto simp: take_sync_tracks dest: at_suffix_rd intro!: sync_bind)
qed

lemma got_bind: "tracks len (got c x) = tracks len x \<bind> (\<lambda>(y, p). Some (c y, p))"
  by (cases x) (auto simp: tracks_def got_def)

lemma read_sync_tracks:
  assumes "at_suffix src len r"
  shows "read_sync src len (cursor len r) t = tracks len (read_basic t r)"
proof -
  have str: "sync_text src len (cursor len r) = tracks len (got CText (rd_sized r))"
    and blb: "sync_blob src len (cursor len r) = tracks len (got CBlob (rd_sized r))"
    and uid: "sync_uuid src len (cursor len r) = tracks len (got CUuid (rd 16 r))"
    using assms
    by (simp_all add: sync_text_def sync_blob_def sync_uuid_def got_bind sync_sized_tracks take_sync_tracks)
  show ?thesis
    by (cases t) (simp_all add: read_sync_def read_basic_def sync_word_tracks [OF assms] str blb uid
        sync_inet_tracks [OF assms] sync_varint_tracks [OF assms] sync_decimal_tracks [OF assms]
        sync_duration_tracks [OF assms] got_bind [of len CVarInt] rd_u8_def rd_u16_def rd_u32_def rd_u64_def)
qed

lemma read_sync_eq:
  assumes "length src = unat len" "pos \<le> len"
  shows "read_sync src len pos t =
    map_option (\<lambda>(v, r). (v, len - word_of_nat (length r))) (read_basic t (drop (unat pos) src))"
proof -
  have "at_suffix src len (drop (unat pos) src)"
    using assms append_take_drop_id [of "unat pos" src] unfolding at_suffix_def by metis
  moreover have "cursor len (drop (unat pos) src) = pos"
    using assms by (simp add: cursor_def word_le_nat_alt of_nat_diff)
  ultimately show ?thesis
    using read_sync_tracks [of src len "drop (unat pos) src" t] by (simp add: tracks_def cursor_def)
qed

section \<open>Properties\<close>

text \<open>C7 Storage round trip. A value of the tag a column type stores is read back from any stream
  that starts with its encoding, leaving the rest of the stream, and skipping the column
  moves the stream by exactly as much.\<close>

theorem codec_roundtrip:
  assumes "wf_basic v" "exact v t"
  shows "read_basic t (write_typed_basic v @ bs) = Some (v, bs) \<and>
    skip_basic t (write_typed_basic v @ bs) = Some bs"
  using read_write_basic [OF assms] by (simp add: skip_basic_reads)

theorem codec_roundtrip_witness:
  "read_basic BDecimal (write_typed_basic (CDecimal 2 \<lparr>negative = True, magnitude = [1, 0]\<rparr>) @ [7]) =
    Some (CDecimal 2 \<lparr>negative = True, magnitude = [1, 0]\<rparr>, [7])"
  using codec_roundtrip [of "CDecimal 2 \<lparr>negative = True, magnitude = [1, 0]\<rparr>" BDecimal "[7]"] by simp

text \<open>The two readers agree. On a buffer the synchronous reader, with its 16-bit cursor and its
  wrapping bounds checks, returns the value the stream reader returns, stops at the byte it
  stops at, and traps exactly when it does.\<close>

theorem sync_reader_agrees:
  assumes "length src = unat len" "pos \<le> len"
  shows "read_sync src len pos t =
    map_option (\<lambda>(v, r). (v, len - word_of_nat (length r))) (read_basic t (drop (unat pos) src))"
  by (rule read_sync_eq [OF assms])

theorem sync_reader_agrees_witness:
  "read_sync [0, 5, 1] 3 1 BSmallint = Some (CS16 261, 3)"
proof -
  have "read_sync [0, 5, 1] 3 1 BSmallint =
    map_option (\<lambda>(v, r). (v, 3 - word_of_nat (length r))) (read_basic BSmallint (drop (unat (1 :: u16)) [0, 5, 1]))"
    by (rule sync_reader_agrees) simp_all
  then show ?thesis by (simp add: read_basic_def got_def rd_u16_def rd_def word_at_def)
qed

text \<open>Widths. The compatibility check lets a 64-bit integer into a narrower integer column, but
  the writer then stores eight bytes where the reader of the column takes fewer: what is left
  over shifts every column behind it.\<close>

theorem wide_integer_shifts_row:
  assumes "t \<in> {BSmallint, BInt, BDate, BTinyint}"
  shows "can_write_basic (CS64 x) t \<and>
    (\<exists>v r. read_basic t (write_typed_basic (CS64 x) @ bs) = Some (v, r @ bs) \<and> r \<noteq> [])"
proof -
  have split: "\<exists>v r. read_basic t (xs @ bs) = Some (v, r @ bs) \<and> r \<noteq> []" if "length xs = 8" for xs
    using assms that
    by (auto simp: read_basic_def got_def rd_u8_def rd_u16_def rd_u32_def rd_def intro: exI [of _ "drop 4 xs"]
        exI [of _ "drop 2 xs"] exI [of _ "drop 1 xs"])
  have "length (write_typed_basic (CS64 x)) = 8" by simp
  then show ?thesis using assms split by (auto simp: is_literal_integer_family_def)
qed

theorem wide_integer_shifts_row_witness:
  "can_write_basic (CS64 5) BInt \<and> (\<exists>v r. read_basic BInt (put_word (5 :: u64) @ []) = Some (v, r @ []) \<and> r \<noteq> [])"
  using wide_integer_shifts_row [of BInt 5 "[]"] by simp

end
