(* ===== verification/HashTable.thy ===== *)
theory HashTable
  imports Bytes "HOL-Library.Multiset"
begin

text \<open>
  The hash containers \<open>DynamicMap\<close> and \<open>DynamicSet\<close> (\<open>core/dynamic/containers.cppm\<close>): slots
  chosen by \<open>hash(key) % slots.length\<close>, each an array searched from the front, and a rehash
  before an insertion when some slot holds more than four entries.

  A table is its list of slots. The operations take the hash \<open>h\<close> and the equality \<open>eq\<close> the
  code's overloads give for the key type; a map's entries are pairs, a set's the keys, and
  \<open>kf\<close> is the key of an entry. An iterator visits \<open>concat slots\<close>.
\<close>

type_synonym 'e slots = "'e list list"

section \<open>Operations\<close>

definition slot_of :: "('k \<Rightarrow> u64) \<Rightarrow> nat \<Rightarrow> 'k \<Rightarrow> nat" where
  "slot_of h n key = unat (h key) mod n"

definition find_slot ::
  "('k \<Rightarrow> u64) \<Rightarrow> ('k \<Rightarrow> 'k \<Rightarrow> bool) \<Rightarrow> ('e \<Rightarrow> 'k) \<Rightarrow> 'e slots \<Rightarrow> 'k \<Rightarrow> (nat \<times> nat) option" where
  "find_slot h eq kf slots key =
     (if slots = [] then None
      else let s = slot_of h (length slots) key; bucket = slots ! s
        in map_option (\<lambda>i. (s, i)) (find (\<lambda>i. eq (kf (bucket ! i)) key) [0..<length bucket]))"

definition push :: "nat \<Rightarrow> 'e \<Rightarrow> 'e slots \<Rightarrow> 'e slots" where
  "push s e slots = slots[s := slots ! s @ [e]]"

definition rehash :: "('k \<Rightarrow> u64) \<Rightarrow> ('e \<Rightarrow> 'k) \<Rightarrow> nat \<Rightarrow> 'e slots \<Rightarrow> 'e slots" where
  "rehash h kf n slots =
     fold (\<lambda>e new. push (slot_of h n (kf e)) e new) (concat slots) (replicate n [])"

definition reserve_for_push :: "('k \<Rightarrow> u64) \<Rightarrow> ('e \<Rightarrow> 'k) \<Rightarrow> 'e slots \<Rightarrow> 'e slots" where
  "reserve_for_push h kf slots =
     (if slots = [] then replicate 4 []
      else if list_ex (\<lambda>b. length b > 4) slots then rehash h kf (length slots * 2 + 1) slots
      else slots)"

definition add_entry :: "('k \<Rightarrow> u64) \<Rightarrow> ('e \<Rightarrow> 'k) \<Rightarrow> 'e \<Rightarrow> 'e slots \<Rightarrow> 'e slots" where
  "add_entry h kf e slots =
     (let new = reserve_for_push h kf slots in push (slot_of h (length new) (kf e)) e new)"

definition table_length :: "'e slots \<Rightarrow> nat" where
  "table_length slots = sum_list (map length slots)"

text \<open>Sets.\<close>

definition set_contains :: "('k \<Rightarrow> u64) \<Rightarrow> ('k \<Rightarrow> 'k \<Rightarrow> bool) \<Rightarrow> 'k slots \<Rightarrow> 'k \<Rightarrow> bool" where
  "set_contains h eq s key \<longleftrightarrow> find_slot h eq id s key \<noteq> None"

definition set_insert :: "('k \<Rightarrow> u64) \<Rightarrow> ('k \<Rightarrow> 'k \<Rightarrow> bool) \<Rightarrow> 'k \<Rightarrow> 'k slots \<Rightarrow> 'k slots" where
  "set_insert h eq key s = (if find_slot h eq id s key \<noteq> None then s else add_entry h id key s)"

text \<open>Maps.\<close>

definition map_find :: "('k \<Rightarrow> u64) \<Rightarrow> ('k \<Rightarrow> 'k \<Rightarrow> bool) \<Rightarrow> ('k \<times> 'v) slots \<Rightarrow> 'k \<Rightarrow> 'v option" where
  "map_find h eq m key = map_option (\<lambda>(s, i). snd (m ! s ! i)) (find_slot h eq fst m key)"

definition map_insert ::
  "('k \<Rightarrow> u64) \<Rightarrow> ('k \<Rightarrow> 'k \<Rightarrow> bool) \<Rightarrow> 'k \<Rightarrow> 'v \<Rightarrow> ('k \<times> 'v) slots \<Rightarrow> ('k \<times> 'v) slots" where
  "map_insert h eq key v m =
     (case find_slot h eq fst m key of
        Some (s, i) \<Rightarrow> m[s := (m ! s)[i := (fst (m ! s ! i), v)]]
      | None \<Rightarrow> add_entry h fst (key, v) m)"

text \<open>The last entry of the slot takes the place of the removed one.\<close>

definition map_remove ::
  "('k \<Rightarrow> u64) \<Rightarrow> ('k \<Rightarrow> 'k \<Rightarrow> bool) \<Rightarrow> 'k \<Rightarrow> ('k \<times> 'v) slots \<Rightarrow> ('k \<times> 'v) slots" where
  "map_remove h eq key m =
     (case find_slot h eq fst m key of
        Some (s, i) \<Rightarrow> m[s := butlast ((m ! s)[i := last (m ! s)])]
      | None \<Rightarrow> m)"

section \<open>Entries and slots\<close>

definition entries :: "'e slots \<Rightarrow> 'e multiset" where
  "entries slots = mset (concat slots)"

definition placed :: "('k \<Rightarrow> u64) \<Rightarrow> ('e \<Rightarrow> 'k) \<Rightarrow> 'e slots \<Rightarrow> bool" where
  "placed h kf slots \<longleftrightarrow>
     (\<forall>s < length slots. \<forall>e \<in> set (slots ! s). slot_of h (length slots) (kf e) = s)"

lemma slot_of_less: "0 < n \<Longrightarrow> slot_of h n k < n"
  by (simp add: slot_of_def)

lemma slot_subset: "s < length slots \<Longrightarrow> \<exists>r. entries slots = mset (slots ! s) + r \<and>
    (\<forall>b. entries (slots[s := b]) = mset b + r)"
proof -
  assume s: "s < length slots"
  have "entries slots = entries (take s slots @ slots ! s # drop (Suc s) slots)"
    using id_take_nth_drop [OF s] by simp
  moreover have "entries (slots[s := b]) = entries (take s slots @ b # drop (Suc s) slots)" for b
    using s by (simp add: upd_conv_take_nth_drop)
  ultimately show ?thesis
    by (intro exI [of _ "entries (take s slots) + entries (drop (Suc s) slots)"]) (simp add: entries_def)
qed

lemma entries_push [simp]: "s < length slots \<Longrightarrow> entries (push s e slots) = add_mset e (entries slots)"
  using slot_subset [of s slots] by (auto simp: push_def)

lemma length_push [simp]: "length (push s e slots) = length slots"
  by (simp add: push_def)

lemma placed_push:
  "placed h kf slots \<Longrightarrow> slots \<noteq> [] \<Longrightarrow> placed h kf (push (slot_of h (length slots) (kf e)) e slots)"
  by (auto simp: placed_def push_def nth_list_update slot_of_less)

lemma rehash_fold:
  assumes "0 < n" "length t = n" "placed h kf t"
  defines "r es \<equiv> fold (\<lambda>e new. push (slot_of h n (kf e)) e new) es t"
  shows "length (r es) = n \<and> placed h kf (r es) \<and> entries (r es) = entries t + mset es"
  unfolding r_def using assms(2,3)
proof (induction es arbitrary: t)
  case (Cons e es)
  let ?t = "push (slot_of h n (kf e)) e t"
  have "length ?t = n" "placed h kf ?t" "entries ?t = add_mset e (entries t)"
    using Cons.prems assms(1) placed_push [of h kf t e] by (auto simp: slot_of_less)
  then show ?case using Cons.IH [of ?t] by simp
qed simp

lemma entries_replicate [simp]: "entries (replicate n []) = {#}"
  by (induction n) (simp_all add: entries_def)

lemma rehash_props:
  assumes "0 < n"
  shows "length (rehash h kf n slots) = n" "placed h kf (rehash h kf n slots)"
    "entries (rehash h kf n slots) = entries slots"
proof -
  have "placed h kf (replicate n [])" by (simp add: placed_def)
  from rehash_fold [OF assms length_replicate this, of "concat slots"]
  show "length (rehash h kf n slots) = n" "placed h kf (rehash h kf n slots)"
    "entries (rehash h kf n slots) = entries slots"
    by (simp_all add: rehash_def entries_def [of slots])
qed

lemma reserve_props:
  assumes "placed h kf slots"
  shows "reserve_for_push h kf slots \<noteq> []" "placed h kf (reserve_for_push h kf slots)"
    "entries (reserve_for_push h kf slots) = entries slots"
  using assms rehash_props [of "length slots * 2 + 1" h kf slots]
  by (auto simp: reserve_for_push_def placed_def entries_def)

lemma add_entry_props:
  assumes "placed h kf slots"
  shows "placed h kf (add_entry h kf e slots)" "entries (add_entry h kf e slots) = add_mset e (entries slots)"
  using reserve_props [OF assms] placed_push [of h kf "reserve_for_push h kf slots" e]
  by (auto simp: add_entry_def Let_def slot_of_less)

lemma table_length_entries: "table_length slots = size (entries slots)"
  by (induction slots) (auto simp: table_length_def entries_def)

lemma in_entries: "e \<in># entries slots \<longleftrightarrow> (\<exists>s < length slots. e \<in> set (slots ! s))"
proof
  assume "e \<in># entries slots"
  then obtain b where "b \<in> set slots" "e \<in> set b" by (auto simp: entries_def)
  then show "\<exists>s < length slots. e \<in> set (slots ! s)" by (metis in_set_conv_nth)
qed (auto simp: entries_def)

lemma find_upt_Some:
  "find P [0..<n] = Some i \<Longrightarrow> P i \<and> i < n" and find_upt_None: "find P [0..<n] = None \<longleftrightarrow> (\<forall>i<n. \<not> P i)"
  by (auto simp: find_Some_iff find_None_iff)

section \<open>The contract of a key type\<close>

text \<open>
  What the containers need of a key type's \<open>operator==\<close> and \<open>hash\<close>, on the keys \<open>D\<close> in use:
  equality is symmetric and transitive and equal keys hash equal. Reflexivity is not asked
  for: floating point keys do not have it.
\<close>

definition apart :: "('k \<Rightarrow> 'k \<Rightarrow> bool) \<Rightarrow> ('e \<Rightarrow> 'k) \<Rightarrow> 'e multiset \<Rightarrow> bool" where
  "apart eq kf M \<longleftrightarrow> (\<forall>e \<in># M. \<forall>f \<in># M - {#e#}. \<not> eq (kf e) (kf f))"

locale hashed =
  fixes h :: "'k \<Rightarrow> u64" and eq :: "'k \<Rightarrow> 'k \<Rightarrow> bool" and D :: "'k set"
  assumes sym: "a \<in> D \<Longrightarrow> b \<in> D \<Longrightarrow> eq a b \<Longrightarrow> eq b a"
    and trans: "a \<in> D \<Longrightarrow> b \<in> D \<Longrightarrow> c \<in> D \<Longrightarrow> eq a b \<Longrightarrow> eq b c \<Longrightarrow> eq a c"
    and compat: "a \<in> D \<Longrightarrow> b \<in> D \<Longrightarrow> eq a b \<Longrightarrow> h a = h b"
begin

definition table :: "('e \<Rightarrow> 'k) \<Rightarrow> 'e slots \<Rightarrow> bool" where
  "table kf slots \<longleftrightarrow> placed h kf slots \<and> kf ` set_mset (entries slots) \<subseteq> D \<and> apart eq kf (entries slots)"

lemma apart_add:
  assumes "apart eq kf M" "kf e \<in> D" "kf ` set_mset M \<subseteq> D" "\<forall>f \<in># M. \<not> eq (kf f) (kf e)"
  shows "apart eq kf (add_mset e M)"
  unfolding apart_def
proof (intro ballI notI)
  fix a b assume a: "a \<in># add_mset e M" and b: "b \<in># add_mset e M - {#a#}" and ab: "eq (kf a) (kf b)"
  show False
  proof (cases "a = e")
    case True
    then have "b \<in># M" using b by simp
    then show False using ab True assms sym [of "kf e" "kf b"] by (auto simp: image_subset_iff)
  next
    case False
    then have "a \<in># M" "b = e \<or> b \<in># M - {#a#}" using a b by (auto simp: diff_add_mset_swap)
    then show False using ab assms(1,4) unfolding apart_def by blast
  qed
qed

lemma apart_sub: "apart eq kf M \<Longrightarrow> N \<subseteq># M \<Longrightarrow> apart eq kf N"
proof -
  assume M: "apart eq kf M" and "N \<subseteq># M"
  then obtain R where R: "M = N + R" by (metis subset_mset.le_iff_add)
  show "apart eq kf N"
    unfolding apart_def
  proof (intro ballI)
    fix e f assume "e \<in># N" "f \<in># N - {#e#}"
    then have "e \<in># M" "f \<in># M - {#e#}" by (auto simp: R dest!: multi_member_split)
    then show "\<not> eq (kf e) (kf f)" using M by (auto simp: apart_def)
  qed
qed

lemma find_slot_None:
  assumes "table kf slots" "k \<in> D"
  shows "find_slot h eq kf slots k = None \<longleftrightarrow> (\<forall>e \<in># entries slots. \<not> eq (kf e) k)"
proof (cases "slots = []")
  case False
  let ?s = "slot_of h (length slots) k"
  have s: "?s < length slots" using False by (simp add: slot_of_less)
  have "find_slot h eq kf slots k = None \<longleftrightarrow> (\<forall>e \<in> set (slots ! ?s). \<not> eq (kf e) k)"
    using False by (auto simp: find_slot_def Let_def find_upt_None all_set_conv_all_nth)
  also have "\<dots> \<longleftrightarrow> (\<forall>e \<in># entries slots. \<not> eq (kf e) k)"
  proof
    assume *: "\<forall>e \<in> set (slots ! ?s). \<not> eq (kf e) k"
    show "\<forall>e \<in># entries slots. \<not> eq (kf e) k"
    proof (intro ballI notI)
      fix e assume e: "e \<in># entries slots" and eq: "eq (kf e) k"
      then obtain t where t: "t < length slots" "e \<in> set (slots ! t)" by (auto simp: in_entries)
      then have "slot_of h (length slots) (kf e) = t" using assms(1) by (auto simp: table_def placed_def)
      moreover have "h (kf e) = h k" using assms e eq compat by (auto simp: table_def)
      ultimately have "t = ?s" by (simp add: slot_of_def)
      then show False using * t eq by auto
    qed
  qed (use s in \<open>auto simp: in_entries\<close>)
  finally show ?thesis .
qed (simp add: find_slot_def entries_def)

lemma find_slot_Some:
  assumes "find_slot h eq kf slots k = Some (s, i)"
  shows "s < length slots" "i < length (slots ! s)" "eq (kf (slots ! s ! i)) k" "slots ! s ! i \<in># entries slots"
proof -
  show *: "s < length slots" "i < length (slots ! s)" "eq (kf (slots ! s ! i)) k"
    using assms by (auto simp: find_slot_def Let_def slot_of_less dest: find_upt_Some split: if_splits)
  then show "slots ! s ! i \<in># entries slots" by (auto simp: in_entries)
qed

lemma add_entry_table:
  assumes "table kf slots" "kf e \<in> D" "\<forall>f \<in># entries slots. \<not> eq (kf f) (kf e)"
  shows "table kf (add_entry h kf e slots)"
  using assms add_entry_props [of h kf slots e] apart_add [of kf "entries slots" e]
  by (auto simp: table_def)

lemma table_Nil [simp]: "table kf []"
  by (simp add: table_def placed_def entries_def apart_def)

text \<open>Sets.\<close>

lemma set_contains_iff:
  "table id s \<Longrightarrow> k \<in> D \<Longrightarrow> set_contains h eq s k \<longleftrightarrow> (\<exists>e \<in># entries s. eq e k)"
  using find_slot_None [of id s k] by (auto simp: set_contains_def)

lemma set_insert_table: "table id s \<Longrightarrow> k \<in> D \<Longrightarrow> table id (set_insert h eq k s)"
  using find_slot_None [of id s k] add_entry_table [of id s k] by (auto simp: set_insert_def)

lemma set_insert_entries:
  assumes "table id s" "k \<in> D"
  shows "entries (set_insert h eq k s) =
    (if \<exists>e \<in># entries s. eq e k then entries s else add_mset k (entries s))"
  using assms find_slot_None [of id s k] add_entry_props [of h id s k]
  by (auto simp: set_insert_def table_def)

lemma set_insert_contains:
  assumes "table id s" "k \<in> D" "k' \<in> D" "eq k k"
  shows "set_contains h eq (set_insert h eq k s) k' \<longleftrightarrow> eq k k' \<or> set_contains h eq s k'"
proof (cases "\<exists>e \<in># entries s. eq e k")
  case True
  then obtain e where e: "e \<in># entries s" "eq e k" by blast
  then have "e \<in> D" using assms(1) by (auto simp: table_def)
  then have "eq k k' \<Longrightarrow> eq e k'" using trans [of e k k'] e assms by blast
  then show ?thesis
    using set_contains_iff [OF set_insert_table [OF assms(1,2)] assms(3)] set_contains_iff [OF assms(1,3)]
      set_insert_entries [OF assms(1,2)] True e by auto
next
  case False
  then show ?thesis
    using set_contains_iff [OF set_insert_table [OF assms(1,2)] assms(3)] set_contains_iff [OF assms(1,3)]
      set_insert_entries [OF assms(1,2)] by auto
qed

text \<open>Maps.\<close>

lemma unique:
  assumes "table kf slots" "k \<in> D" "e \<in># entries slots" "f \<in># entries slots" "eq (kf e) k" "eq (kf f) k"
  shows "e = f"
proof (rule ccontr)
  assume "e \<noteq> f"
  then have "f \<in># entries slots - {#e#}" using assms(4) by (simp add: in_diff_count)
  moreover have "eq (kf e) (kf f)"
    using assms sym [of "kf f" k] trans [of "kf e" k "kf f"] by (auto simp: table_def image_subset_iff)
  ultimately show False using assms(1,3) by (auto simp: table_def apart_def)
qed

lemma map_find_iff:
  assumes "table fst m" "k \<in> D"
  shows "map_find h eq m k = Some v \<longleftrightarrow> (\<exists>k'. (k', v) \<in># entries m \<and> eq k' k)"
proof
  assume "map_find h eq m k = Some v"
  then obtain s i where "find_slot h eq fst m k = Some (s, i)" "v = snd (m ! s ! i)"
    by (auto simp: map_find_def)
  then show "\<exists>k'. (k', v) \<in># entries m \<and> eq k' k" using find_slot_Some by (metis prod.collapse)
next
  assume "\<exists>k'. (k', v) \<in># entries m \<and> eq k' k"
  then obtain k' where k': "(k', v) \<in># entries m" "eq k' k" by blast
  then obtain s i where si: "find_slot h eq fst m k = Some (s, i)"
    using find_slot_None [OF assms] by (cases "find_slot h eq fst m k") auto
  then have "m ! s ! i = (k', v)"
    using find_slot_Some [OF si] unique [OF assms find_slot_Some(4) [OF si] k'(1)] k'(2) by simp
  then show "map_find h eq m k = Some v" using si by (simp add: map_find_def)
qed

lemma map_find_none:
  "table fst m \<Longrightarrow> k \<in> D \<Longrightarrow> map_find h eq m k = None \<longleftrightarrow> (\<forall>e \<in># entries m. \<not> eq (fst e) k)"
  using find_slot_None [of fst m k] by (simp add: map_find_def)

lemma map_insert_cases:
  assumes "table fst m" "k \<in> D"
  obtains (replaced) k' v' r where "entries m = add_mset (k', v') r" "eq k' k"
      "entries (map_insert h eq k v m) = add_mset (k', v) r" "table fst (map_insert h eq k v m)"
    | (added) "\<forall>e \<in># entries m. \<not> eq (fst e) k"
      "entries (map_insert h eq k v m) = add_mset (k, v) (entries m)" "table fst (map_insert h eq k v m)"
proof (cases "find_slot h eq fst m k")
  case None
  then have no: "\<forall>e \<in># entries m. \<not> eq (fst e) k" using find_slot_None [OF assms] by simp
  have i: "map_insert h eq k v m = add_entry h fst (k, v) m" using None by (simp add: map_insert_def)
  show thesis
    by (rule added) (use no i assms add_entry_props(2) [of h fst m "(k, v)"] add_entry_table [of fst m "(k, v)"]
      in \<open>simp_all add: table_def\<close>)
next
  case (Some p)
  then obtain s i where si: "find_slot h eq fst m k = Some (s, i)" by (cases p) auto
  note at = find_slot_Some [OF si]
  obtain k' v' where e: "m ! s ! i = (k', v')" by fastforce
  let ?b = "(m ! s)[i := (k', v)]"
  have ins: "map_insert h eq k v m = m[s := ?b]" using si e by (simp add: map_insert_def)
  obtain r where r: "entries m = mset (m ! s) + r" "\<And>b. entries (m[s := b]) = mset b + r"
    using slot_subset [OF at(1)] by blast
  obtain q where q: "mset (m ! s) = add_mset (k', v') q" "mset ?b = add_mset (k', v) q"
    using at(2) e by (metis insert_DiffM mset_update nth_mem_mset)
  have keys: "placed h fst (m[s := ?b])"
    using assms(1) at(1,2) e
    by (auto simp: table_def placed_def nth_list_update in_set_conv_nth split: if_splits)
      (metis fst_conv nth_mem)+
  have ap: "apart eq fst (add_mset (k', v) (q + r))"
  proof (rule apart_add)
    have old: "apart eq fst (add_mset (k', v') (q + r))" "fst ` set_mset (add_mset (k', v') (q + r)) \<subseteq> D"
      using assms(1) by (simp_all add: table_def r(1) q(1))
    show "apart eq fst (q + r)" using old(1) by (rule apart_sub) simp
    show "fst (k', v) \<in> D" "fst ` set_mset (q + r) \<subseteq> D" using old(2) by auto
    show "\<forall>f \<in># q + r. \<not> eq (fst f) (fst (k', v))"
    proof (intro ballI notI)
      fix f assume f: "f \<in># q + r" "eq (fst f) (fst (k', v))"
      then have "eq k' (fst f)" using sym old(2) by (auto simp: image_subset_iff)
      then show False using old(1) f(1) unfolding apart_def by (metis add_mset_remove_trivial fst_conv union_single_eq_member)
    qed
  qed
  show thesis
  proof (rule replaced)
    show "entries m = add_mset (k', v') (q + r)" "entries (map_insert h eq k v m) = add_mset (k', v) (q + r)"
      by (simp_all add: ins r q)
    show "eq k' k" using at(3) e by simp
    show "table fst (map_insert h eq k v m)"
      using keys ap assms(1) unfolding table_def ins r(2) q(2) by (auto simp: table_def r(1) q(1))
  qed
qed

lemma map_insert_table: "table fst m \<Longrightarrow> k \<in> D \<Longrightarrow> table fst (map_insert h eq k v m)"
  by (rule map_insert_cases)

lemma map_find_insert:
  assumes "table fst m" "k \<in> D" "k2 \<in> D" "eq k k"
  shows "map_find h eq (map_insert h eq k v m) k2 = (if eq k k2 then Some v else map_find h eq m k2)"
proof -
  note t = map_insert_table [OF assms(1,2), of v]
  note new = map_find_iff [OF t assms(3)] and old = map_find_iff [OF assms(1,3)]
  have in_D: "e \<in># entries m \<Longrightarrow> fst e \<in> D" for e using assms(1) by (auto simp: table_def)
  show ?thesis
  proof (cases "eq k k2")
    case True
    have "\<exists>k'. (k', v) \<in># entries (map_insert h eq k v m) \<and> eq k' k2"
      using assms(1,2)
    proof (cases rule: map_insert_cases [where v = v])
      case (replaced k' v' r)
      then have "k' \<in> D" using in_D [of "(k', v')"] by simp
      then show ?thesis using trans [of k' k k2] replaced True assms(2,3) by auto
    qed (use True in auto)
    then show ?thesis using new True by auto
  next
    case False
    have "(\<exists>k'. (k', w) \<in># entries (map_insert h eq k v m) \<and> eq k' k2) \<longleftrightarrow>
        (\<exists>k'. (k', w) \<in># entries m \<and> eq k' k2)" for w
      using assms(1,2)
    proof (cases rule: map_insert_cases [where v = v])
      case (replaced k' v' r)
      then have k': "k' \<in> D" using in_D [of "(k', v')"] by simp
      have "\<not> eq k' k2"
      proof
        assume "eq k' k2"
        moreover have "eq k k'" using sym [of k' k] k' assms(2) replaced(2) by simp
        ultimately show False using trans [of k k' k2] k' assms(2,3) False by blast
      qed
      then show ?thesis using replaced by auto
    qed (use False in auto)
    then have "map_find h eq (map_insert h eq k v m) k2 = Some w \<longleftrightarrow> map_find h eq m k2 = Some w" for w
      using new old by simp
    then show ?thesis using False by (metis option.exhaust)
  qed
qed

lemma map_remove_cases:
  assumes "table fst m" "k \<in> D"
  obtains (removed) k' v' where "entries m = add_mset (k', v') (entries (map_remove h eq k m))" "eq k' k"
      "table fst (map_remove h eq k m)"
    | (absent) "\<forall>e \<in># entries m. \<not> eq (fst e) k" "map_remove h eq k m = m"
proof (cases "find_slot h eq fst m k")
  case None
  then show thesis using find_slot_None [OF assms] absent by (simp add: map_remove_def)
next
  case (Some p)
  then obtain s i where si: "find_slot h eq fst m k = Some (s, i)" by (cases p) auto
  note at = find_slot_Some [OF si]
  obtain k' v' where e: "m ! s ! i = (k', v')" by fastforce
  let ?b = "butlast ((m ! s)[i := last (m ! s)])"
  have rem: "map_remove h eq k m = m[s := ?b]" using si by (simp add: map_remove_def)
  obtain r where r: "entries m = mset (m ! s) + r" "\<And>b. entries (m[s := b]) = mset b + r"
    using slot_subset [OF at(1)] by blast
  have b: "mset (m ! s) = add_mset (k', v') (mset ?b)"
  proof -
    have ne: "m ! s \<noteq> []" using at(2) by auto
    have "mset ((m ! s)[i := last (m ! s)]) = add_mset (last (m ! s)) (mset (m ! s) - {#(k', v')#})"
      using at(2) e by (simp add: mset_update)
    moreover have "mset ((m ! s)[i := last (m ! s)]) = add_mset (last (m ! s)) (mset ?b)"
    proof -
      have "last ((m ! s)[i := last (m ! s)]) = last (m ! s)" using ne by (simp add: last_list_update)
      then show ?thesis using ne
        by (metis append_butlast_last_id list_update_nonempty mset.simps mset_append union_mset_add_mset_right add.right_neutral)
    qed
    ultimately have "mset ?b = mset (m ! s) - {#(k', v')#}" by simp
    then show ?thesis using at(2) e by (metis insert_DiffM nth_mem_mset)
  qed
  have sub: "set ?b \<subseteq> set (m ! s)"
    using b by (metis set_mset_mset subsetI union_iff set_mset_add_mset_insert insertCI)
  have "placed h fst (m[s := ?b])"
    using assms(1) at(1) sub by (auto simp: table_def placed_def nth_list_update)
  moreover have "apart eq fst (mset ?b + r)"
    using assms(1) by (auto simp: table_def r(1) b intro: apart_sub)
  moreover have "fst ` set_mset (mset ?b + r) \<subseteq> D"
    using assms(1) by (auto simp: table_def r(1) b)
  ultimately have "table fst (m[s := ?b])" by (simp only: table_def r(2) simp_thms)
  then show thesis using removed [of k' v'] at(3) e by (simp add: rem r b)
qed

lemma map_remove_table: "table fst m \<Longrightarrow> k \<in> D \<Longrightarrow> table fst (map_remove h eq k m)"
  by (rule map_remove_cases) auto

lemma map_find_remove:
  assumes "table fst m" "k \<in> D" "k2 \<in> D"
  shows "map_find h eq (map_remove h eq k m) k2 = (if eq k k2 then None else map_find h eq m k2)"
proof -
  note t = map_remove_table [OF assms(1,2)]
  note new = map_find_iff [OF t assms(3)] and old = map_find_iff [OF assms(1,3)]
  have in_D: "e \<in># entries m \<Longrightarrow> fst e \<in> D" for e using assms(1) by (auto simp: table_def)
  show ?thesis
    using assms(1,2)
  proof (cases rule: map_remove_cases)
    case absent
    have "\<not> eq k' k2" if "(k', w) \<in># entries m" "eq k k2" for k' w
    proof
      assume "eq k' k2"
      then have "eq k' k" using that in_D [OF that(1)] sym [of k k2] trans [of k' k2 k] assms by simp
      then show False using absent(1) that(1) by auto
    qed
    then show ?thesis using absent(2) map_find_none [OF assms(1,3)] by auto
  next
    case (removed k' v')
    have k': "k' \<in> D" using removed(1) in_D [of "(k', v')"] by simp
    have one: "eq k' k2 \<longleftrightarrow> eq k k2"
      using k' removed(2) sym [of k' k] trans [of k' k k2] trans [of k k' k2] assms(2,3) by blast
    show ?thesis
    proof (cases "eq k k2")
      case True
      have "\<not> eq (fst e) k2" if "e \<in># entries (map_remove h eq k m)" for e
      proof
        assume e: "eq (fst e) k2"
        have "fst e \<in> D" using that removed(1) in_D [of e] by simp
        then have "eq k' (fst e)"
          using e one True k' sym [of "fst e" k2] trans [of k' k2 "fst e"] assms(3) by blast
        then show False using assms(1) that removed(1)
          by (auto simp: table_def apart_def)
      qed
      then show ?thesis using True map_find_none [OF t assms(3)] by simp
    next
      case False
      then have "map_find h eq (map_remove h eq k m) k2 = Some w \<longleftrightarrow> map_find h eq m k2 = Some w" for w
        using new old one removed(1) by auto
      then show ?thesis using False by (metis option.exhaust)
    qed
  qed
qed

end

section \<open>Growth\<close>

lemma same_hash_bucket:
  assumes "placed h kf slots" "slots \<noteq> []" "\<forall>e \<in># entries slots. h (kf e) = c"
  shows "length (slots ! (unat c mod length slots)) = size (entries slots)"
proof -
  let ?s = "unat c mod length slots"
  have s: "?s < length slots" using assms(2) by simp
  obtain r where r: "entries slots = mset (slots ! ?s) + r" "entries (slots[?s := []]) = r"
    using slot_subset [OF s] by (metis add_0 mset.simps(1))
  have "slots ! t = []" if "t < length slots" "t \<noteq> ?s" for t
  proof (rule ccontr)
    assume "slots ! t \<noteq> []"
    then obtain e where e: "e \<in> set (slots ! t)" by (cases "slots ! t") auto
    then have "h (kf e) = c" using assms(3) that(1) by (auto simp: in_entries)
    then show False using assms(1) e that by (auto simp: placed_def slot_of_def)
  qed
  then have "\<forall>b \<in> set (slots[?s := []]). b = []"
    using s by (auto simp: in_set_conv_nth nth_list_update simp del: mod_less_divisor)
  then have "r = {#}" using r(2) by (auto simp: entries_def concat_eq_Nil_conv)
  then show ?thesis using r(1) by simp
qed

lemma collisions:
  assumes "\<forall>k \<in> set ks. h k = c" "sorted_wrt (\<lambda>a b. \<not> eq a b) ks" "ks \<noteq> []"
  shows "let t = fold (set_insert h eq) ks [] in
    placed h id t \<and> entries t = mset ks \<and> 4 \<le> length t \<and> 2 ^ (length ks - 5) \<le> length t"
  using assms
proof (induction ks rule: rev_induct)
  case (snoc k ks)
  show ?case
  proof (cases "ks = []")
    case True
    have "length (add_entry h id k []) = 4" by (simp add: add_entry_def reserve_for_push_def Let_def)
    then show ?thesis
      using True add_entry_props [of h id "[]" k] by (simp add: set_insert_def find_slot_def placed_def entries_def)
  next
    case False
    let ?t = "fold (set_insert h eq) ks []"
    have IH: "placed h id ?t" "entries ?t = mset ks" "4 \<le> length ?t" "2 ^ (length ks - 5) \<le> length ?t"
      using snoc False by (auto simp: Let_def sorted_wrt_append id_def)
    have none: "find_slot h eq id ?t k = None"
    proof (rule ccontr)
      assume "find_slot h eq id ?t k \<noteq> None"
      then obtain s i where si: "find_slot h eq id ?t k = Some (s, i)" by auto
      then have "s < length ?t" "i < length (?t ! s)" "eq (?t ! s ! i) k"
        by (auto simp: find_slot_def Let_def slot_of_less dest: find_upt_Some split: if_splits)
      moreover from this(1,2) have "?t ! s ! i \<in># entries ?t" by (auto simp: in_entries)
      ultimately show False using snoc.prems(2) IH(2) by (auto simp: sorted_wrt_append)
    qed
    have len: "length (?t ! (unat c mod length ?t)) = length ks"
    proof -
      have "?t \<noteq> []" using IH(3) by auto
      moreover have "\<forall>e \<in># entries ?t. h (id e) = c" using IH(2) snoc.prems(1) by auto
      ultimately show ?thesis using same_hash_bucket [OF IH(1)] IH(2) by simp
    qed
    have grow: "length (add_entry h id k ?t) = (if list_ex (\<lambda>b. length b > 4) ?t then length ?t * 2 + 1 else length ?t)"
      using IH(3) by (auto simp: add_entry_def reserve_for_push_def Let_def rehash_props)
    have "2 ^ (length (ks @ [k]) - 5) \<le> length (add_entry h id k ?t)"
    proof (cases "4 < length ks")
      case True
      have "unat c mod length ?t < length ?t" using IH(3) by (intro mod_less_divisor) linarith
      then have "list_ex (\<lambda>b. length b > 4) ?t"
        using True len unfolding list_ex_iff by (metis nth_mem)
      moreover have "length (ks @ [k]) - 5 = Suc (length ks - 5)" using True by simp
      ultimately show ?thesis using grow IH(4) by simp
    next
      case False
      then have "length (ks @ [k]) - 5 = 0" by simp
      then show ?thesis using grow IH(3) by auto
    qed
    moreover have "set_insert h eq k ?t = add_entry h id k ?t" by (simp add: set_insert_def [of h eq k ?t] none)
    moreover have "4 \<le> length (add_entry h id k ?t)" using grow IH(3) by auto
    ultimately show ?thesis
      using IH add_entry_props [OF IH(1), of k] by (simp add: Let_def id_def)
  qed
qed simp

section \<open>Comparing whole tables\<close>

context hashed
begin

text \<open>
  A table of keys that are apart, each matched by an entry of a table of the same size, is
  matched back, and any quantity the match preserves has the same multiset of values.
\<close>

lemma matched:
  assumes "apart eq kf M" "kf ` set_mset M \<subseteq> D" "kf ` set_mset N \<subseteq> D" "size M = size N"
    and "\<forall>x \<in># M. \<exists>y \<in># N. R x y" "\<forall>x \<in># M. \<forall>y \<in># N. R x y \<longrightarrow> eq (kf y) (kf x) \<and> g x = g y"
  shows "(\<forall>y \<in># N. \<exists>x \<in># M. R x y) \<and> image_mset g M = image_mset g N"
  using assms
proof (induction M arbitrary: N)
  case (add x M)
  obtain y where y: "y \<in># N" "R x y" using add.prems(5) by auto
  then obtain N' where N: "N = add_mset y N'" by (blast dest: multi_member_split)
  have R: "eq (kf w) (kf z)" "g z = g w" if "z \<in># add_mset x M" "w \<in># N" "R z w" for z w
    using add.prems(6) that by blast+
  have "\<exists>y' \<in># N'. R x' y'" if x': "x' \<in># M" for x'
  proof -
    obtain y' where y': "y' \<in># N" "R x' y'" using add.prems(5) x' by auto
    have "y' \<noteq> y"
    proof
      assume "y' = y"
      then have "eq (kf y) (kf x')" "eq (kf y) (kf x)" using y y' x' R by auto
      moreover have "kf x \<in> D" "kf x' \<in> D" "kf y \<in> D" using add.prems(2,3) x' y(1) by auto
      ultimately have "eq (kf x) (kf x')" using sym [of "kf y" "kf x"] trans [of "kf x" "kf y" "kf x'"] by simp
      then show False using add.prems(1) x' by (auto simp: apart_def)
    qed
    then show ?thesis using y' N by auto
  qed
  moreover have "apart eq kf M" using add.prems(1) by (rule apart_sub) simp
  moreover have "\<forall>x \<in># M. \<forall>y \<in># N'. R x y \<longrightarrow> eq (kf y) (kf x) \<and> g x = g y" using R N by auto
  ultimately have IH: "(\<forall>y \<in># N'. \<exists>x \<in># M. R x y) \<and> image_mset g M = image_mset g N'"
    using add.prems(2-4) N by (intro add.IH) auto
  then show ?case using y R(2) [of x y] N by auto
qed auto

lemma set_eq_matched:
  assumes "table id s" "table id t" "size (entries s) = size (entries t)"
    and "\<forall>x \<in># entries s. set_contains h eq t x"
  shows "(\<forall>y \<in># entries t. set_contains h eq s y) \<and> image_mset h (entries s) = image_mset h (entries t)"
proof -
  have D: "x \<in># entries s \<or> x \<in># entries t \<Longrightarrow> x \<in> D" for x using assms(1,2) by (auto simp: table_def)
  have "\<forall>x \<in># entries s. \<exists>y \<in># entries t. eq y x" using assms(4) set_contains_iff [OF assms(2)] D by blast
  moreover have "\<forall>x \<in># entries s. \<forall>y \<in># entries t. eq y x \<longrightarrow> eq (id y) (id x) \<and> h x = h y"
    using compat D by fastforce
  ultimately have "(\<forall>y \<in># entries t. \<exists>x \<in># entries s. eq y x) \<and> image_mset h (entries s) = image_mset h (entries t)"
    using assms(1-3) by (intro matched [where kf = id]) (auto simp: table_def)
  moreover have "set_contains h eq s y" if "y \<in># entries t" "x \<in># entries s" "eq y x" for x y
    using set_contains_iff [OF assms(1)] sym [of y x] D that by blast
  ultimately show ?thesis by blast
qed

lemma set_eq_trans:
  assumes "table id s" "table id t" "table id u"
    and "\<forall>x \<in># entries s. set_contains h eq t x" "\<forall>x \<in># entries t. set_contains h eq u x"
  shows "\<forall>x \<in># entries s. set_contains h eq u x"
proof
  fix x assume x: "x \<in># entries s"
  have D: "set_mset (entries s) \<subseteq> D" "set_mset (entries t) \<subseteq> D" "set_mset (entries u) \<subseteq> D"
    using assms(1-3) by (auto simp: table_def)
  obtain y where y: "y \<in># entries t" "eq y x" using assms(4) x set_contains_iff [OF assms(2)] D(1) by blast
  obtain z where z: "z \<in># entries u" "eq z y" using assms(5) y(1) set_contains_iff [OF assms(3)] D(2) by blast
  have "eq z x" using trans [of z y x] x y z D by blast
  then show "set_contains h eq u x" using set_contains_iff [OF assms(3)] x z(1) D(1) by blast
qed

text \<open>Maps, with an equality \<open>veq\<close> on the values.\<close>

definition bound :: "('v \<Rightarrow> 'v \<Rightarrow> bool) \<Rightarrow> ('k \<times> 'v) slots \<Rightarrow> 'k \<times> 'v \<Rightarrow> bool" where
  "bound veq n e \<longleftrightarrow> (\<exists>v. map_find h eq n (fst e) = Some v \<and> veq v (snd e))"

lemma bound_iff:
  assumes "table fst n" "fst e \<in> D"
  shows "bound veq n e \<longleftrightarrow> (\<exists>f \<in># entries n. eq (fst f) (fst e) \<and> veq (snd f) (snd e))"
  unfolding bound_def using map_find_iff [OF assms] by (metis fst_conv snd_conv prod.collapse)

lemma map_eq_matched:
  assumes "table fst m" "table fst n" "size (entries m) = size (entries n)" "\<forall>e \<in># entries m. bound veq n e"
    and "\<And>e f. e \<in># entries m \<Longrightarrow> f \<in># entries n \<Longrightarrow> veq (snd f) (snd e) \<Longrightarrow> veq (snd e) (snd f) \<and> g (snd e) = g (snd f)"
  shows "(\<forall>f \<in># entries n. bound veq m f) \<and>
    image_mset (\<lambda>e. (h (fst e), g (snd e))) (entries m) = image_mset (\<lambda>e. (h (fst e), g (snd e))) (entries n)"
proof -
  have D: "x \<in># entries m \<or> x \<in># entries n \<Longrightarrow> fst x \<in> D" for x using assms(1,2) by (auto simp: table_def)
  let ?R = "\<lambda>e f. eq (fst f) (fst e) \<and> veq (snd f) (snd e)"
  have "\<forall>e \<in># entries m. \<exists>f \<in># entries n. ?R e f" using assms(4) bound_iff [OF assms(2)] D by blast
  moreover have "\<forall>x \<in># entries m. \<forall>y \<in># entries n. ?R x y \<longrightarrow>
      eq (fst y) (fst x) \<and> (h (fst x), g (snd x)) = (h (fst y), g (snd y))"
  proof (intro ballI impI)
    fix x y assume xy: "x \<in># entries m" "y \<in># entries n" "?R x y"
    then have "h (fst y) = h (fst x)" using compat D by blast
    then show "eq (fst y) (fst x) \<and> (h (fst x), g (snd x)) = (h (fst y), g (snd y))"
      using xy assms(5) [of x y] by simp
  qed
  ultimately have c: "(\<forall>f \<in># entries n. \<exists>e \<in># entries m. ?R e f) \<and>
      image_mset (\<lambda>e. (h (fst e), g (snd e))) (entries m) = image_mset (\<lambda>e. (h (fst e), g (snd e))) (entries n)"
    using assms(1-3) by (intro matched [where kf = fst]) (auto simp: table_def)
  have "bound veq m f" if f: "f \<in># entries n" for f
  proof -
    obtain e where e: "e \<in># entries m" "?R e f" using c f by blast
    then have "eq (fst e) (fst f)" "veq (snd e) (snd f)" using sym [of "fst f" "fst e"] D f assms(5) by blast+
    then show ?thesis using bound_iff [OF assms(1)] D e(1) f by blast
  qed
  then show ?thesis using c by blast
qed

lemma map_eq_trans:
  assumes "table fst m" "table fst n" "table fst p" "\<forall>e \<in># entries m. bound veq n e" "\<forall>e \<in># entries n. bound veq p e"
    and "\<And>e f g. e \<in># entries m \<Longrightarrow> f \<in># entries n \<Longrightarrow> g \<in># entries p \<Longrightarrow>
      veq (snd g) (snd f) \<Longrightarrow> veq (snd f) (snd e) \<Longrightarrow> veq (snd g) (snd e)"
  shows "\<forall>e \<in># entries m. bound veq p e"
proof
  fix e assume e: "e \<in># entries m"
  have D: "x \<in># entries m \<or> x \<in># entries n \<or> x \<in># entries p \<Longrightarrow> fst x \<in> D" for x
    using assms(1-3) by (auto simp: table_def)
  obtain f where f: "f \<in># entries n" "eq (fst f) (fst e)" "veq (snd f) (snd e)"
    using assms(4) e bound_iff [OF assms(2)] D by blast
  obtain g where g: "g \<in># entries p" "eq (fst g) (fst f)" "veq (snd g) (snd f)"
    using assms(5) f(1) bound_iff [OF assms(3)] D by blast
  have "eq (fst g) (fst e)" using trans [of "fst g" "fst f" "fst e"] D e f g by blast
  then show "bound veq p e" using bound_iff [OF assms(3)] D e g(1) assms(6) [OF e f(1) g(1) g(3) f(3)] by blast
qed

end

section \<open>Rebuilding a table\<close>

lemma apart_add_iff:
  "apart eq kf (add_mset e M) \<longleftrightarrow> apart eq kf M \<and> (\<forall>f \<in># M. \<not> eq (kf e) (kf f) \<and> \<not> eq (kf f) (kf e))"
proof
  assume a: "apart eq kf (add_mset e M)"
  have "apart eq kf M"
    unfolding apart_def
  proof (intro ballI)
    fix x y assume "x \<in># M" "y \<in># M - {#x#}"
    then have "x \<in># add_mset e M" "y \<in># add_mset e M - {#x#}" by (auto dest!: multi_member_split)
    then show "\<not> eq (kf x) (kf y)" using a by (auto simp: apart_def)
  qed
  moreover have "\<not> eq (kf e) (kf f) \<and> \<not> eq (kf f) (kf e)" if f: "f \<in># M" for f
  proof -
    have "f \<in># add_mset e M - {#e#}" "e \<in># add_mset e M - {#f#}"
      using f by (auto dest!: multi_member_split)
    then show ?thesis using a f by (auto simp: apart_def)
  qed
  ultimately show "apart eq kf M \<and> (\<forall>f \<in># M. \<not> eq (kf e) (kf f) \<and> \<not> eq (kf f) (kf e))" by blast
next
  assume a: "apart eq kf M \<and> (\<forall>f \<in># M. \<not> eq (kf e) (kf f) \<and> \<not> eq (kf f) (kf e))"
  show "apart eq kf (add_mset e M)"
    unfolding apart_def
  proof (intro ballI)
    fix x y assume xy: "x \<in># add_mset e M" "y \<in># add_mset e M - {#x#}"
    show "\<not> eq (kf x) (kf y)"
    proof (cases "x = e \<or> y = e")
      case True
      then have "x = e \<and> y \<in># M \<or> y = e \<and> x \<in># M" using xy by (cases "x = e") auto
      then show ?thesis using a by blast
    next
      case False
      then have "x \<in># M" "y \<in># M - {#x#}" using xy by (auto simp: diff_add_mset_swap)
      then show ?thesis using a by (auto simp: apart_def)
    qed
  qed
qed

context hashed
begin

text \<open>Keys that are apart are all inserted, and keys equal to keys that are apart are apart.\<close>

lemma fold_set_insert:
  assumes "table id s" "set vs \<subseteq> D" "apart eq id (entries s + mset vs)"
  shows "table id (fold (set_insert h eq) vs s) \<and> entries (fold (set_insert h eq) vs s) = entries s + mset vs"
  using assms
proof (induction vs arbitrary: s)
  case (Cons v vs)
  have new: "\<forall>e \<in># entries s. \<not> eq e v"
    using Cons.prems(3) by (auto simp: apart_add_iff)
  then have e: "entries (set_insert h eq v s) = add_mset v (entries s)"
    using set_insert_entries [of s v] Cons.prems(1,2) by auto
  have "table id (set_insert h eq v s)" using set_insert_table [of s v] Cons.prems(1,2) by simp
  from Cons.IH [OF this] show ?case using Cons.prems(2,3) e by simp
qed simp

lemma fold_map_insert:
  assumes "table fst m" "fst ` set es \<subseteq> D" "apart eq fst (entries m + mset es)"
  shows "table fst (fold (\<lambda>(k, v). map_insert h eq k v) es m) \<and>
    entries (fold (\<lambda>(k, v). map_insert h eq k v) es m) = entries m + mset es"
  using assms
proof (induction es arbitrary: m)
  case (Cons e es)
  obtain k v where kv: "e = (k, v)" by fastforce
  have new: "\<forall>f \<in># entries m. \<not> eq (fst f) k"
    using Cons.prems(3) by (auto simp: apart_add_iff kv)
  have "k \<in> D" using Cons.prems(2) kv by simp
  then have "entries (map_insert h eq k v m) = add_mset (k, v) (entries m) \<and> table fst (map_insert h eq k v m)"
    using new by (cases rule: map_insert_cases [OF Cons.prems(1), of k v]) auto
  then show ?case using Cons.IH [of "map_insert h eq k v m"] Cons.prems(2,3) kv by simp
qed simp

lemma fold_set_members:
  assumes "table id s" "set vs \<subseteq> D"
  shows "table id (fold (set_insert h eq) vs s) \<and>
    set_mset (entries (fold (set_insert h eq) vs s)) \<subseteq> set_mset (entries s) \<union> set vs"
  using assms
proof (induction vs arbitrary: s)
  case (Cons v vs)
  have v: "table id (set_insert h eq v s)" using set_insert_table [of s v] Cons.prems by simp
  have "set_mset (entries (set_insert h eq v s)) \<subseteq> insert v (set_mset (entries s))"
    using set_insert_entries [of s v] Cons.prems by auto
  then show ?case using Cons.IH [OF v] Cons.prems(2) by auto
qed simp

lemma fold_map_members:
  assumes "table fst m" "fst ` set es \<subseteq> D"
    and "\<forall>e \<in># entries m. P (fst e) \<and> Q (snd e)" "\<forall>e \<in> set es. P (fst e) \<and> Q (snd e)"
  shows "table fst (fold (\<lambda>(k, v). map_insert h eq k v) es m) \<and>
    (\<forall>e \<in># entries (fold (\<lambda>(k, v). map_insert h eq k v) es m). P (fst e) \<and> Q (snd e))"
  using assms
proof (induction es arbitrary: m)
  case (Cons e es)
  obtain k v where kv: "e = (k, v)" by fastforce
  have "table fst (map_insert h eq k v m) \<and> (\<forall>e \<in># entries (map_insert h eq k v m). P (fst e) \<and> Q (snd e))"
    by (rule map_insert_cases [OF Cons.prems(1), of k v]) (use Cons.prems(2-4) kv in auto)
  then show ?case using Cons.IH [of "map_insert h eq k v m"] Cons.prems(2,4) kv by simp
qed simp

lemma apart_image:
  assumes "apart eq kf (mset xs)" "\<forall>x \<in> set xs. kf x \<in> D \<and> kf' (F x) \<in> D \<and> eq (kf' (F x)) (kf x)"
  shows "apart eq kf' (mset (map F xs))"
  using assms
proof (induction xs)
  case Nil
  then show ?case by (simp add: apart_def)
next
  case (Cons x xs)
  have "\<not> eq (kf' (F a)) (kf' (F b))" if "\<not> eq (kf a) (kf b)" "a \<in> set (x # xs)" "b \<in> set (x # xs)" for a b
  proof
    assume ab: "eq (kf' (F a)) (kf' (F b))"
    have D: "kf a \<in> D" "kf b \<in> D" "kf' (F a) \<in> D" "kf' (F b) \<in> D" and e: "eq (kf' (F a)) (kf a)" "eq (kf' (F b)) (kf b)"
      using Cons.prems(2) that(2,3) by blast+
    have "eq (kf a) (kf' (F a))" by (rule sym [OF D(3,1) e(1)])
    then have "eq (kf a) (kf' (F b))" using ab by (rule trans [OF D(1,3,4)])
    then have "eq (kf a) (kf b)" using e(2) by (rule trans [OF D(1,4,2)])
    then show False using that(1) by simp
  qed
  then have "\<forall>y \<in> set xs. \<not> eq (kf' (F x)) (kf' (F y)) \<and> \<not> eq (kf' (F y)) (kf' (F x))"
    using Cons.prems(1) by (auto simp: apart_add_iff)
  then show ?case using Cons by (auto simp: apart_add_iff)
qed

end

section \<open>Properties\<close>

text \<open>Unseeded hashing is a memory hazard. When keys that are not equal share a hash, every
  insertion behind the fifth finds an overfull slot and rehashes into twice as many slots,
  which does not separate them: \<open>n\<close> such keys take at least \<open>2 ^ (n - 5)\<close> slots.\<close>

theorem colliding_keys_explode:
  assumes "\<forall>k \<in> set ks. h k = c" "sorted_wrt (\<lambda>a b. \<not> eq a b) ks" "ks \<noteq> []"
  shows "2 ^ (length ks - 5) \<le> length (fold (set_insert h eq) ks [])"
  using collisions [OF assms] by (simp add: Let_def)

theorem colliding_keys_explode_witness:
  "2 ^ 25 \<le> length (fold (set_insert (\<lambda>k. 7) (=)) [0..<30 :: nat] [])"
proof -
  have "sorted_wrt (\<lambda>a b. \<not> a = b) [0..<30 :: nat]"
    by (rule sorted_wrt_mono_rel [OF _ sorted_wrt_upt]) simp
  then show ?thesis using colliding_keys_explode [of "[0..<30 :: nat]" "\<lambda>k. 7" 7 "(=)"] by simp
qed

end
