(* ===== verification/CqlHash.thy ===== *)
theory CqlHash
  imports HashTable CqlValue
begin

text \<open>
  Equality and hashing of nested column values (\<open>operator==\<close> and \<open>hash\<close> of
  \<open>NestedColumnValue\<close> in \<open>cql/engine/column_value.cpp\<close>, the \<open>hash\<close> overloads of
  \<open>types.cppm\<close>, \<open>hash(String8)\<close> of \<open>core/base/string.cpp\<close> on XXHash64): what CQL sets and maps
  use to tell their elements apart.
\<close>

section \<open>XXHash64\<close>

definition P1 :: u64 where "P1 = 11400714785074694791"
definition P2 :: u64 where "P2 = 14029467366897019727"
definition P3 :: u64 where "P3 = 1609587929392839161"
definition P4 :: u64 where "P4 = 9650029242287828579"
definition P5 :: u64 where "P5 = 2870177450012600261"

definition rotate_left :: "u64 \<Rightarrow> nat \<Rightarrow> u64" where
  "rotate_left x bits = push_bit bits x OR drop_bit (64 - bits) x"

definition process_single :: "u64 \<Rightarrow> u64 \<Rightarrow> u64" where
  "process_single previous input = rotate_left (previous + input * P2) 31 * P1"

definition xxh_process :: "bytes \<Rightarrow> u64 list \<Rightarrow> u64 list" where
  "xxh_process data st =
     map (\<lambda>i. process_single (st ! i) (word_at (take 8 (drop (8 * i) data)))) [0..<4]"

function xxh_blocks :: "u64 list \<Rightarrow> bytes \<Rightarrow> u64 list \<times> bytes" where
  "xxh_blocks st data =
     (if 32 \<le> length data then xxh_blocks (xxh_process data st) (drop 32 data) else (st, data))"
  by pat_completeness auto
termination by (relation "measure (\<lambda>(st, data). length data)") auto

function xxh_words :: "u64 \<Rightarrow> bytes \<Rightarrow> u64 \<times> bytes" where
  "xxh_words r data =
     (if 8 \<le> length data
      then xxh_words (rotate_left (r XOR process_single 0 (word_at (take 8 data))) 27 * P1 + P4) (drop 8 data)
      else (r, data))"
  by pat_completeness auto
termination by (relation "measure (\<lambda>(r, data). length data)") auto

declare xxh_blocks.simps [simp del] xxh_words.simps [simp del]

definition xxh_half :: "u64 \<times> bytes \<Rightarrow> u64 \<times> bytes" where
  "xxh_half p = (let (r, data) = p
     in if 4 \<le> length data
        then (rotate_left (r XOR (ucast (word_at (take 4 data) :: u32) * P1)) 23 * P2 + P3, drop 4 data)
        else (r, data))"

definition xxhash64 :: "bytes \<Rightarrow> u64 \<Rightarrow> u64" where
  "xxhash64 input seed =
     (let (st, rest) = xxh_blocks [seed + P1 + P2, seed + P2, seed, seed - P1] input;
          r = (if 32 \<le> length input then
                 fold (\<lambda>i r. (r XOR process_single 0 (st ! i)) * P1 + P4) [0..<4]
                   (rotate_left (st ! 0) 1 + rotate_left (st ! 1) 7
                    + rotate_left (st ! 2) 12 + rotate_left (st ! 3) 18)
               else seed + P5);
          r = r + word_of_nat (length input);
          (r, tl) = xxh_half (xxh_words r rest);
          r = fold (\<lambda>b r. rotate_left (r XOR (ucast b * P5)) 11 * P1) tl r;
          r = (r XOR drop_bit 33 r) * P2;
          r = (r XOR drop_bit 29 r) * P3
      in r XOR drop_bit 32 r)"

section \<open>Hashes of values\<close>

definition str_hash :: "bytes \<Rightarrow> u64" where
  "str_hash s = (let r = xxhash64 s 0 in r OR (if r = 0 then 1 else 0))"

definition hash_u64 :: "u64 \<Rightarrow> u64" where "hash_u64 x = 1 + x"

definition hash_varint :: "varint \<Rightarrow> u64" where
  "hash_varint v = str_hash (magnitude v) XOR (if negative v then 1 else 0)"

definition mix_hash :: "u64 \<Rightarrow> u64 \<Rightarrow> u64" where
  "mix_hash h x = (let h = (h XOR x) * 0x9e3779b97f4a7c15 in h XOR drop_bit 32 h)"

definition f64_is_zero :: "u64 \<Rightarrow> bool" where "f64_is_zero b \<longleftrightarrow> b AND 0x7FFFFFFFFFFFFFFF = 0"
definition f64_is_nan :: "u64 \<Rightarrow> bool" where
  "f64_is_nan b \<longleftrightarrow> b AND 0x7FFFFFFFFFFFFFFF > 0x7FF0000000000000"
definition f32_is_zero :: "u32 \<Rightarrow> bool" where "f32_is_zero b \<longleftrightarrow> b AND 0x7FFFFFFF = 0"
definition f32_is_nan :: "u32 \<Rightarrow> bool" where
  "f32_is_nan b \<longleftrightarrow> b AND 0x7FFFFFFF > 0x7F800000"

text \<open>IEEE equality on the bit patterns.\<close>

definition f64_eq :: "u64 \<Rightarrow> u64 \<Rightarrow> bool" where
  "f64_eq a b \<longleftrightarrow> \<not> f64_is_nan a \<and> \<not> f64_is_nan b \<and> (a = b \<or> f64_is_zero a \<and> f64_is_zero b)"

definition f32_eq :: "u32 \<Rightarrow> u32 \<Rightarrow> bool" where
  "f32_eq a b \<longleftrightarrow> \<not> f32_is_nan a \<and> \<not> f32_is_nan b \<and> (a = b \<or> f32_is_zero a \<and> f32_is_zero b)"

lemma size_slots:
  "b \<in> set s \<Longrightarrow> x \<in> set b \<Longrightarrow> f x < size_list (size_list f) s"
proof (induction s)
  case (Cons c s)
  have "x \<in> set c \<Longrightarrow> f x < Suc (size_list f c)" by (induction c) auto
  then show ?case using Cons by fastforce
qed simp

lemma size_in_set [termination_simp]:
  "b \<in> set s \<Longrightarrow> x \<in> set b \<Longrightarrow> size x < Suc (size_list (size_list size) s)" for x :: cv
  using size_slots [of b s x size] by simp

lemma size_in_map [termination_simp]:
  "b \<in> set m \<Longrightarrow> e \<in> set b \<Longrightarrow> size (fst e) < Suc (size_list (size_list (\<lambda>x. Suc (size (fst x) + size (snd x)))) m)"
  "b \<in> set m \<Longrightarrow> e \<in> set b \<Longrightarrow> size (snd e) < Suc (size_list (size_list (\<lambda>x. Suc (size (fst x) + size (snd x)))) m)"
  for e :: "cv \<times> cv"
  using size_slots [of b m e "\<lambda>x. Suc (size (fst x) + size (snd x))"] by simp_all

fun hash_cv :: "cv \<Rightarrow> u64" where
  "hash_cv CNull = 0x9e3779b97f4a7c15"
| "hash_cv (CText s) = str_hash s"
| "hash_cv (CS64 x) = hash_u64 x"
| "hash_cv (CS32 x) = hash_u64 (word_of_int (sint x))"
| "hash_cv (CS16 x) = hash_u64 (word_of_int (sint x))"
| "hash_cv (CU8 x) = hash_u64 (ucast x)"
| "hash_cv (CF64 b) = str_hash (put_word (if f64_is_zero b then 0 else b))"
| "hash_cv (CF32 b) = str_hash (put_word (if f32_is_zero b then 0 else b))"
| "hash_cv (CBlob s) = str_hash s"
| "hash_cv (CUuid u) = str_hash u"
| "hash_cv (CInet v6 a) = str_hash a"
| "hash_cv (CVarInt v) = hash_varint v"
| "hash_cv (CDecimal s v) = hash_varint v XOR str_hash (put_word s)"
| "hash_cv (CDuration m d n) = str_hash (put_word m @ put_word d @ put_word n)"
| "hash_cv (CArray vs) = fold (\<lambda>v h. mix_hash h (hash_cv v)) vs 1"
| "hash_cv (CSet s) = fold (\<lambda>v h. h + mix_hash 2 (hash_cv v)) (concat s) 2"
| "hash_cv (CMap m) =
     fold (\<lambda>e h. h + mix_hash 3 (mix_hash (hash_cv (fst e)) (hash_cv (snd e)))) (concat m) 3"

section \<open>Equality\<close>

fun basic_eq :: "cv \<Rightarrow> cv \<Rightarrow> bool" where
  "basic_eq (CF64 a) (CF64 b) \<longleftrightarrow> f64_eq a b"
| "basic_eq (CF32 a) (CF32 b) \<longleftrightarrow> f32_eq a b"
| "basic_eq a b \<longleftrightarrow> a = b"

definition slots_find :: "'e slots \<Rightarrow> cv \<Rightarrow> 'e list" where
  "slots_find s k = (if s = [] then [] else s ! slot_of hash_cv (length s) k)"

lemma slots_find_in: "e \<in> set (slots_find s k) \<Longrightarrow> \<exists>b \<in> set s. e \<in> set b"
  by (auto simp: slots_find_def slot_of_less split: if_splits intro!: bexI [OF _ nth_mem])

lemma csize_array: "x \<in> set xs \<Longrightarrow> size x < size (CArray xs)"
  using size_list_estimation' [of x xs "size x" size] by simp

lemma csize_set: "b \<in> set s \<Longrightarrow> v \<in> set b \<Longrightarrow> size v < size (CSet s)"
  using size_slots [of b s v size] by simp

lemma csize_map:
  "c \<in> set m \<Longrightarrow> e \<in> set c \<Longrightarrow> size (fst e) < size (CMap m)"
  "c \<in> set m \<Longrightarrow> e \<in> set c \<Longrightarrow> size (snd e) < size (CMap m)"
  using size_slots [of c m e "size_prod size size"] by (cases e; simp)+

lemma find_in: "find P xs = Some x \<Longrightarrow> x \<in> set xs"
  by (auto simp: find_Some_iff)

lemma csize_zip: "p \<in> set (zip xs ys) \<Longrightarrow> (case p of (x, y) \<Rightarrow> size x + size y) < size (CArray xs) + size (CArray ys)"
  using csize_array by (cases p) (auto dest: set_zip_leftD set_zip_rightD intro!: add_strict_mono simp del: cv.size)

lemma csize_set_pair:
  assumes "\<exists>b \<in> set s. x \<in> set b" "y \<in> set (slots_find t x)"
  shows "size y + size x < size (CSet s) + size (CSet t)"
proof -
  obtain b c where "b \<in> set s" "x \<in> set b" "c \<in> set t" "y \<in> set c"
    using assms slots_find_in by metis
  then have "size x < size (CSet s)" "size y < size (CSet t)" by (blast intro: csize_set)+
  then show ?thesis by linarith
qed

lemma csize_map_pair:
  assumes "\<exists>c \<in> set m. e \<in> set c" "f \<in> set (slots_find n k)"
  shows "size (fst f) + size (fst e) < size (CMap m) + size (CMap n) \<and>
    size (snd f) + size (snd e) < size (CMap m) + size (CMap n)"
proof -
  obtain c d where cd: "c \<in> set m" "e \<in> set c" "d \<in> set n" "f \<in> set d"
    using assms slots_find_in by metis
  then show ?thesis using csize_map [OF cd(1,2)] csize_map [OF cd(3,4)] by linarith
qed

text \<open>
  Two sets are equal when they are of one size and the second contains, in the slot of its
  hash, every element of the first; maps likewise, with the values.
\<close>

function cv_eq :: "cv \<Rightarrow> cv \<Rightarrow> bool" where
  "cv_eq a b =
     (case (a, b) of
        (CArray xs, CArray ys) \<Rightarrow> length xs = length ys \<and> (\<forall>p \<in> set (zip xs ys). cv_eq (fst p) (snd p))
      | (CSet s, CSet t) \<Rightarrow> table_length s = table_length t \<and>
          (\<forall>x \<in> set (concat s). \<exists>y \<in> set (slots_find t x). cv_eq y x)
      | (CMap m, CMap n) \<Rightarrow> table_length m = table_length n \<and>
          (\<forall>e \<in> set (concat m). case find (\<lambda>f. cv_eq (fst f) (fst e)) (slots_find n (fst e)) of
             Some f \<Rightarrow> cv_eq (snd f) (snd e) | None \<Rightarrow> False)
      | _ \<Rightarrow> basic_eq a b)"
  by pat_completeness auto

termination
proof ((relation "measure (\<lambda>(a, b). size a + size b)"; simp del: cv.size), goal_cases)
  case (1 a x y xs ys p)
  then show ?case using csize_zip by blast
next
  case (2 a x y s t v w)
  then show ?case using csize_set_pair by blast
next
  case (3 a x y m n e f)
  then show ?case using csize_map_pair by blast
next
  case (4 a x y m n e f)
  then show ?case using csize_map_pair [OF _ find_in] by blast
qed

declare cv_eq.simps [simp del]

section \<open>Equality as the containers see it\<close>

lemma find_upt_ex: "find P [0..<n] \<noteq> None \<longleftrightarrow> (\<exists>i<n. P i)"
  using find_upt_None [of P n] by auto

lemma find_slot_slots_find:
  "find_slot hash_cv eq kf s k \<noteq> None \<longleftrightarrow> (\<exists>e \<in> set (slots_find s k). eq (kf e) k)"
proof (cases "s = []")
  case False
  then have "find_slot hash_cv eq kf s k \<noteq> None \<longleftrightarrow>
      find (\<lambda>i. eq (kf (slots_find s k ! i)) k) [0..<length (slots_find s k)] \<noteq> None"
    by (simp add: find_slot_def slots_find_def Let_def)
  then show ?thesis unfolding find_upt_ex by (metis in_set_conv_nth)
qed (simp add: find_slot_def slots_find_def)

lemma find_map_list: "find P (map f xs) = map_option f (find (\<lambda>x. P (f x)) xs)"
  by (induction xs) auto

lemma find_nth: "find P xs = map_option (\<lambda>i. xs ! i) (find (\<lambda>i. P (xs ! i)) [0..<length xs])"
  using find_map_list [of P "\<lambda>i. xs ! i" "[0..<length xs]"] by (simp add: map_nth)

lemma case_find:
  "(case x of None \<Rightarrow> False | Some f \<Rightarrow> cv_eq (snd f) w) \<longleftrightarrow> (\<exists>v. map_option snd x = Some v \<and> cv_eq v w)"
  by (cases x) auto

lemma map_find_slots_find:
  "map_find hash_cv eq n k = map_option snd (find (\<lambda>f. eq (fst f) k) (slots_find n k))"
  by (simp add: map_find_def find_slot_def slots_find_def Let_def find_nth [of _ "n ! _"] option.map_comp o_def)

lemma cv_eq_containers:
  "cv_eq (CArray xs) (CArray ys) \<longleftrightarrow> list_all2 cv_eq xs ys"
  "cv_eq (CSet s) (CSet t) \<longleftrightarrow> size (entries s) = size (entries t) \<and>
     (\<forall>x \<in># entries s. set_contains hash_cv cv_eq t x)"
  "cv_eq (CMap m) (CMap n) \<longleftrightarrow> size (entries m) = size (entries n) \<and>
     (\<forall>e \<in># entries m. \<exists>v. map_find hash_cv cv_eq n (fst e) = Some v \<and> cv_eq v (snd e))"
proof -
  show "cv_eq (CArray xs) (CArray ys) \<longleftrightarrow> list_all2 cv_eq xs ys"
    by (auto simp: cv_eq.simps [of "CArray xs"] list_all2_iff)
  show "cv_eq (CSet s) (CSet t) \<longleftrightarrow> size (entries s) = size (entries t) \<and>
     (\<forall>x \<in># entries s. set_contains hash_cv cv_eq t x)"
    using find_slot_slots_find [of cv_eq id t]
    by (simp add: cv_eq.simps [of "CSet s"] table_length_entries set_contains_def entries_def)
  show "cv_eq (CMap m) (CMap n) \<longleftrightarrow> size (entries m) = size (entries n) \<and>
     (\<forall>e \<in># entries m. \<exists>v. map_find hash_cv cv_eq n (fst e) = Some v \<and> cv_eq v (snd e))"
    by (simp add: cv_eq.simps [of "CMap m"] table_length_entries map_find_slots_find entries_def case_find
        del: map_option_eq_Some)
qed

fun container :: "cv \<Rightarrow> bool" where
  "container (CArray _) \<longleftrightarrow> True" | "container (CSet _) \<longleftrightarrow> True" | "container (CMap _) \<longleftrightarrow> True"
| "container _ \<longleftrightarrow> False"

lemma cv_eq_basic:
  "\<not> container a \<Longrightarrow> cv_eq a b \<longleftrightarrow> basic_eq a b" "\<not> container b \<Longrightarrow> cv_eq a b \<longleftrightarrow> basic_eq a b"
  by (cases a; cases b; simp add: cv_eq.simps)+

lemma cv_eq_shape:
  "cv_eq (CArray xs) b \<Longrightarrow> \<exists>ys. b = CArray ys" "cv_eq (CSet s) b \<Longrightarrow> \<exists>t. b = CSet t"
  "cv_eq (CMap m) b \<Longrightarrow> \<exists>n. b = CMap n"
  by (cases b; simp add: cv_eq.simps)+

lemma containerE:
  assumes "container a" obtains xs where "a = CArray xs" | s where "a = CSet s" | m where "a = CMap m"
  using assms by (cases a) auto

lemma basic_eq_char:
  "basic_eq a b \<longleftrightarrow> (\<exists>x y. a = CF64 x \<and> b = CF64 y \<and> f64_eq x y) \<or> (\<exists>x y. a = CF32 x \<and> b = CF32 y \<and> f32_eq x y) \<or>
     a = b \<and> (\<forall>x. a \<noteq> CF64 x) \<and> (\<forall>x. a \<noteq> CF32 x)"
  by (cases a; cases b) simp_all

lemma float_eq_laws:
  "f64_eq x y \<Longrightarrow> f64_eq y x" "f64_eq x y \<Longrightarrow> f64_eq y z \<Longrightarrow> f64_eq x z"
  "f32_eq u v \<Longrightarrow> f32_eq v u" "f32_eq u v \<Longrightarrow> f32_eq v w \<Longrightarrow> f32_eq u w"
  by (auto simp: f64_eq_def f32_eq_def)

lemma basic_eq_sym: "basic_eq a b \<Longrightarrow> basic_eq b a"
  unfolding basic_eq_char using float_eq_laws(1,3) by blast

lemma basic_eq_hash: "basic_eq a b \<Longrightarrow> hash_cv a = hash_cv b"
  unfolding basic_eq_char by (auto simp: f64_eq_def f32_eq_def)

lemma basic_eq_trans: "basic_eq a b \<Longrightarrow> basic_eq b c \<Longrightarrow> basic_eq a c"
  unfolding basic_eq_char using float_eq_laws(2,4) by auto

lemma basic_eq_container: "basic_eq a b \<Longrightarrow> container a \<longleftrightarrow> container b"
  unfolding basic_eq_char by auto

section \<open>Well-formed cvs_below\<close>

text \<open>Every set and map inside a value is a table the container operations can have built.\<close>

fun wf_cv :: "cv \<Rightarrow> bool" where
  "wf_cv (CArray xs) \<longleftrightarrow> (\<forall>x \<in> set xs. wf_cv x)"
| "wf_cv (CSet s) \<longleftrightarrow> (\<forall>x \<in> set (concat s). wf_cv x) \<and> placed hash_cv id s \<and> apart cv_eq id (entries s)"
| "wf_cv (CMap m) \<longleftrightarrow> (\<forall>e \<in> set (concat m). wf_cv (fst e) \<and> wf_cv (snd e)) \<and>
     placed hash_cv fst m \<and> apart cv_eq fst (entries m)"
| "wf_cv v \<longleftrightarrow> True"

definition cvs_below :: "nat \<Rightarrow> cv set" where
  "cvs_below n = {v. wf_cv v \<and> size v < n}"

definition table_of :: "('e \<Rightarrow> cv) \<Rightarrow> cv set \<Rightarrow> 'e slots \<Rightarrow> bool" where
  "table_of kf D s \<longleftrightarrow> placed hash_cv kf s \<and> kf ` set_mset (entries s) \<subseteq> D \<and> apart cv_eq kf (entries s)"

lemma table_of: "hashed hash_cv cv_eq D \<Longrightarrow> hashed.table hash_cv cv_eq D kf s = table_of kf D s"
  by (simp add: hashed.table_def table_of_def)

lemma below_elements:
  "CArray xs \<in> cvs_below (Suc n) \<Longrightarrow> x \<in> set xs \<Longrightarrow> x \<in> cvs_below n"
  "CSet s \<in> cvs_below (Suc n) \<Longrightarrow> table_of id (cvs_below n) s"
  "CMap m \<in> cvs_below (Suc n) \<Longrightarrow> table_of fst (cvs_below n) m"
  "CMap m \<in> cvs_below (Suc n) \<Longrightarrow> e \<in># entries m \<Longrightarrow> snd e \<in> cvs_below n"
proof -
  show "CArray xs \<in> cvs_below (Suc n) \<Longrightarrow> x \<in> set xs \<Longrightarrow> x \<in> cvs_below n"
    using csize_array [of x xs] by (auto simp: cvs_below_def simp del: cv.size)
  show "table_of id (cvs_below n) s" if s: "CSet s \<in> cvs_below (Suc n)"
  proof -
    have "x \<in> cvs_below n" if x: "x \<in># entries s" for x
    proof -
      obtain b where b: "b \<in> set s" "x \<in> set b" using x by (auto simp: entries_def)
      then show ?thesis using csize_set [OF b] s by (auto simp: cvs_below_def simp del: cv.size)
    qed
    then show ?thesis using s by (auto simp: cvs_below_def table_of_def)
  qed
  have e: "fst e \<in> cvs_below n \<and> snd e \<in> cvs_below n" if m: "CMap m \<in> cvs_below (Suc n)" "e \<in># entries m" for e
  proof -
    obtain c where c: "c \<in> set m" "e \<in> set c" using m(2) by (auto simp: entries_def)
    then have "wf_cv (fst e)" "wf_cv (snd e)" using m(1) by (auto simp: cvs_below_def)
    then show ?thesis using csize_map [OF c] m(1) by (auto simp: cvs_below_def simp del: cv.size)
  qed
  then show "CMap m \<in> cvs_below (Suc n) \<Longrightarrow> e \<in># entries m \<Longrightarrow> snd e \<in> cvs_below n" by blast
  show "CMap m \<in> cvs_below (Suc n) \<Longrightarrow> table_of fst (cvs_below n) m"
    using e by (auto simp: cvs_below_def table_of_def)
qed

lemma sum_hash: "fold (\<lambda>x h. h + f x) xs a = a + sum_mset (image_mset f (mset xs))" for f :: "'a \<Rightarrow> u64"
  by (induction xs arbitrary: a) (simp_all add: add.assoc)

lemma hash_set: "image_mset hash_cv (entries s) = image_mset hash_cv (entries t) \<Longrightarrow> hash_cv (CSet s) = hash_cv (CSet t)"
proof -
  have "hash_cv (CSet s) = 2 + sum_mset (image_mset (mix_hash 2) (image_mset hash_cv (entries s)))" for s
    by (simp add: sum_hash entries_def image_mset.compositionality o_def)
  then show "image_mset hash_cv (entries s) = image_mset hash_cv (entries t) \<Longrightarrow> hash_cv (CSet s) = hash_cv (CSet t)"
    by simp
qed

lemma hash_map:
  "image_mset (\<lambda>e. (hash_cv (fst e), hash_cv (snd e))) (entries m) =
   image_mset (\<lambda>e. (hash_cv (fst e), hash_cv (snd e))) (entries n) \<Longrightarrow> hash_cv (CMap m) = hash_cv (CMap n)"
proof -
  have "hash_cv (CMap m) = 3 + sum_mset (image_mset (\<lambda>(k, v). mix_hash 3 (mix_hash k v))
    (image_mset (\<lambda>e. (hash_cv (fst e), hash_cv (snd e))) (entries m)))" for m
    by (simp add: sum_hash entries_def image_mset.compositionality o_def)
  then show "image_mset (\<lambda>e. (hash_cv (fst e), hash_cv (snd e))) (entries m) =
    image_mset (\<lambda>e. (hash_cv (fst e), hash_cv (snd e))) (entries n) \<Longrightarrow> hash_cv (CMap m) = hash_cv (CMap n)"
    by simp
qed

lemma hash_array: "list_all2 (\<lambda>x y. hash_cv x = hash_cv y) xs ys \<Longrightarrow> hash_cv (CArray xs) = hash_cv (CArray ys)"
proof -
  assume "list_all2 (\<lambda>x y. hash_cv x = hash_cv y) xs ys"
  then have "fold (\<lambda>v h. mix_hash h (hash_cv v)) xs a = fold (\<lambda>v h. mix_hash h (hash_cv v)) ys a" for a
    by (induction arbitrary: a rule: list_all2_induct) simp_all
  then show ?thesis by simp
qed

lemma array_laws:
  assumes H: "hashed hash_cv cv_eq D" and D: "set xs \<subseteq> D" "set ys \<subseteq> D" "set zs \<subseteq> D"
  shows "list_all2 cv_eq xs ys \<Longrightarrow> list_all2 cv_eq ys xs \<and> hash_cv (CArray xs) = hash_cv (CArray ys)"
    "list_all2 cv_eq xs ys \<Longrightarrow> list_all2 cv_eq ys zs \<Longrightarrow> list_all2 cv_eq xs zs"
proof -
  assume e: "list_all2 cv_eq xs ys"
  have el: "i < length xs \<Longrightarrow> xs ! i \<in> D \<and> ys ! i \<in> D \<and> cv_eq (xs ! i) (ys ! i)" for i
    using e D by (auto simp: list_all2_conv_all_nth)
  then have "list_all2 (\<lambda>x y. hash_cv x = hash_cv y) xs ys"
    using e hashed.compat [OF H] by (auto simp: list_all2_conv_all_nth)
  then show "list_all2 cv_eq ys xs \<and> hash_cv (CArray xs) = hash_cv (CArray ys)"
    using e el hashed.sym [OF H] hash_array [of xs ys] by (auto simp: list_all2_conv_all_nth)
  show "list_all2 cv_eq xs zs" if z: "list_all2 cv_eq ys zs"
  proof -
    have "zs ! i \<in> D" "cv_eq (ys ! i) (zs ! i)" if "i < length xs" for i
      using e z D(3) that by (auto simp: list_all2_conv_all_nth)
    then have "cv_eq (xs ! i) (zs ! i)" if "i < length xs" for i
      using hashed.trans [OF H, of "xs ! i" "ys ! i" "zs ! i"] el that by blast
    then show ?thesis using e z by (auto simp: list_all2_conv_all_nth)
  qed
qed

lemma cv_eq_symmetric_step:
  assumes H: "hashed hash_cv cv_eq (cvs_below n)" and a: "a \<in> cvs_below (Suc n)" "b \<in> cvs_below (Suc n)" "cv_eq a b"
  shows "cv_eq b a \<and> hash_cv a = hash_cv b"
proof -
  consider (basic) "\<not> container a" | (array) xs ys where "a = CArray xs" "b = CArray ys"
    | (set) s t where "a = CSet s" "b = CSet t" | (map) m k where "a = CMap m" "b = CMap k"
    using a(3) by (metis containerE cv_eq_shape)
  then show ?thesis
  proof cases
    case basic
    then have "basic_eq a b" using a(3) cv_eq_basic(1) by blast
    then show ?thesis using basic basic_eq_sym basic_eq_hash basic_eq_container cv_eq_basic(1) by blast
  next
    case array
    then have "set xs \<subseteq> cvs_below n" "set ys \<subseteq> cvs_below n" using a(1,2) below_elements(1) by blast+
    then show ?thesis using array_laws(1) [OF H, of xs ys "[]"] a(3) array cv_eq_containers(1) by simp
  next
    case set
    then have "hashed.table hash_cv cv_eq (cvs_below n) id s" "hashed.table hash_cv cv_eq (cvs_below n) id t"
      using a(1,2) below_elements(2) by (auto simp: table_of [OF H])
    from hashed.set_eq_matched [OF H this] show ?thesis
      using a(3) set hash_set [of s t] by (simp add: cv_eq_containers)
  next
    case map
    then have t: "hashed.table hash_cv cv_eq (cvs_below n) fst m" "hashed.table hash_cv cv_eq (cvs_below n) fst k"
      using a(1,2) below_elements(3) by (auto simp: table_of [OF H])
    have v: "cv_eq (snd f) (snd e) \<Longrightarrow> cv_eq (snd e) (snd f) \<and> hash_cv (snd e) = hash_cv (snd f)"
      if "e \<in># entries m" "f \<in># entries k" for e f
    proof -
      have "snd e \<in> cvs_below n" "snd f \<in> cvs_below n" using that a(1,2) map below_elements(4) by blast+
      then show "cv_eq (snd f) (snd e) \<Longrightarrow> ?thesis"
        using hashed.sym [OF H] hashed.compat [OF H] by metis
    qed
    from hashed.map_eq_matched [OF H t, of cv_eq hash_cv] v show ?thesis
      using a(3) map hash_map [of m k] by (simp add: cv_eq_containers hashed.bound_def [OF H])
  qed
qed

lemma cv_eq_trans_step:
  assumes H: "hashed hash_cv cv_eq (cvs_below n)"
    and a: "a \<in> cvs_below (Suc n)" "b \<in> cvs_below (Suc n)" "c \<in> cvs_below (Suc n)" "cv_eq a b" "cv_eq b c"
  shows "cv_eq a c"
proof -
  consider (basic) "\<not> container a" | (array) xs ys zs where "a = CArray xs" "b = CArray ys" "c = CArray zs"
    | (set) s t u where "a = CSet s" "b = CSet t" "c = CSet u"
    | (map) m k l where "a = CMap m" "b = CMap k" "c = CMap l"
    using a(4,5) by (metis containerE cv_eq_shape)
  then show ?thesis
  proof cases
    case basic
    then have "basic_eq a b" "\<not> container b" using a(4) cv_eq_basic(1) basic_eq_container by blast+
    then have "basic_eq a c" using a(5) cv_eq_basic(1) basic_eq_trans by blast
    then show ?thesis using basic cv_eq_basic(1) by blast
  next
    case array
    then have "set xs \<subseteq> cvs_below n" "set ys \<subseteq> cvs_below n" "set zs \<subseteq> cvs_below n"
      using a(1-3) below_elements(1) by blast+
    then show ?thesis using array_laws(2) [OF H, of xs ys zs] a(4,5) array cv_eq_containers(1) by simp
  next
    case set
    then have "hashed.table hash_cv cv_eq (cvs_below n) id s" "hashed.table hash_cv cv_eq (cvs_below n) id t"
      "hashed.table hash_cv cv_eq (cvs_below n) id u"
      using a(1-3) below_elements(2) by (auto simp: table_of [OF H])
    from hashed.set_eq_trans [OF H this] show ?thesis
      using a(4,5) set by (simp add: cv_eq_containers)
  next
    case map
    then have t: "hashed.table hash_cv cv_eq (cvs_below n) fst m" "hashed.table hash_cv cv_eq (cvs_below n) fst k"
      "hashed.table hash_cv cv_eq (cvs_below n) fst l"
      using a(1-3) below_elements(3) by (auto simp: table_of [OF H])
    have v: "cv_eq (snd g) (snd f) \<Longrightarrow> cv_eq (snd f) (snd e) \<Longrightarrow> cv_eq (snd g) (snd e)"
      if "e \<in># entries m" "f \<in># entries k" "g \<in># entries l" for e f g
    proof -
      have "snd e \<in> cvs_below n" "snd f \<in> cvs_below n" "snd g \<in> cvs_below n"
        using that a(1-3) map below_elements(4) by blast+
      then show "cv_eq (snd g) (snd f) \<Longrightarrow> cv_eq (snd f) (snd e) \<Longrightarrow> cv_eq (snd g) (snd e)"
        using hashed.trans [OF H] by metis
    qed
    from hashed.map_eq_trans [OF H t, of cv_eq] v show ?thesis
      using a(4,5) map by (simp add: cv_eq_containers hashed.bound_def [OF H])
  qed
qed

lemma hashed_values: "hashed hash_cv cv_eq (cvs_below n)"
proof (induction n)
  case 0
  then show ?case by standard (simp_all add: cvs_below_def)
next
  case (Suc n)
  show ?case
  proof
    fix a b c assume "a \<in> cvs_below (Suc n)" "b \<in> cvs_below (Suc n)"
    then show "cv_eq a b \<Longrightarrow> cv_eq b a" "cv_eq a b \<Longrightarrow> hash_cv a = hash_cv b"
      using cv_eq_symmetric_step [OF Suc] by blast+
    assume "c \<in> cvs_below (Suc n)"
    then show "cv_eq a b \<Longrightarrow> cv_eq b c \<Longrightarrow> cv_eq a c"
      using cv_eq_trans_step [OF Suc] \<open>a \<in> cvs_below (Suc n)\<close> \<open>b \<in> cvs_below (Suc n)\<close> by blast
  qed
qed

text \<open>The contract holds for every value.\<close>

interpretation nested: hashed hash_cv cv_eq "Collect wf_cv"
proof
  fix a b c assume w: "a \<in> Collect wf_cv" "b \<in> Collect wf_cv"
  let ?n = "Suc (size a + size b)"
  have v: "a \<in> cvs_below ?n" "b \<in> cvs_below ?n" using w by (simp_all add: cvs_below_def)
  show "cv_eq a b \<Longrightarrow> cv_eq b a" "cv_eq a b \<Longrightarrow> hash_cv a = hash_cv b"
    using hashed.sym [OF hashed_values v] hashed.compat [OF hashed_values v] by blast+
  assume "c \<in> Collect wf_cv"
  then have "a \<in> cvs_below (?n + size c)" "b \<in> cvs_below (?n + size c)" "c \<in> cvs_below (?n + size c)"
    using w by (simp_all add: cvs_below_def)
  then show "cv_eq a b \<Longrightarrow> cv_eq b c \<Longrightarrow> cv_eq a c" using hashed.trans [OF hashed_values] by blast
qed

section \<open>Properties\<close>

lemma wf_set_table: "wf_cv (CSet s) \<longleftrightarrow> nested.table id s"
  by (auto simp: nested.table_def entries_def)



text \<open>C35 A CQL set is a set. Inserting keeps the table well-formed, and afterwards exactly the old
  elements and those equal to the new one are found: equality and hashing of nested values
  meet the contract of the hash set.\<close>

theorem cql_set_insert:
  assumes "wf_cv (CSet s)" "wf_cv k" "wf_cv k'" "cv_eq k k"
  shows "wf_cv (CSet (set_insert hash_cv cv_eq k s)) \<and>
    (set_contains hash_cv cv_eq (set_insert hash_cv cv_eq k s) k' \<longleftrightarrow>
      cv_eq k k' \<or> set_contains hash_cv cv_eq s k')"
  using assms nested.set_insert_contains [of s k k'] nested.set_insert_table [of s k]
  by (simp only: wf_set_table mem_Collect_eq simp_thms)

theorem cql_set_insert_witness:
  "set_contains hash_cv cv_eq (set_insert hash_cv cv_eq (CU8 1) []) (CU8 1)"
proof -
  have "wf_cv (CSet [])" by (simp add: placed_def apart_def entries_def)
  then show ?thesis using cql_set_insert [of "[]" "CU8 1" "CU8 1"] by (simp add: cv_eq_basic)
qed

text \<open>C36 A CQL map is a map. After an insertion or a removal exactly the keys equal to the given one
  are looked up differently.\<close>

theorem cql_map_updates:
  assumes "nested.table fst m" "wf_cv k" "wf_cv k'" "cv_eq k k"
  shows "map_find hash_cv cv_eq (map_insert hash_cv cv_eq k v m) k' =
      (if cv_eq k k' then Some v else map_find hash_cv cv_eq m k') \<and>
    map_find hash_cv cv_eq (map_remove hash_cv cv_eq k m) k' =
      (if cv_eq k k' then None else map_find hash_cv cv_eq m k')"
  using assms nested.map_find_insert [of m k k' v] nested.map_find_remove [of m k k'] by simp

theorem cql_map_updates_witness:
  "map_find hash_cv cv_eq (map_insert hash_cv cv_eq (CU8 1) (CU8 2) []) (CU8 1) = Some (CU8 2)"
proof -
  have "nested.table fst []" by (rule nested.table_Nil)
  then show ?thesis using cql_map_updates [of "[]" "CU8 1" "CU8 1" "CU8 2"] by (simp add: cv_eq_basic)
qed

end
