(* ===== verification/NestedCodec.thy ===== *)
theory NestedCodec
  imports Codec CqlHash
begin

text \<open>
  The storage encoding of rows and of values of every column type (\<open>cql/engine/io.codec.cpp\<close>):
  row and cell metadata, column masks, and the nested values of lists, sets, maps, vectors,
  tuples and user-defined types.

  A writer that traps is \<open>None\<close>. Functions on a type return the reader or writer of that type, so
  that the recursion is on the type alone.
\<close>

section \<open>Row and cell metadata\<close>

record row_metadata =
  row_flags :: u8
  row_expiry :: u64

record cell_metadata =
  cell_flags :: u8
  cell_expiry :: u64
  writetime :: u64

definition row_has_ttl :: "row_metadata \<Rightarrow> bool" where
  "row_has_ttl m \<longleftrightarrow> row_flags m AND 1 \<noteq> 0"

definition cell_has_ttl :: "u8 \<Rightarrow> bool" where
  "cell_has_ttl flags \<longleftrightarrow> flags AND 1 \<noteq> 0"

definition cell_has_writetime :: "u8 \<Rightarrow> bool" where
  "cell_has_writetime flags \<longleftrightarrow> flags AND 2 \<noteq> 0"

definition write_row_metadata :: "row_metadata \<Rightarrow> bytes" where
  "write_row_metadata m = put_word (row_flags m) @ put_word (row_expiry m)"

definition read_row_metadata :: "bytes \<Rightarrow> (row_metadata \<times> bytes) option" where
  "read_row_metadata bs = do {
     (f, bs) \<leftarrow> rd_u8 bs;
     (e, bs) \<leftarrow> rd_u64 bs;
     Some (\<lparr>row_flags = f, row_expiry = e\<rparr>, bs)
   }"

definition write_cell_metadata :: "cell_metadata \<Rightarrow> bytes" where
  "write_cell_metadata m =
     put_word (cell_flags m)
     @ (if cell_has_ttl (cell_flags m) then put_word (cell_expiry m) else [])
     @ (if cell_has_writetime (cell_flags m) then put_word (writetime m) else [])"

definition read_cell_metadata :: "bytes \<Rightarrow> (cell_metadata \<times> bytes) option" where
  "read_cell_metadata bs = do {
     (f, bs) \<leftarrow> rd_u8 bs;
     (e, bs) \<leftarrow> if cell_has_ttl f then rd_u64 bs else Some (0, bs);
     (t, bs) \<leftarrow> if cell_has_writetime f then rd_u64 bs else Some (0, bs);
     Some (\<lparr>cell_flags = f, cell_expiry = e, writetime = t\<rparr>, bs)
   }"

definition skip_cell_metadata :: "u8 \<Rightarrow> bytes \<Rightarrow> bytes option" where
  "skip_cell_metadata flags bs =
     (let to_skip = (if cell_has_ttl flags then 8 else 0) + (if cell_has_writetime flags then 8 else 0)
      in if to_skip > 0 then skip to_skip bs else Some bs)"

section \<open>Masks\<close>

text \<open>The words of a mask, written whenever 64 columns are through and once more for the rest.\<close>

fun mask_loop :: "(nat \<Rightarrow> bool) \<Rightarrow> nat list \<Rightarrow> u64 \<Rightarrow> bytes \<times> u64" where
  "mask_loop is_set [] m = ([], m)"
| "mask_loop is_set (idx # idxs) m =
     (let m = m OR push_bit (idx mod 64) (if is_set idx then 1 else 0)
      in if idx mod 64 = 63 then let (out, rest) = mask_loop is_set idxs 0 in (put_word m @ out, rest)
         else mask_loop is_set idxs m)"

definition write_mask_bits :: "(nat \<Rightarrow> bool) \<Rightarrow> nat \<Rightarrow> bytes" where
  "write_mask_bits is_set column_count =
     (let (out, m) = mask_loop is_set [0..<column_count] 0
      in out @ (if column_count mod 64 \<noteq> 0 then put_word m else []))"

definition write_column_mask :: "(nat \<Rightarrow> bool) \<Rightarrow> nat \<Rightarrow> bytes" where
  "write_column_mask is_active column_count =
     put_word (word_of_nat column_count :: u64) @ write_mask_bits is_active column_count"

fun read_n :: "(bytes \<Rightarrow> ('a \<times> bytes) option) \<Rightarrow> nat \<Rightarrow> bytes \<Rightarrow> ('a list \<times> bytes) option" where
  "read_n r 0 bs = Some ([], bs)"
| "read_n r (Suc n) bs = do { (x, bs) \<leftarrow> r bs; (xs, bs) \<leftarrow> read_n r n bs; Some (x # xs, bs) }"

fun skip_n :: "(bytes \<Rightarrow> bytes option) \<Rightarrow> nat \<Rightarrow> bytes \<Rightarrow> bytes option" where
  "skip_n r 0 bs = Some bs"
| "skip_n r (Suc n) bs = do { bs \<leftarrow> r bs; skip_n r n bs }"

definition mask_words :: "nat \<Rightarrow> nat" where
  "mask_words n = (n + 63) div 64"

definition read_mask :: "nat \<Rightarrow> bytes \<Rightarrow> (u64 list \<times> bytes) option" where
  "read_mask n bs = read_n rd_u64 (mask_words n) bs"

definition mask_bit :: "u64 list \<Rightarrow> nat \<Rightarrow> bool" where
  "mask_bit ms i \<longleftrightarrow> length ms > 0 \<and> drop_bit (i mod 64) (ms ! (i div 64)) AND 1 \<noteq> 0"

section \<open>Masked payloads\<close>

fun read_fields :: "(bool \<times> (bytes \<Rightarrow> (cv \<times> bytes) option)) list \<Rightarrow> bytes \<Rightarrow> (cv list \<times> bytes) option" where
  "read_fields [] bs = Some ([], bs)"
| "read_fields ((b, r) # fs) bs = do {
     (v, bs) \<leftarrow> if b then r bs else Some (CNull, bs);
     (vs, bs) \<leftarrow> read_fields fs bs;
     Some (v # vs, bs)
   }"

fun skip_fields :: "(bool \<times> (bytes \<Rightarrow> bytes option)) list \<Rightarrow> bytes \<Rightarrow> bytes option" where
  "skip_fields [] bs = Some bs"
| "skip_fields ((b, r) # fs) bs = do { bs \<leftarrow> if b then r bs else Some bs; skip_fields fs bs }"

definition masked :: "u64 list \<Rightarrow> 'r list \<Rightarrow> nat \<Rightarrow> (bool \<times> 'r) list" where
  "masked ms rs n = map (\<lambda>i. (mask_bit ms i, rs ! i)) [0..<n]"

definition read_masked_payloads ::
  "(bytes \<Rightarrow> (cv \<times> bytes) option) list \<Rightarrow> nat \<Rightarrow> bytes \<Rightarrow> (cv list \<times> bytes) option" where
  "read_masked_payloads rs n bs = do {
     (ms, bs) \<leftarrow> read_mask n bs;
     read_fields (masked ms rs n) bs
   }"

definition skip_masked_payloads :: "(bytes \<Rightarrow> bytes option) list \<Rightarrow> nat \<Rightarrow> bytes \<Rightarrow> bytes option" where
  "skip_masked_payloads rs n bs = do {
     (ms, bs) \<leftarrow> read_mask n bs;
     skip_fields (masked ms rs n) bs
   }"

definition write_empty_mask :: "nat \<Rightarrow> bytes" where
  "write_empty_mask n = concat (replicate (mask_words n) (put_word (0 :: u64)))"

definition null_mask :: "cv list \<Rightarrow> nat \<Rightarrow> u64 list" where
  "null_mask vs n =
     fold (\<lambda>i ms. if vs ! i \<noteq> CNull then ms[i div 64 := ms ! (i div 64) OR push_bit (i mod 64) 1] else ms)
       [0..<min (length vs) n] (replicate (mask_words n) 0)"

definition write_masked_payloads :: "(cv \<Rightarrow> bytes option) list \<Rightarrow> cv list \<Rightarrow> nat \<Rightarrow> bytes option" where
  "write_masked_payloads ws vs n = do {
     let ms = null_mask vs n;
     payloads \<leftarrow> map_opt (\<lambda>i. if mask_bit ms i then (ws ! i) (vs ! i) else Some []) [0..<min (length vs) n];
     Some (concat (map put_word ms) @ concat payloads)
   }"

text \<open>User-defined types: the number of fields written comes first, the fields added since are null.\<close>

definition read_udt_fields :: "(bytes \<Rightarrow> (cv \<times> bytes) option) list \<Rightarrow> bytes \<Rightarrow> (cv list \<times> bytes) option" where
  "read_udt_fields rs bs = do {
     (written, bs) \<leftarrow> rd_u64 bs;
     assert_true (unat written \<le> length rs);
     (vs, bs) \<leftarrow> read_masked_payloads rs (unat written) bs;
     Some (vs @ replicate (length rs - unat written) CNull, bs)
   }"

definition skip_udt_fields :: "(bytes \<Rightarrow> bytes option) list \<Rightarrow> bytes \<Rightarrow> bytes option" where
  "skip_udt_fields rs bs = do {
     (written, bs) \<leftarrow> rd_u64 bs;
     assert_true (unat written \<le> length rs);
     skip_masked_payloads rs (unat written) bs
   }"

section \<open>Values of every type\<close>

definition counted :: "(cv list \<Rightarrow> cv) \<Rightarrow> (bytes \<Rightarrow> (cv \<times> bytes) option) \<Rightarrow> nat \<Rightarrow> bytes \<Rightarrow> (cv \<times> bytes) option" where
  "counted c r n bs = do { (vs, bs) \<leftarrow> read_n r n bs; Some (c vs, bs) }"

definition set_of_list :: "cv list \<Rightarrow> cv" where
  "set_of_list vs = CSet (fold (set_insert hash_cv cv_eq) vs [])"

definition map_of_list :: "(cv \<times> cv) list \<Rightarrow> cv" where
  "map_of_list es = CMap (fold (\<lambda>(k, v). map_insert hash_cv cv_eq k v) es [])"

definition read_pair ::
  "(bytes \<Rightarrow> (cv \<times> bytes) option) \<Rightarrow> (bytes \<Rightarrow> (cv \<times> bytes) option) \<Rightarrow> bytes \<Rightarrow> ((cv \<times> cv) \<times> bytes) option" where
  "read_pair rk rv bs = do { (k, bs) \<leftarrow> rk bs; (v, bs) \<leftarrow> rv bs; Some ((k, v), bs) }"

fun read_value :: "ctype \<Rightarrow> bytes \<Rightarrow> (cv \<times> bytes) option" where
  "read_value (TBasic b) = read_basic b"
| "read_value (TList e _) = (\<lambda>bs. do { (n, bs) \<leftarrow> rd_u64 bs; counted CArray (read_value e) (unat n) bs })"
| "read_value (TSet e _) = (\<lambda>bs. do { (n, bs) \<leftarrow> rd_u64 bs; counted set_of_list (read_value e) (unat n) bs })"
| "read_value (TMap k v _) = (\<lambda>bs. do {
     (n, bs) \<leftarrow> rd_u64 bs;
     (es, bs) \<leftarrow> read_n (read_pair (read_value k) (read_value v)) (unat n) bs;
     Some (map_of_list es, bs)
   })"
| "read_value (TVector e n _) = counted CArray (read_value e) (unat n)"
| "read_value (TTuple ts _) = (\<lambda>bs. do {
     (vs, bs) \<leftarrow> read_masked_payloads (map read_value ts) (length ts) bs;
     Some (CArray vs, bs)
   })"
| "read_value (TUdt _ _ _ ts) = (\<lambda>bs. do {
     (vs, bs) \<leftarrow> read_udt_fields (map read_value ts) bs;
     Some (CArray vs, bs)
   })"

fun skip_value :: "ctype \<Rightarrow> bytes \<Rightarrow> bytes option" where
  "skip_value (TBasic b) = skip_basic b"
| "skip_value (TList e _) = (\<lambda>bs. do { (n, bs) \<leftarrow> rd_u64 bs; skip_n (skip_value e) (unat n) bs })"
| "skip_value (TSet e _) = (\<lambda>bs. do { (n, bs) \<leftarrow> rd_u64 bs; skip_n (skip_value e) (unat n) bs })"
| "skip_value (TMap k v _) = (\<lambda>bs. do {
     (n, bs) \<leftarrow> rd_u64 bs;
     skip_n (\<lambda>bs. do { bs \<leftarrow> skip_value k bs; skip_value v bs }) (unat n) bs
   })"
| "skip_value (TVector e n _) = skip_n (skip_value e) (unat n)"
| "skip_value (TTuple ts _) = skip_masked_payloads (map skip_value ts) (length ts)"
| "skip_value (TUdt _ _ _ ts) = skip_udt_fields (map skip_value ts)"

definition write_default_value :: "ctype \<Rightarrow> bytes" where
  "write_default_value t = (case t of
       TBasic b \<Rightarrow> write_default_basic b
     | TTuple ts _ \<Rightarrow> write_empty_mask (length ts)
     | TUdt _ _ _ ts \<Rightarrow> put_word (word_of_nat (length ts) :: u64) @ write_empty_mask (length ts)
     | _ \<Rightarrow> put_word (0 :: u64))"

definition can_write_value :: "cv \<Rightarrow> ctype \<Rightarrow> bool" where
  "can_write_value v t = (case v of
       CArray _ \<Rightarrow> (case t of TList _ _ \<Rightarrow> True | TVector _ _ _ \<Rightarrow> True | TTuple _ _ \<Rightarrow> True
                     | TUdt _ _ _ _ \<Rightarrow> True | _ \<Rightarrow> False)
     | CSet _ \<Rightarrow> (case t of TSet _ _ \<Rightarrow> True | _ \<Rightarrow> False)
     | CMap _ \<Rightarrow> (case t of TMap _ _ _ \<Rightarrow> True | _ \<Rightarrow> False)
     | CNull \<Rightarrow> True
     | _ \<Rightarrow> (case t of TBasic b \<Rightarrow> can_write_basic v b | _ \<Rightarrow> False))"

definition put_length :: "'a list \<Rightarrow> bytes" where
  "put_length xs = put_word (word_of_nat (length xs) :: u64)"

definition write_all :: "(cv \<Rightarrow> bytes option) \<Rightarrow> cv list \<Rightarrow> bytes option" where
  "write_all w vs = map_option concat (map_opt w vs)"

text \<open>The writer of a type, behind the check; a null writes nothing whatever the type.\<close>

definition checked :: "ctype \<Rightarrow> (cv \<Rightarrow> bytes option) \<Rightarrow> cv \<Rightarrow> bytes option" where
  "checked t w v = do { assert_true (can_write_value v t); if v = CNull then Some [] else w v }"

fun write_value :: "ctype \<Rightarrow> cv \<Rightarrow> bytes option" where
  "write_value (TBasic b) = checked (TBasic b) (\<lambda>v. Some (write_typed_basic v))"
| "write_value (TList e f) = checked (TList e f) (\<lambda>v. case v of
     CArray vs \<Rightarrow> map_option ((@) (put_length vs)) (write_all (write_value e) vs) | _ \<Rightarrow> None)"
| "write_value (TVector e n f) = checked (TVector e n f) (\<lambda>v. case v of
     CArray vs \<Rightarrow> write_all (write_value e) vs | _ \<Rightarrow> None)"
| "write_value (TSet e f) = checked (TSet e f) (\<lambda>v. case v of
     CSet s \<Rightarrow> map_option ((@) (put_length (concat s))) (write_all (write_value e) (concat s)) | _ \<Rightarrow> None)"
| "write_value (TMap k w f) = checked (TMap k w f) (\<lambda>v. case v of
     CMap m \<Rightarrow> do {
       out \<leftarrow> map_opt (\<lambda>e. do { a \<leftarrow> write_value k (fst e); b \<leftarrow> write_value w (snd e); Some (a @ b) }) (concat m);
       Some (put_length (concat m) @ concat out)
     } | _ \<Rightarrow> None)"
| "write_value (TTuple ts f) = checked (TTuple ts f) (\<lambda>v. case v of
     CArray vs \<Rightarrow> write_masked_payloads (map write_value ts) vs (length ts) | _ \<Rightarrow> None)"
| "write_value (TUdt ks n ns ts) = checked (TUdt ks n ns ts) (\<lambda>v. case v of
     CArray vs \<Rightarrow> map_option ((@) (put_length ts)) (write_masked_payloads (map write_value ts) vs (length ts))
   | _ \<Rightarrow> None)"

section \<open>Reading a list of things back\<close>

lemma read_n_concat:
  assumes "list_all2 (\<lambda>x w. \<forall>bs. r (w @ bs) = Some (x, bs)) xs ws"
  shows "read_n r (length ws) (concat ws @ bs) = Some (xs, bs)"
  using assms by (induction xs ws rule: list_all2_induct) auto

lemma read_n_words: "read_n rd_u64 (length ws) (concat (map put_word ws) @ bs) = Some (ws, bs)"
proof -
  have "list_all2 (\<lambda>x w. \<forall>bs. rd_u64 (w @ bs) = Some (x, bs)) ws (map put_word ws)"
    by (simp add: list_all2_conv_all_nth)
  from read_n_concat [OF this] show ?thesis by simp
qed

section \<open>Masks read back\<close>

definition mask_step :: "(nat \<Rightarrow> bool) \<Rightarrow> nat \<Rightarrow> u64 \<Rightarrow> u64" where
  "mask_step f i m = m OR push_bit (i mod 64) (if f i then 1 else 0)"

definition mask_chunk :: "(nat \<Rightarrow> bool) \<Rightarrow> nat \<Rightarrow> nat \<Rightarrow> u64" where
  "mask_chunk f i j = fold (mask_step f) [i..<j] 0"

lemma mod_chunk: "64 * k \<le> x \<Longrightarrow> x < 64 * k + 64 \<Longrightarrow> x mod 64 = x - 64 * k" for x :: nat
  by (auto simp: le_iff_add)

lemma bit_push_word: "bit (push_bit n 1 :: u64) b \<longleftrightarrow> n < 64 \<and> b = n"
  by (auto simp: bit_simps)

lemma bit_mask_chunk:
  "i \<le> j \<Longrightarrow> i mod 64 = 0 \<Longrightarrow> j \<le> i + 64 \<Longrightarrow> bit (mask_chunk f i j) b \<longleftrightarrow> i + b < j \<and> f (i + b)"
proof (induction j rule: dec_induct)
  case base
  then show ?case by (simp add: mask_chunk_def)
next
  case (step j)
  have m: "j mod 64 = j - i"
    using mod_chunk [of "i div 64" j] step.hyps step.prems mod_div_mult_eq [of i 64] by simp
  have "mask_chunk f i (Suc j) = mask_step f j (mask_chunk f i j)"
    using step.hyps by (simp add: mask_chunk_def)
  moreover have "bit (mask_chunk f i j) b \<longleftrightarrow> i + b < j \<and> f (i + b)"
    using step by simp
  moreover have "bit (push_bit (j mod 64) (if f j then 1 else 0) :: u64) b \<longleftrightarrow> f j \<and> i + b = j"
  proof (cases "f j")
    case True
    then show ?thesis using step.hyps step.prems by (auto simp: bit_push_word m simp del: push_bit_of_1)
  qed simp
  ultimately show ?case by (auto simp: mask_step_def bit_or_iff less_Suc_eq)
qed

lemma mask_loop_chunk:
  "(\<forall>x \<in> set xs. x mod 64 \<noteq> 63) \<Longrightarrow> mask_loop f xs m = ([], fold (mask_step f) xs m)"
  "(\<forall>x \<in> set xs. x mod 64 \<noteq> 63) \<Longrightarrow> y mod 64 = 63 \<Longrightarrow> mask_loop f (xs @ y # ys) m =
    (put_word (mask_step f y (fold (mask_step f) xs m)) @ fst (mask_loop f ys 0), snd (mask_loop f ys 0))"
  by (induction xs arbitrary: m) (auto simp: mask_step_def Let_def split_def)

lemma mask_loop_words:
  assumes "r < 64"
  shows "mask_loop f [64 * k..<64 * (k + d) + r] 0 =
    (concat (map (\<lambda>k. put_word (mask_chunk f (64 * k) (64 * k + 64))) [k..<k + d]),
     mask_chunk f (64 * (k + d)) (64 * (k + d) + r))"
proof (induction d arbitrary: k)
  case 0
  have "\<forall>x \<in> set [64 * k..<64 * k + r]. x mod 64 \<noteq> 63" using assms by (auto simp: mod_chunk)
  from mask_loop_chunk(1) [OF this] show ?case by (simp add: mask_chunk_def)
next
  case (Suc d)
  have "[64 * k..<64 * (k + Suc d) + r] = [64 * k..<64 * k + 63] @ [64 * k + 63..<64 * (k + Suc d) + r]"
    using upt_add_eq_append [of "64 * k" "64 * k + 63" "64 * d + r + 1"] by (simp add: algebra_simps)
  also have "[64 * k + 63..<64 * (k + Suc d) + r] = (64 * k + 63) # [64 * Suc k..<64 * (Suc k + d) + r]"
    by (simp add: upt_conv_Cons)
  finally have split: "[64 * k..<64 * (k + Suc d) + r] =
    [64 * k..<64 * k + 63] @ (64 * k + 63) # [64 * Suc k..<64 * (Suc k + d) + r]" .
  have no: "\<forall>x \<in> set [64 * k..<64 * k + 63]. x mod 64 \<noteq> 63" by (auto simp: mod_chunk)
  have last: "mask_step f (64 * k + 63) (fold (mask_step f) [64 * k..<64 * k + 63] 0) =
      mask_chunk f (64 * k) (64 * k + 64)"
    proof -
    have "[64 * k..<Suc (64 * k + 63)] = [64 * k..<64 * k + 63] @ [64 * k + 63]"
      by (rule upt_Suc_append) simp
    moreover have "Suc (64 * k + 63) = 64 * k + 64" by simp
    ultimately show ?thesis by (simp only: mask_chunk_def) simp
  qed
  have y: "(64 * k + 63) mod 64 = 63" by (simp add: mod_chunk)
  have upt: "[k..<k + Suc d] = k # [Suc k..<Suc k + d]" by (simp add: upt_conv_Cons)
  show ?case
    unfolding split mask_loop_chunk(2) [OF no y] Suc.IH [of "Suc k"] last upt by (simp add: add.assoc)
qed

text \<open>The words written for \<open>n\<close> columns.\<close>

definition mask_of :: "(nat \<Rightarrow> bool) \<Rightarrow> nat \<Rightarrow> u64 list" where
  "mask_of f n = map (\<lambda>k. mask_chunk f (64 * k) (min n (64 * k + 64))) [0..<mask_words n]"

lemma mask_words_split: "mask_words n = n div 64 + (if n mod 64 = 0 then 0 else 1)"
proof -
  have "n + 63 = n mod 64 + 63 + 64 * (n div 64)" using mult_div_mod_eq [of 64 n] by linarith
  then have "(n + 63) div 64 = n div 64 + (n mod 64 + 63) div 64"
    using div_mult_self2 [of 64 "n mod 64 + 63" "n div 64"] by simp
  moreover have "(r + 63) div 64 = (if r = 0 then 0 else 1)" if "r < 64" for r :: nat
    using that by (auto intro!: div_nat_eqI)
  ultimately show ?thesis by (simp add: mask_words_def)
qed

lemma length_mask_of [simp]: "length (mask_of f n) = mask_words n"
  by (simp add: mask_of_def)

lemma write_mask_bits_words: "write_mask_bits f n = concat (map put_word (mask_of f n))"
proof -
  have n: "64 * (0 + n div 64) + n mod 64 = n" by (simp only: add_0 mult_div_mod_eq)
  have loop: "mask_loop f [0..<n] 0 =
    (concat (map (\<lambda>k. put_word (mask_chunk f (64 * k) (64 * k + 64))) [0..<n div 64]), mask_chunk f (64 * (n div 64)) n)"
    using mask_loop_words [of "n mod 64" f 0 "n div 64"] unfolding n by (simp only: mult_0_right add_0)
  moreover have "map (\<lambda>k. put_word (mask_chunk f (64 * k) (64 * k + 64))) [0..<n div 64] =
      map (\<lambda>k. put_word (mask_chunk f (64 * k) (min n (64 * k + 64)))) [0..<n div 64]" (is "?chunks")
  proof (rule map_cong [OF refl])
    fix k assume "k \<in> set [0..<n div 64]"
    then have "64 * k + 64 \<le> n" by simp
    then show "put_word (mask_chunk f (64 * k) (64 * k + 64)) = put_word (mask_chunk f (64 * k) (min n (64 * k + 64)))"
      by (simp add: min_absorb2)
  qed
  moreover have "min n (64 * (n div 64) + 64) = n"
    using mod_less_divisor [of 64 n] mult_div_mod_eq [of 64 n] by linarith
  ultimately show ?thesis
    by (simp add: write_mask_bits_def mask_of_def mask_words_split o_def)
qed

lemma and_1_bit: "drop_bit n w AND 1 \<noteq> 0 \<longleftrightarrow> bit w n" for w :: u64
  by (simp add: bit_iff_odd_drop_bit and_one_eq odd_iff_mod_2_eq_one)

lemma div_mask_words: "i < n \<Longrightarrow> i div 64 < mask_words n"
proof -
  assume "i < n"
  then have "i div 64 \<le> n div 64" by (simp add: div_le_mono)
  moreover have "i div 64 < n div 64 \<or> n mod 64 \<noteq> 0" if "i div 64 = n div 64"
    using that \<open>i < n\<close> mult_div_mod_eq [of 64 n] mult_div_mod_eq [of 64 i] by linarith
  ultimately show ?thesis by (cases "i div 64 = n div 64") (auto simp: mask_words_split)
qed

lemma mask_bit_mask_of: "i < n \<Longrightarrow> mask_bit (mask_of f n) i \<longleftrightarrow> f i"
proof -
  assume i: "i < n"
  have d: "i div 64 < mask_words n" using i by (rule div_mask_words)
  have b: "64 * (i div 64) + i mod 64 = i" by (rule mult_div_mod_eq)
  then have le: "64 * (i div 64) \<le> min n (64 * (i div 64) + 64)" using i by linarith
  have lt: "i < min n (64 * (i div 64) + 64)" using i mod_less_divisor [of 64 i] b by linarith
  have "bit (mask_chunk f (64 * (i div 64)) (min n (64 * (i div 64) + 64))) (i mod 64) \<longleftrightarrow> f i"
    using bit_mask_chunk [OF le, of f "i mod 64"] lt unfolding b by simp
  then show ?thesis using d by (simp add: mask_bit_def mask_of_def and_1_bit)
qed

lemma read_mask_bits [codec]: "read_mask n (write_mask_bits f n @ bs) = Some (mask_of f n, bs)"
  using read_n_words [of "mask_of f n" bs] by (simp add: read_mask_def write_mask_bits_words)

lemma null_mask_inv:
  assumes "j \<le> min (length vs) n"
  shows "length (fold (\<lambda>i ms. if vs ! i \<noteq> CNull then ms[i div 64 := ms ! (i div 64) OR push_bit (i mod 64) 1] else ms)
      [0..<j] (replicate (mask_words n) (0 :: u64))) = mask_words n \<and>
    (\<forall>i < n. bit (fold (\<lambda>i ms. if vs ! i \<noteq> CNull then ms[i div 64 := ms ! (i div 64) OR push_bit (i mod 64) 1] else ms)
      [0..<j] (replicate (mask_words n) (0 :: u64)) ! (i div 64)) (i mod 64) \<longleftrightarrow> i < j \<and> vs ! i \<noteq> CNull)"
  using assms
proof (induction j)
  case 0
  then show ?case by (auto simp: div_mask_words)
next
  case (Suc j)
  define ms where "ms = fold (\<lambda>i ms. if vs ! i \<noteq> CNull then ms[i div 64 := ms ! (i div 64) OR push_bit (i mod 64) 1] else ms)
      [0..<j] (replicate (mask_words n) (0 :: u64))"
  have IH: "length ms = mask_words n" "\<And>i. i < n \<Longrightarrow> bit (ms ! (i div 64)) (i mod 64) \<longleftrightarrow> i < j \<and> vs ! i \<noteq> CNull"
    using Suc by (auto simp: ms_def)
  have j: "j div 64 < mask_words n" using Suc.prems by (intro div_mask_words) simp
  have same: "i = j" if "i div 64 = j div 64" "i mod 64 = j mod 64" for i
    using that mult_div_mod_eq [of 64 i] mult_div_mod_eq [of 64 j] by metis
  have "bit ((ms[j div 64 := ms ! (j div 64) OR push_bit (j mod 64) 1]) ! (i div 64)) (i mod 64) \<longleftrightarrow>
      i = j \<or> bit (ms ! (i div 64)) (i mod 64)" for i
    using j IH(1) same [of i]
    by (cases "i div 64 = j div 64") (auto simp: bit_or_iff bit_push_word nth_list_update simp del: push_bit_of_1)
  then show ?case using IH by (auto simp flip: ms_def simp: less_Suc_eq)
qed

lemma length_null_mask [simp]: "length (null_mask vs n) = mask_words n"
  using null_mask_inv [OF order_refl] by (simp add: null_mask_def)

lemma mask_bit_null_mask: "i < n \<Longrightarrow> mask_bit (null_mask vs n) i \<longleftrightarrow> i < length vs \<and> vs ! i \<noteq> CNull"
proof -
  assume i: "i < n"
  have "length (null_mask vs n) > 0" using div_mask_words [OF i] by simp
  then show ?thesis
    using i null_mask_inv [OF order_refl, of vs n] by (auto simp: mask_bit_def and_1_bit null_mask_def)
qed

section \<open>Metadata read back\<close>

lemma read_row_metadata [codec]: "read_row_metadata (write_row_metadata m @ bs) = Some (m, bs)"
  by (simp add: read_row_metadata_def write_row_metadata_def)

text \<open>What the flags do not announce is not stored.\<close>

definition stored_metadata :: "cell_metadata \<Rightarrow> cell_metadata" where
  "stored_metadata m = m\<lparr>
     cell_expiry := if cell_has_ttl (cell_flags m) then cell_expiry m else 0,
     writetime := if cell_has_writetime (cell_flags m) then writetime m else 0\<rparr>"

lemma read_cell_metadata [codec]:
  "read_cell_metadata (write_cell_metadata m @ bs) = Some (stored_metadata m, bs)"
  by (cases m) (simp add: read_cell_metadata_def write_cell_metadata_def stored_metadata_def)

lemma skip_cell_metadata [codec]:
  "(do { (f, bs) \<leftarrow> rd_u8 (write_cell_metadata m @ bs); skip_cell_metadata f bs }) = Some bs"
  by (auto simp: skip_cell_metadata_def write_cell_metadata_def skip_def rd_def)

section \<open>Skipping is reading without the value\<close>

definition skips :: "(bytes \<Rightarrow> ('a \<times> bytes) option) \<Rightarrow> (bytes \<Rightarrow> bytes option) \<Rightarrow> bool" where
  "skips r s \<longleftrightarrow> (\<forall>bs. s bs = map_option snd (r bs))"

lemma skips_n: "skips r s \<Longrightarrow> skip_n s n bs = map_option snd (read_n r n bs)"
  by (induction n arbitrary: bs) (auto simp: skips_def map_option_case split: Option.bind_splits option.splits prod.splits)

lemma skips_pair:
  "skips rk sk \<Longrightarrow> skips rv sv \<Longrightarrow> skips (read_pair rk rv) (\<lambda>bs. do { bs \<leftarrow> sk bs; sv bs })"
  by (auto simp: skips_def read_pair_def map_option_case split: Option.bind_splits option.splits prod.splits)

lemma skips_fields:
  "\<forall>i \<in> set is. skips (r i) (s i) \<Longrightarrow>
    skip_fields (map (\<lambda>i. (m i, s i)) is) bs = map_option snd (read_fields (map (\<lambda>i. (m i, r i)) is) bs)"
  by (induction "is" arbitrary: bs) (auto simp: skips_def map_option_case split: Option.bind_splits option.splits prod.splits)

lemma skips_masked:
  assumes "\<forall>i < n. skips (rs ! i) (ss ! i)"
  shows "skip_masked_payloads ss n bs = map_option snd (read_masked_payloads rs n bs)"
proof -
  have "skip_fields (masked ms ss n) bs = map_option snd (read_fields (masked ms rs n) bs)" for ms bs
    unfolding masked_def by (rule skips_fields) (use assms in simp)
  then show ?thesis
    by (auto simp: skip_masked_payloads_def read_masked_payloads_def map_option_case split: Option.bind_splits option.splits prod.splits)
qed

lemma skips_udt:
  assumes "\<forall>i < length rs. skips (rs ! i) (ss ! i)" "length ss = length rs"
  shows "skip_udt_fields ss bs = map_option snd (read_udt_fields rs bs)"
proof -
  have "skip_masked_payloads ss n bs = map_option snd (read_masked_payloads rs n bs)" if "n \<le> length rs" for n bs
    using assms that by (intro skips_masked) auto
  then show ?thesis
    using assms(2) by (auto simp: skip_udt_fields_def read_udt_fields_def map_option_case
        split: Option.bind_splits option.splits prod.splits if_splits)
qed

lemma skip_value_reads: "skips (read_value t) (skip_value t)"
proof (induction t)
  case (TBasic b)
  then show ?case by (simp add: skips_def skip_basic_reads)
next
  case (TTuple ts f)
  then show ?case using skips_masked [of "length ts" "map read_value ts" "map skip_value ts"]
    by (auto simp: skips_def map_option_case split: Option.bind_splits option.splits prod.splits)
next
  case (TUdt ks n ns ts)
  then have "skip_udt_fields (map skip_value ts) bs = map_option snd (read_udt_fields (map read_value ts) bs)" for bs
    by (intro skips_udt) auto
  then show ?case by (auto simp: skips_def map_option_case split: Option.bind_splits option.splits prod.splits)
next
  case (TMap k v f)
  show ?case
    unfolding skips_def
    by (auto simp: skips_n [OF skips_pair [OF TMap.IH]] map_option_case
        split: Option.bind_splits option.splits prod.splits)
next
  case (TList e f)
  show ?case
    unfolding skips_def
    by (auto simp: skips_n [OF TList.IH] counted_def map_option_case
        split: Option.bind_splits option.splits prod.splits)
next
  case (TSet e f)
  show ?case
    unfolding skips_def
    by (auto simp: skips_n [OF TSet.IH] counted_def map_option_case
        split: Option.bind_splits option.splits prod.splits)
next
  case (TVector e n f)
  show ?case
    unfolding skips_def
    by (auto simp: skips_n [OF TVector.IH] counted_def map_option_case
        split: Option.bind_splits option.splits prod.splits)
qed

section \<open>Values that survive a write and a read\<close>

text \<open>
  A value fits a type when the writer stores every part of it: no null inside a list, vector, set
  or map, as many elements as a vector or tuple has, lengths below \<open>2 ^ 64\<close>, no NaN (which equals
  nothing, itself included).
\<close>

definition fields_fit :: "(cv \<Rightarrow> bool) list \<Rightarrow> cv list \<Rightarrow> bool" where
  "fields_fit ps vs \<longleftrightarrow> length vs < 2 ^ 64 \<and> list_all2 (\<lambda>p v. v = CNull \<or> p v) ps vs"

fun fits :: "ctype \<Rightarrow> cv \<Rightarrow> bool" where
  "fits (TBasic b) = (\<lambda>v. wf_basic v \<and> exact v b \<and> basic_eq v v)"
| "fits (TList e _) = (\<lambda>v. case v of CArray vs \<Rightarrow> length vs < 2 ^ 64 \<and> list_all (fits e) vs | _ \<Rightarrow> False)"
| "fits (TVector e n _) = (\<lambda>v. case v of CArray vs \<Rightarrow> length vs = unat n \<and> list_all (fits e) vs | _ \<Rightarrow> False)"
| "fits (TSet e _) = (\<lambda>v. case v of
     CSet s \<Rightarrow> length (concat s) < 2 ^ 64 \<and> list_all (fits e) (concat s) | _ \<Rightarrow> False)"
| "fits (TMap k w _) = (\<lambda>v. case v of
     CMap m \<Rightarrow> length (concat m) < 2 ^ 64 \<and> list_all (\<lambda>e. fits k (fst e) \<and> fits w (snd e)) (concat m) | _ \<Rightarrow> False)"
| "fits (TTuple ts _) = (\<lambda>v. case v of CArray vs \<Rightarrow> fields_fit (map fits ts) vs | _ \<Rightarrow> False)"
| "fits (TUdt _ _ _ ts) = (\<lambda>v. case v of CArray vs \<Rightarrow> fields_fit (map fits ts) vs | _ \<Rightarrow> False)"

definition reads_back :: "ctype \<Rightarrow> cv \<Rightarrow> bytes \<Rightarrow> cv \<Rightarrow> bool" where
  "reads_back t v w v' \<longleftrightarrow> write_value t v = Some w \<and> (\<forall>bs. read_value t (w @ bs) = Some (v', bs)) \<and>
     cv_eq v' v \<and> wf_cv v'"

lemma reads_back_choice:
  assumes "\<And>x. x \<in> A \<Longrightarrow> \<exists>w v'. reads_back t x w v'"
  obtains W V where "\<And>x. x \<in> A \<Longrightarrow> reads_back t x (W x) (V x)"
proof -
  have "\<exists>p. reads_back t x (fst p) (snd p)" if "x \<in> A" for x using assms [OF that] by auto
  then obtain P where "\<And>x. x \<in> A \<Longrightarrow> reads_back t x (fst (P x)) (snd (P x))" by metis
  then show thesis by (rule that)
qed

lemma map_opt_total: "\<forall>x \<in> set xs. f x = Some (g x) \<Longrightarrow> map_opt f xs = Some (map g xs)"
  by (induction xs) auto

lemma read_n_map:
  "(\<And>x bs. x \<in> set xs \<Longrightarrow> r (W x @ bs) = Some (V x, bs)) \<Longrightarrow>
    read_n r (length xs) (concat (map W xs) @ bs) = Some (map V xs, bs)"
  by (induction xs arbitrary: bs) auto

lemma read_fields_map:
  "(\<And>i bs. i \<in> set is \<Longrightarrow> if m i then r i (W i @ bs) = Some (V i, bs) else W i = [] \<and> V i = CNull) \<Longrightarrow>
    read_fields (map (\<lambda>i. (m i, r i)) is) (concat (map W is) @ bs) = Some (map V is, bs)"
proof (induction "is" arbitrary: bs)
  case (Cons i "is")
  have "read_fields (map (\<lambda>i. (m i, r i)) is) (concat (map W is) @ bs) = Some (map V is, bs)" for bs
    by (rule Cons.IH) (use Cons.prems in auto)
  then show ?case using Cons.prems [of i] by (auto split: if_splits)
qed simp

lemma all_written:
  assumes "\<And>x. x \<in> set vs \<Longrightarrow> reads_back t x (W x) (V x)"
  shows "write_all (write_value t) vs = Some (concat (map W vs))"
    and "read_n (read_value t) (length vs) (concat (map W vs) @ bs) = Some (map V vs, bs)"
    and "list_all2 cv_eq (map V vs) vs" and "\<forall>x \<in> set (map V vs). wf_cv x"
proof -
  note rb = assms [unfolded reads_back_def]
  show "write_all (write_value t) vs = Some (concat (map W vs))"
    using map_opt_total [of vs "write_value t" W] rb by (simp add: write_all_def)
  show "read_n (read_value t) (length vs) (concat (map W vs) @ bs) = Some (map V vs, bs)"
    using rb by (intro read_n_map) blast
  show "list_all2 cv_eq (map V vs) vs" using rb by (auto simp: list_all2_conv_all_nth)
  show "\<forall>x \<in> set (map V vs). wf_cv x" using rb by auto
qed

lemma read_put_length [codec]:
  "length xs < 2 ^ 64 \<Longrightarrow> rd_u64 (put_length xs @ bs) = Some (word_of_nat (length xs), bs)"
  "length xs < 2 ^ 64 \<Longrightarrow> unat (word_of_nat (length xs) :: u64) = length xs"
  by (simp_all add: put_length_def unat_of_nat)

text \<open>Each kind of value from its parts.\<close>

lemma set_reads_back:
  assumes "wf_cv (CSet s)" "length (concat s) < 2 ^ 64"
    and "\<And>x. x \<in> set (concat s) \<Longrightarrow> reads_back e x (W x) (V x)"
  shows "\<exists>w v'. reads_back (TSet e f) (CSet s) w v'"
proof -
  let ?vs = "map V (concat s)" and ?T = "fold (set_insert hash_cv cv_eq) (map V (concat s)) []"
  note all = all_written [OF assms(3), of "concat s"]
  have tab: "nested.table id s" using assms(1) by (simp only: wf_set_table)
  have "apart cv_eq id (mset (concat s))" using tab by (simp add: nested.table_def entries_def)
  then have "apart cv_eq id (mset ?vs)"
    by (rule nested.apart_image) (use assms(1,3) all(4) in \<open>auto simp: reads_back_def\<close>)
  then have T: "nested.table id ?T" "entries ?T = mset ?vs"
    using nested.fold_set_insert [of "[]" ?vs] all(4) by (auto simp: entries_def)
  have "\<forall>x \<in># entries ?T. set_contains hash_cv cv_eq s x"
  proof
    fix x assume "x \<in># entries ?T"
    then obtain y where y: "y \<in> set (concat s)" "x = V y" by (auto simp: T(2))
    then have "cv_eq x y" "wf_cv x" "wf_cv y" using assms(1) assms(3) [of y] by (auto simp: reads_back_def)
    then show "set_contains hash_cv cv_eq s x"
      using nested.set_contains_iff [OF tab, of x] nested.sym [of x y] y(1) by (auto simp: entries_def)
  qed
  then have "cv_eq (CSet ?T) (CSet s)"
    by (simp add: cv_eq_containers T(2)) (simp add: entries_def)
  moreover have "wf_cv (CSet ?T)" using T(1) by (simp only: wf_set_table)
  moreover have "write_value (TSet e f) (CSet s) = Some (put_length (concat s) @ concat (map W (concat s)))"
    using all(1) by (simp add: checked_def can_write_value_def)
  moreover have "read_value (TSet e f) ((put_length (concat s) @ concat (map W (concat s))) @ bs) = Some (CSet ?T, bs)" for bs
    using all(2) [of bs] by (simp add: read_put_length [OF assms(2)] counted_def set_of_list_def)
  ultimately show ?thesis unfolding reads_back_def by blast
qed

lemma wf_map_table: "wf_cv (CMap m) \<longleftrightarrow> nested.table fst m \<and> (\<forall>e \<in># entries m. wf_cv (snd e))"
  by (auto simp: nested.table_def entries_def)

lemma map_reads_back:
  assumes "wf_cv (CMap m)" "length (concat m) < 2 ^ 64"
    and "\<And>e. e \<in> set (concat m) \<Longrightarrow> reads_back k (fst e) (Wk e) (Vk e) \<and> reads_back w (snd e) (Ww e) (Vw e)"
  shows "\<exists>out v'. reads_back (TMap k w f) (CMap m) out v'"
proof -
  let ?W = "\<lambda>e. Wk e @ Ww e" and ?V = "\<lambda>e. (Vk e, Vw e)"
  let ?es = "map ?V (concat m)" and ?T = "fold (\<lambda>(k, v). map_insert hash_cv cv_eq k v) (map ?V (concat m)) []"
  have tab: "nested.table fst m" using assms(1) unfolding wf_map_table by blast
  have wf: "wf_cv (Vk e)" "wf_cv (Vw e)" "wf_cv (fst e)" "wf_cv (snd e)" "cv_eq (Vk e) (fst e)" "cv_eq (Vw e) (snd e)"
    if "e \<in> set (concat m)" for e
    using assms(1) assms(3) [OF that] that by (auto simp: reads_back_def)
  have "apart cv_eq fst (mset (concat m))" using tab by (simp add: nested.table_def entries_def)
  then have "apart cv_eq fst (mset ?es)"
    by (rule nested.apart_image) (use wf in auto)
  moreover have "fst ` set ?es \<subseteq> Collect wf_cv" using wf(1) by (auto simp del: set_concat)
  ultimately have T: "nested.table fst ?T" "entries ?T = mset ?es"
    using nested.fold_map_insert [of "[]" ?es] by (simp_all add: entries_def)
  have "\<forall>e \<in># entries ?T. \<exists>v. map_find hash_cv cv_eq m (fst e) = Some v \<and> cv_eq v (snd e)"
  proof
    fix e assume "e \<in># entries ?T"
    then obtain x where x: "x \<in> set (concat m)" "e = ?V x" by (auto simp: T(2))
    then have "cv_eq (fst x) (fst e)" "cv_eq (snd x) (snd e)"
      using nested.sym [of "Vk x" "fst x"] nested.sym [of "Vw x" "snd x"] wf [OF x(1)] by simp_all
    then show "\<exists>v. map_find hash_cv cv_eq m (fst e) = Some v \<and> cv_eq v (snd e)"
      using nested.map_find_iff [OF tab, of "fst e"] x wf [OF x(1)]
      by (metis entries_def fst_conv mem_Collect_eq prod.collapse set_mset_mset)
  qed
  then have "cv_eq (CMap ?T) (CMap m)"
    by (simp add: cv_eq_containers T(2)) (simp add: entries_def)
  moreover have "\<forall>e \<in># entries ?T. wf_cv (snd e)" using wf(2) by (auto simp: T(2) simp del: set_concat)
  then have "wf_cv (CMap ?T)" using T(1) unfolding wf_map_table by blast
  moreover have "map_opt (\<lambda>e. do { a \<leftarrow> write_value k (fst e); b \<leftarrow> write_value w (snd e); Some (a @ b) }) (concat m) =
      Some (map ?W (concat m))"
    using assms(3) by (intro map_opt_total) (auto simp: reads_back_def)
  then have "write_value (TMap k w f) (CMap m) = Some (put_length (concat m) @ concat (map ?W (concat m)))"
    by (simp add: checked_def can_write_value_def)
  moreover have "read_n (read_pair (read_value k) (read_value w)) (length (concat m)) (concat (map ?W (concat m)) @ bs) =
      Some (?es, bs)" for bs
    by (rule read_n_map) (use assms(3) in \<open>auto simp: read_pair_def reads_back_def\<close>)
  then have "read_value (TMap k w f) ((put_length (concat m) @ concat (map ?W (concat m))) @ bs) = Some (CMap ?T, bs)" for bs
    by (simp add: read_put_length [OF assms(2)] map_of_list_def)
  ultimately show ?thesis unfolding reads_back_def by blast
qed

text \<open>Masked payloads, written for the fields of \<open>ts\<close> and read by a type that has them first.\<close>

definition field_bytes :: "(nat \<Rightarrow> bytes) \<Rightarrow> cv list \<Rightarrow> nat \<Rightarrow> bytes" where
  "field_bytes W vs i = (if vs ! i = CNull then [] else W i)"

definition field_value :: "(nat \<Rightarrow> cv) \<Rightarrow> cv list \<Rightarrow> nat \<Rightarrow> cv" where
  "field_value V vs i = (if vs ! i = CNull then CNull else V i)"

lemma masked_written:
  assumes "\<And>i. i < length vs \<Longrightarrow> vs ! i \<noteq> CNull \<Longrightarrow> reads_back (ts ! i) (vs ! i) (W i) (V i)"
    and "length ts = length vs"
  shows "write_masked_payloads (map write_value ts) vs (length vs) =
      Some (concat (map put_word (null_mask vs (length vs))) @ concat (map (field_bytes W vs) [0..<length vs]))"
    and "read_masked_payloads (map read_value (ts @ us)) (length vs)
      ((concat (map put_word (null_mask vs (length vs))) @ concat (map (field_bytes W vs) [0..<length vs])) @ bs) =
      Some (map (field_value V vs) [0..<length vs], bs)"
    and "list_all2 cv_eq (map (field_value V vs) [0..<length vs]) vs"
    and "\<forall>x \<in> set (map (field_value V vs) [0..<length vs]). wf_cv x"
proof -
  let ?n = "length vs" and ?m = "null_mask vs (length vs)"
  note rb = assms(1) [unfolded reads_back_def]
  have "map_opt (\<lambda>i. if mask_bit ?m i then (map write_value ts ! i) (vs ! i) else Some []) [0..<?n] =
      Some (map (field_bytes W vs) [0..<?n])"
    by (rule map_opt_total) (use rb assms(2) in \<open>auto simp: mask_bit_null_mask field_bytes_def\<close>)
  then show "write_masked_payloads (map write_value ts) vs ?n =
      Some (concat (map put_word ?m) @ concat (map (field_bytes W vs) [0..<?n]))"
    by (simp add: write_masked_payloads_def)
  have "read_fields (masked ?m (map read_value (ts @ us)) ?n) (concat (map (field_bytes W vs) [0..<?n]) @ bs) =
      Some (map (field_value V vs) [0..<?n], bs)"
    unfolding masked_def
    by (rule read_fields_map)
      (use rb assms(2) in \<open>auto simp: mask_bit_null_mask field_bytes_def field_value_def nth_append\<close>)
  then show "read_masked_payloads (map read_value (ts @ us)) ?n
      ((concat (map put_word ?m) @ concat (map (field_bytes W vs) [0..<?n])) @ bs) =
      Some (map (field_value V vs) [0..<?n], bs)"
    using read_n_words [of ?m] by (simp add: read_masked_payloads_def read_mask_def)
  show "list_all2 cv_eq (map (field_value V vs) [0..<?n]) vs"
    using rb by (auto simp: list_all2_conv_all_nth field_value_def cv_eq_basic)
  show "\<forall>x \<in> set (map (field_value V vs) [0..<?n]). wf_cv x"
    using rb by (auto simp: field_value_def)
qed

lemma fields_choice:
  assumes "fields_fit (map fits ts) vs" "\<forall>x \<in> set vs. wf_cv x"
    and "\<And>t v. t \<in> set ts \<Longrightarrow> wf_cv v \<Longrightarrow> fits t v \<Longrightarrow> \<exists>w v'. reads_back t v w v'"
  obtains W V where "\<And>i. i < length vs \<Longrightarrow> vs ! i \<noteq> CNull \<Longrightarrow> reads_back (ts ! i) (vs ! i) (W i) (V i)"
proof -
  have "\<exists>p. i < length vs \<longrightarrow> vs ! i \<noteq> CNull \<longrightarrow> reads_back (ts ! i) (vs ! i) (fst p) (snd p)" for i
  proof (cases "i < length vs \<and> vs ! i \<noteq> CNull")
    case True
    then have "fits (ts ! i) (vs ! i)" "i < length ts" "wf_cv (vs ! i)"
      using assms(1,2) by (auto simp: fields_fit_def list_all2_conv_all_nth)
    then show ?thesis using assms(3) [of "ts ! i" "vs ! i"] by auto
  qed auto
  then obtain P where "\<And>i. i < length vs \<longrightarrow> vs ! i \<noteq> CNull \<longrightarrow> reads_back (ts ! i) (vs ! i) (fst (P i)) (snd (P i))"
    by metis
  then show thesis using that [of "fst \<circ> P" "snd \<circ> P"] by simp
qed

lemma fits_not_Null: "fits t CNull \<longleftrightarrow> False"
  by (cases t) auto

lemma fields_fit_length: "fields_fit (map fits ts) vs \<Longrightarrow> length ts = length vs \<and> length vs < 2 ^ 64"
  by (auto simp: fields_fit_def dest: list_all2_lengthD)

lemma array_cv_eq: "list_all2 cv_eq xs ys \<Longrightarrow> \<forall>x \<in> set xs. wf_cv x \<Longrightarrow> cv_eq (CArray xs) (CArray ys) \<and> wf_cv (CArray xs)"
  by (simp add: cv_eq_containers)

lemma value_reads_back: "wf_cv v \<Longrightarrow> fits t v \<Longrightarrow> \<exists>w v'. reads_back t v w v'"
proof (induction t arbitrary: v)
  case (TBasic b)
  then have v: "\<not> container v" "v \<noteq> CNull" using exact_is_basic [of v b] by (cases v; auto)+
  have "can_write_value v (TBasic b)"
    using exact_can_write [of v b] TBasic.prems exact_is_basic [of v b] by (cases v) (auto simp: can_write_value_def)
  then have "reads_back (TBasic b) v (write_typed_basic v) v"
    using TBasic.prems v read_write_basic [of v b] cv_eq_basic(1) [OF v(1)]
    by (simp add: reads_back_def checked_def)
  then show ?case by blast
next
  case (TList e f)
  then obtain vs where vs: "v = CArray vs" "length vs < 2 ^ 64" "list_all (fits e) vs" "\<forall>x \<in> set vs. wf_cv x"
    by (auto split: cv.splits)
  obtain W V where "\<And>x. x \<in> set vs \<Longrightarrow> reads_back e x (W x) (V x)"
    by (rule reads_back_choice [of "set vs" e]) (use TList.IH vs in \<open>auto simp: list_all_iff\<close>)
  from all_written [OF this] have "reads_back (TList e f) v (put_length vs @ concat (map W vs)) (CArray (map V vs))"
    using array_cv_eq [of "map V vs" vs] vs(1)
    by (simp add: reads_back_def checked_def can_write_value_def read_put_length [OF vs(2)] counted_def)
  then show ?case by blast
next
  case (TVector e n f)
  then obtain vs where vs: "v = CArray vs" "length vs = unat n" "list_all (fits e) vs" "\<forall>x \<in> set vs. wf_cv x"
    by (auto split: cv.splits)
  obtain W V where "\<And>x. x \<in> set vs \<Longrightarrow> reads_back e x (W x) (V x)"
    by (rule reads_back_choice [of "set vs" e]) (use TVector.IH vs in \<open>auto simp: list_all_iff\<close>)
  from all_written [OF this] have "reads_back (TVector e n f) v (concat (map W vs)) (CArray (map V vs))"
    using array_cv_eq [of "map V vs" vs] vs(1)
    by (simp add: reads_back_def checked_def can_write_value_def counted_def flip: vs(2))
  then show ?case by blast
next
  case (TSet e f)
  then obtain s where s: "v = CSet s" "length (concat s) < 2 ^ 64" "list_all (fits e) (concat s)" "\<forall>x \<in> set (concat s). wf_cv x"
    by (auto split: cv.splits)
  obtain W V where "\<And>x. x \<in> set (concat s) \<Longrightarrow> reads_back e x (W x) (V x)"
    by (rule reads_back_choice [of "set (concat s)" e]) (use TSet.IH s in \<open>auto simp: list_all_iff\<close>)
  then show ?case using set_reads_back [of s e W V f] TSet.prems(1) s(1,2) by blast
next
  case (TMap k w f)
  then obtain m where m: "v = CMap m" "length (concat m) < 2 ^ 64"
      "list_all (\<lambda>e. fits k (fst e) \<and> fits w (snd e)) (concat m)" "\<forall>e \<in> set (concat m). wf_cv (fst e) \<and> wf_cv (snd e)"
    by (auto split: cv.splits)
  have ex: "x \<in> fst ` set (concat m) \<Longrightarrow> \<exists>b v'. reads_back k x b v'"
    "x \<in> snd ` set (concat m) \<Longrightarrow> \<exists>b v'. reads_back w x b v'" for x
    using TMap.IH m(3,4) unfolding list_all_iff by fastforce+
  obtain Wk Vk where k: "\<And>x. x \<in> fst ` set (concat m) \<Longrightarrow> reads_back k x (Wk x) (Vk x)"
    by (rule reads_back_choice [OF ex(1)]) blast+
  obtain Ww Vw where w: "\<And>x. x \<in> snd ` set (concat m) \<Longrightarrow> reads_back w x (Ww x) (Vw x)"
    by (rule reads_back_choice [OF ex(2)]) blast+
  show ?case
    using map_reads_back [of m k "Wk \<circ> fst" "Vk \<circ> fst" w "Ww \<circ> snd" "Vw \<circ> snd" f] TMap.prems(1) m(1,2) k w by simp
next
  case (TTuple ts f)
  then obtain vs where vs: "v = CArray vs" "fields_fit (map fits ts) vs" "\<forall>x \<in> set vs. wf_cv x"
    by (auto split: cv.splits)
  obtain W V where "\<And>i. i < length vs \<Longrightarrow> vs ! i \<noteq> CNull \<Longrightarrow> reads_back (ts ! i) (vs ! i) (W i) (V i)"
    by (rule fields_choice [OF vs(2,3)]) (use TTuple.IH in auto)
  note mw = masked_written [OF this]
  show ?case
    using mw(1) mw(2) [where us = "[]"] mw(3,4) fields_fit_length [OF vs(2)] array_cv_eq [of "map (field_value V vs) [0..<length vs]" vs]
    by (auto simp: reads_back_def vs(1) checked_def can_write_value_def)
next
  case (TUdt ks n ns ts)
  then obtain vs where vs: "v = CArray vs" "fields_fit (map fits ts) vs" "\<forall>x \<in> set vs. wf_cv x"
    by (auto split: cv.splits)
  obtain W V where "\<And>i. i < length vs \<Longrightarrow> vs ! i \<noteq> CNull \<Longrightarrow> reads_back (ts ! i) (vs ! i) (W i) (V i)"
    by (rule fields_choice [OF vs(2,3)]) (use TUdt.IH in auto)
  note mw = masked_written [OF this]
  have l: "length ts < 2 ^ 64" "length ts = length vs" "unat (word_of_nat (length vs) :: u64) = length vs"
    using fields_fit_length [OF vs(2)] read_put_length(2) [of vs] by simp_all
  show ?case
    using mw(1) mw(2) [where us = "[]"] mw(3,4) l array_cv_eq [of "map (field_value V vs) [0..<length vs]" vs]
    by (auto simp: reads_back_def vs(1) checked_def can_write_value_def read_udt_fields_def read_put_length [OF l(1)])
qed

section \<open>What a reader returns\<close>

text \<open>The shape of the values of a type, the nulls of a short user-defined value included.\<close>

fun has_type :: "ctype \<Rightarrow> cv \<Rightarrow> bool" where
  "has_type (TBasic b) = (\<lambda>v. exact v b \<and> wf_basic v)"
| "has_type (TList e _) = (\<lambda>v. case v of CArray vs \<Rightarrow> list_all (has_type e) vs | _ \<Rightarrow> False)"
| "has_type (TVector e n _) = (\<lambda>v. case v of CArray vs \<Rightarrow> length vs = unat n \<and> list_all (has_type e) vs | _ \<Rightarrow> False)"
| "has_type (TSet e _) = (\<lambda>v. case v of CSet s \<Rightarrow> list_all (has_type e) (concat s) | _ \<Rightarrow> False)"
| "has_type (TMap k w _) = (\<lambda>v. case v of
     CMap m \<Rightarrow> list_all (\<lambda>e. has_type k (fst e) \<and> has_type w (snd e)) (concat m) | _ \<Rightarrow> False)"
| "has_type (TTuple ts _) = (\<lambda>v. case v of
     CArray vs \<Rightarrow> list_all2 (\<lambda>p v. v = CNull \<or> p v) (map has_type ts) vs | _ \<Rightarrow> False)"
| "has_type (TUdt _ _ _ ts) = (\<lambda>v. case v of
     CArray vs \<Rightarrow> list_all2 (\<lambda>p v. v = CNull \<or> p v) (map has_type ts) vs | _ \<Rightarrow> False)"

lemma read_n_all:
  "(\<And>bs v r. rdr bs = Some (v, r) \<Longrightarrow> P v) \<Longrightarrow> read_n rdr n bs = Some (vs, r) \<Longrightarrow> length vs = n \<and> list_all P vs"
  by (induction n arbitrary: bs vs) (auto simp: bind_eq_Some_conv)

lemma read_fields_all:
  "(\<And>i bs v r. i \<in> set is \<Longrightarrow> rs i bs = Some (v, r) \<Longrightarrow> P i v) \<Longrightarrow>
    read_fields (map (\<lambda>i. (m i, rs i)) is) bs = Some (vs, r) \<Longrightarrow> list_all2 (\<lambda>i v. v = CNull \<or> P i v) is vs"
proof (induction "is" arbitrary: bs vs)
  case (Cons i "is")
  obtain v bs' vs' where v: "vs = v # vs'" "v = CNull \<or> P i v"
      "read_fields (map (\<lambda>i. (m i, rs i)) is) bs' = Some (vs', r)"
    using Cons.prems(2) Cons.prems(1) [of i] by (auto simp: bind_eq_Some_conv split: if_splits)
  have "list_all2 (\<lambda>i v. v = CNull \<or> P i v) is vs'"
    by (rule Cons.IH [OF _ v(3)]) (use Cons.prems(1) in auto)
  then show ?case using v(1,2) by simp
qed simp

lemma read_masked_all:
  assumes "\<And>i bs v r. i < n \<Longrightarrow> (rs ! i) bs = Some (v, r) \<Longrightarrow> (ps ! i) v"
    and "read_masked_payloads rs n bs = Some (vs, r)" "n \<le> length ps"
  shows "list_all2 (\<lambda>p v. v = CNull \<or> p v) (take n ps) vs"
proof -
  obtain ms bs' where "read_fields (masked ms rs n) bs' = Some (vs, r)"
    using assms(2) by (auto simp: read_masked_payloads_def bind_eq_Some_conv)
  then have "list_all2 (\<lambda>i v. v = CNull \<or> (ps ! i) v) [0..<n] vs"
    unfolding masked_def by (rule read_fields_all [rotated]) (use assms(1) in auto)
  then show ?thesis using assms(3) by (auto simp: list_all2_conv_all_nth)
qed

lemma set_of_list_type:
  assumes "list_all (\<lambda>v. P v \<and> wf_cv v) vs"
  obtains s where "set_of_list vs = CSet s" "list_all P (concat s)" "wf_cv (CSet s)"
proof -
  have "set vs \<subseteq> Collect wf_cv" using assms by (auto simp: list_all_iff)
  define s where "s = fold (set_insert hash_cv cv_eq) vs []"
  have "nested.table id s \<and> set_mset (entries s) \<subseteq> set_mset (entries ([] :: cv slots)) \<union> set vs"
    unfolding s_def by (rule nested.fold_set_members [OF nested.table_Nil \<open>set vs \<subseteq> Collect wf_cv\<close>])
  then have "nested.table id s" "list_all P (concat s)"
    using assms by (auto simp: list_all_iff entries_def)
  then show thesis using that [of s] unfolding wf_set_table by (simp add: set_of_list_def s_def)
qed

lemma map_of_list_type:
  assumes "list_all (\<lambda>e. (P (fst e) \<and> wf_cv (fst e)) \<and> Q (snd e) \<and> wf_cv (snd e)) es"
  obtains m where "map_of_list es = CMap m" "list_all (\<lambda>e. P (fst e) \<and> Q (snd e)) (concat m)" "wf_cv (CMap m)"
proof -
  have "fst ` set es \<subseteq> Collect wf_cv" using assms by (auto simp: list_all_iff)
  define m where "m = fold (\<lambda>(k, v). map_insert hash_cv cv_eq k v) es []"
  have "nested.table fst m \<and> (\<forall>e \<in># entries m. (P (fst e) \<and> wf_cv (fst e)) \<and> Q (snd e) \<and> wf_cv (snd e))"
    unfolding m_def
    by (rule nested.fold_map_members [OF nested.table_Nil \<open>fst ` set es \<subseteq> Collect wf_cv\<close>])
      (use assms in \<open>auto simp: list_all_iff entries_def\<close>)
  then have "wf_cv (CMap m)" "list_all (\<lambda>e. P (fst e) \<and> Q (snd e)) (concat m)"
    unfolding wf_map_table by (auto simp: list_all_iff entries_def)
  then show thesis using that [of m] by (simp add: map_of_list_def m_def)
qed

lemma fields_typed:
  assumes "list_all2 (\<lambda>p v. v = CNull \<or> p v) (map (\<lambda>t v. has_type t v \<and> wf_cv v) ts) vs"
  shows "list_all2 (\<lambda>p v. v = CNull \<or> p v) (map has_type ts) vs \<and> (\<forall>v \<in> set vs. wf_cv v)"
proof -
  have "vs ! i = CNull \<or> has_type (ts ! i) (vs ! i) \<and> wf_cv (vs ! i)" if "i < length vs" for i
    using assms that by (auto simp: list_all2_conv_all_nth)
  then have "\<forall>i < length vs. wf_cv (vs ! i)" using wf_cv.simps(17) by metis
  then show ?thesis using assms by (auto simp: list_all2_conv_all_nth in_set_conv_nth)
qed

lemma read_value_type: "read_value t bs = Some (v, r) \<Longrightarrow> has_type t v \<and> wf_cv v"
proof (induction t arbitrary: bs v r)
  case (TBasic b)
  then have e: "exact v b \<and> wf_basic v" using read_basic_typed [of b bs v r] by simp
  then show ?case using exact_is_basic [of v b] by (cases v) auto
next
  case (TList e f)
  then obtain n vs bs' r' where vs: "v = CArray vs" "read_n (read_value e) n bs' = Some (vs, r')"
    by (auto simp: counted_def bind_eq_Some_conv)
  show ?case using read_n_all [where P = "\<lambda>v. has_type e v \<and> wf_cv v", OF TList.IH vs(2)] by (auto simp: vs(1) list_all_iff)
next
  case (TVector e n f)
  then obtain vs bs' r' where vs: "v = CArray vs" "read_n (read_value e) (unat n) bs' = Some (vs, r')"
    by (auto simp: counted_def bind_eq_Some_conv)
  show ?case using read_n_all [where P = "\<lambda>v. has_type e v \<and> wf_cv v", OF TVector.IH vs(2)] by (auto simp: vs(1) list_all_iff)
next
  case (TSet e f)
  then obtain n vs bs' r' where vs: "v = set_of_list vs" "read_n (read_value e) n bs' = Some (vs, r')"
    by (auto simp: counted_def bind_eq_Some_conv)
  have "list_all (\<lambda>v. has_type e v \<and> wf_cv v) vs" using read_n_all [where P = "\<lambda>v. has_type e v \<and> wf_cv v", OF TSet.IH vs(2)] by simp
  from set_of_list_type [OF this] obtain s where
    "set_of_list vs = CSet s" "list_all (has_type e) (concat s)" "wf_cv (CSet s)" .
  then show ?case by (simp add: vs(1))
next
  case (TMap k w f)
  then obtain n es bs' r' where es: "v = map_of_list es"
      "read_n (read_pair (read_value k) (read_value w)) n bs' = Some (es, r')"
    by (auto simp: bind_eq_Some_conv)
  have "list_all (\<lambda>e. (has_type k (fst e) \<and> wf_cv (fst e)) \<and> has_type w (snd e) \<and> wf_cv (snd e)) es"
    by (rule conjunct2 [OF read_n_all [OF _ es(2)]])
      (use TMap.IH in \<open>auto simp: read_pair_def bind_eq_Some_conv\<close>)
  from map_of_list_type [OF this] obtain m where "map_of_list es = CMap m"
    "list_all (\<lambda>e. has_type k (fst e) \<and> has_type w (snd e)) (concat m)" "wf_cv (CMap m)" .
  then show ?case by (simp add: es(1))
next
  case (TTuple ts f)
  then obtain vs where vs: "v = CArray vs" "read_masked_payloads (map read_value ts) (length ts) bs = Some (vs, r)"
    by (auto simp: bind_eq_Some_conv)
  have "list_all2 (\<lambda>p v. v = CNull \<or> p v) (take (length ts) (map (\<lambda>t v. has_type t v \<and> wf_cv v) ts)) vs"
    by (rule read_masked_all [OF _ vs(2)]) (use TTuple.IH in \<open>simp, blast intro: nth_mem\<close>, simp)
  from fields_typed [OF this [simplified]] show ?case by (simp add: vs(1))
next
  case (TUdt ks nm ns ts)
  then obtain n vs bs' r' where vs: "v = CArray (vs @ replicate (length ts - n) CNull)" "n \<le> length ts"
      "read_masked_payloads (map read_value ts) n bs' = Some (vs, r')"
    by (auto simp: read_udt_fields_def bind_eq_Some_conv split: if_splits)
  have "list_all2 (\<lambda>p v. v = CNull \<or> p v) (take n (map (\<lambda>t v. has_type t v \<and> wf_cv v) ts)) vs"
    by (rule read_masked_all [OF _ vs(3)]) (use TUdt.IH vs(2) in \<open>simp, metis nth_mem order_less_le_trans\<close>, use vs(2) in simp)
  then have "list_all2 (\<lambda>p v. v = CNull \<or> p v) (map (\<lambda>t v. has_type t v \<and> wf_cv v) ts) (vs @ replicate (length ts - n) CNull)"
    using vs(2) by (auto simp: list_all2_conv_all_nth nth_append)
  from fields_typed [OF this] show ?case by (simp add: vs(1))
qed

section \<open>Properties\<close>

text \<open>C5 Storage round trip of nested values. A well-formed value that fits a column type is written
  without a trap, and whatever bytes follow it is read back as an equal value, its skipper in
  step: the elements of sets and maps may land in other slots, no more.\<close>

theorem nested_roundtrip:
  assumes "wf_cv v" "fits t v"
  shows "\<exists>w v'. write_value t v = Some w \<and> cv_eq v' v \<and> wf_cv v' \<and>
    (\<forall>bs. read_value t (w @ bs) = Some (v', bs) \<and> skip_value t (w @ bs) = Some bs)"
  using value_reads_back [OF assms] skip_value_reads [of t] by (auto simp: reads_back_def skips_def)

theorem nested_roundtrip_witness:
  "\<exists>w v'. write_value (TTuple [TBasic BInt, TList (TBasic BText) True] True) (CArray [CNull, CArray [CText [65]]]) = Some w \<and>
    cv_eq v' (CArray [CNull, CArray [CText [65]]]) \<and> read_value (TTuple [TBasic BInt, TList (TBasic BText) True] True) w = Some (v', [])"
proof -
  let ?v = "CArray [CNull, CArray [CText [65]]]" and ?t = "TTuple [TBasic BInt, TList (TBasic BText) True] True"
  have "\<exists>w v'. write_value ?t ?v = Some w \<and> cv_eq v' ?v \<and> wf_cv v' \<and>
      (\<forall>bs. read_value ?t (w @ bs) = Some (v', bs) \<and> skip_value ?t (w @ bs) = Some bs)"
    by (rule nested_roundtrip) (simp_all add: fields_fit_def)
  then show ?thesis by (metis append_Nil2)
qed

text \<open>C6 Readers preserve types. Whatever the bytes, a value a reader returns has the type of the
  column, with the sizes, tags and nulls that type allows, and its sets and maps are tables the
  container operations accept.\<close>

theorem read_preserves_type:
  assumes "read_value t bs = Some (v, r)"
  shows "has_type t v \<and> wf_cv v"
  by (rule read_value_type [OF assms])

theorem read_preserves_type_witness:
  "has_type (TVector (TBasic BTinyint) 2 True) (CArray [CU8 7, CU8 9])"
proof -
  have two: "unat (2 :: u64) = Suc (Suc 0)" by simp
  have "read_value (TVector (TBasic BTinyint) 2 True) [7, 9, 1] = Some (CArray [CU8 7, CU8 9], [1])"
    unfolding read_value.simps two by (simp add: counted_def read_basic_def got_def rd_u8_def rd_def word_at_def)
  from read_preserves_type [OF this] show ?thesis by simp
qed

text \<open>C37 Skipping is reading. On every stream the skipper of a type moves on by exactly the bytes
  the reader consumes and traps exactly when the reader does.\<close>

theorem skip_agrees_with_read:
  "skip_value t bs = map_option snd (read_value t bs)"
  using skip_value_reads [of t] by (simp add: skips_def)

text \<open>ALTER TYPE ADD. A user-defined value written before fields were added to its type reads as
  the old fields followed by a null for every new field, and leaves the stream where it ended.\<close>

theorem udt_added_fields_null:
  assumes "wf_cv (CArray vs)" "fits (TUdt ks n ns ts) (CArray vs)"
  shows "\<exists>w vs'. write_value (TUdt ks n ns ts) (CArray vs) = Some w \<and> list_all2 cv_eq vs' vs \<and>
    (\<forall>bs. read_value (TUdt ks n ns' (ts @ us)) (w @ bs) = Some (CArray (vs' @ replicate (length us) CNull), bs))"
proof -
  have vs: "fields_fit (map fits ts) vs" "\<forall>x \<in> set vs. wf_cv x" using assms by simp_all
  obtain W V where "\<And>i. i < length vs \<Longrightarrow> vs ! i \<noteq> CNull \<Longrightarrow> reads_back (ts ! i) (vs ! i) (W i) (V i)"
    by (rule fields_choice [OF vs]) (use value_reads_back in auto)
  note mw = masked_written [OF this]
  have l: "length ts < 2 ^ 64" "length ts = length vs" "unat (word_of_nat (length vs) :: u64) = length vs"
    using fields_fit_length [OF vs(1)] read_put_length(2) [of vs] by simp_all
  show ?thesis
    using mw(1) mw(2) [where us = us] mw(3) l
    by (auto simp: checked_def can_write_value_def read_udt_fields_def read_put_length [OF l(1)])
qed

theorem udt_added_fields_null_witness:
  "\<exists>w vs'. write_value (TUdt [1] [2] [[3]] [TBasic BInt]) (CArray [CS32 5]) = Some w \<and> list_all2 cv_eq vs' [CS32 5] \<and>
    (\<forall>bs. read_value (TUdt [1] [2] [[3], [4]] ([TBasic BInt] @ [TBasic BText])) (w @ bs) = Some (CArray (vs' @ replicate 1 CNull), bs))"
  using udt_added_fields_null [of "[CS32 5]" "[1]" "[2]" "[[3]]" "[TBasic BInt]" "[[3], [4]]" "[TBasic BText]"]
  by (simp add: fields_fit_def)

text \<open>Nulls inside a list. The writer accepts a list of nulls and counts them but stores nothing
  for them, so that the reader takes the bytes of whatever follows for the elements.\<close>

theorem null_elements_swallow_row:
  assumes "vs = replicate k CNull" "k < 2 ^ 64"
  shows "\<exists>w. write_value (TList e f) (CArray vs) = Some w \<and>
    (\<forall>bs. read_value (TList e f) (w @ bs) = map_option (\<lambda>(xs, r). (CArray xs, r)) (read_n (read_value e) k bs))"
proof -
  have "write_value e CNull = Some []" by (cases e) (simp_all add: checked_def can_write_value_def)
  then have "write_all (write_value e) vs = Some []"
    using map_opt_total [of vs "write_value e" "\<lambda>_. []"] assms(1) by (simp add: write_all_def)
  then have "write_value (TList e f) (CArray vs) = Some (put_length vs)"
    by (simp add: checked_def can_write_value_def)
  moreover have "length vs = k" using assms(1) by simp
  then have "read_value (TList e f) (put_length vs @ bs) = map_option (\<lambda>(xs, r). (CArray xs, r)) (read_n (read_value e) k bs)" for bs
    using read_put_length(1) [of vs bs] read_put_length(2) [of vs] assms(2)
    by (cases "read_n (read_value e) k bs") (auto simp: counted_def)
  ultimately show ?thesis by blast
qed

theorem null_elements_swallow_row_witness:
  "\<exists>w. write_value (TList (TBasic BTinyint) True) (CArray [CNull]) = Some w \<and>
    read_value (TList (TBasic BTinyint) True) (w @ [42, 1]) = Some (CArray [CU8 42], [1])"
proof -
  have "\<exists>w. write_value (TList (TBasic BTinyint) True) (CArray [CNull]) = Some w \<and>
      (\<forall>bs. read_value (TList (TBasic BTinyint) True) (w @ bs) =
        map_option (\<lambda>(xs, r). (CArray xs, r)) (read_n (read_value (TBasic BTinyint)) 1 bs))"
    by (rule null_elements_swallow_row) simp_all
  moreover have "read_n (read_value (TBasic BTinyint)) 1 [42, 1] = Some ([CU8 42], [1])"
    by (simp add: read_basic_def got_def rd_u8_def rd_def word_at_def)
  ultimately show ?thesis by (metis (mono_tags, lifting) case_prod_conv option.simps(9))
qed

text \<open>Column masks. The mask of a row is read back whole, and bit by bit it says which columns
  are present, over every word boundary.\<close>

theorem column_mask_roundtrip:
  "read_mask n (write_mask_bits is_set n @ bs) = Some (mask_of is_set n, bs) \<and>
   map (mask_bit (mask_of is_set n)) [0..<n] = map is_set [0..<n]"
  by (simp add: read_mask_bits mask_bit_mask_of)

end
