(* ===== verification/Compare.thy ===== *)
theory Compare
  imports CqlValue Codec Complex_Main "HOL-Library.List_Lexorder" "HOL-Library.Product_Lexorder"
begin

text \<open>
  The order of column values (\<open>cql/engine/column_value.cpp\<close>): the three-way comparison
  clustering and index keys are sorted by, with its arithmetic on big-endian magnitudes.
\<close>

section \<open>The comparison\<close>

definition clamp_cmp :: "int \<Rightarrow> int" where
  "clamp_cmp c = (if c < 0 then -1 else if c > 0 then 1 else 0)"

definition compare_scalar :: "'a::linorder \<Rightarrow> 'a \<Rightarrow> int" where
  "compare_scalar a b = (if a < b then -1 else if a > b then 1 else 0)"

text \<open>\<open>memcmp\<close>: the difference of the first two bytes that differ.\<close>

fun memory_compare :: "bytes \<Rightarrow> bytes \<Rightarrow> int" where
  "memory_compare (a # as) (b # bs) =
     (if a = b then memory_compare as bs else int (unat a) - int (unat b))"
| "memory_compare _ _ = 0"

definition compare_bytes :: "bytes \<Rightarrow> bytes \<Rightarrow> int" where
  "compare_bytes a b =
     (let n = (if length a < length b then length a else length b);
          c = (if n > 0 then memory_compare (take n a) (take n b) else 0)
      in if c \<noteq> 0 then clamp_cmp c else compare_scalar (length a) (length b))"

definition f64_order_key :: "u64 \<Rightarrow> u64" where
  "f64_order_key bits =
     (if bits AND 0x8000000000000000 \<noteq> 0 then NOT bits else bits XOR 0x8000000000000000)"

definition f32_order_key :: "u32 \<Rightarrow> u32" where
  "f32_order_key bits = (if bits AND 0x80000000 \<noteq> 0 then NOT bits else bits XOR 0x80000000)"

definition timeuuid_timestamp :: "bytes \<Rightarrow> u64" where
  "timeuuid_timestamp u =
     (let time_low = push_bit 24 (ucast (u ! 0)) OR push_bit 16 (ucast (u ! 1))
            OR push_bit 8 (ucast (u ! 2)) OR (ucast (u ! 3) :: u32);
          time_mid = push_bit 8 (ucast (u ! 4)) OR (ucast (u ! 5) :: u16);
          time_hi = (push_bit 8 (ucast (u ! 6)) OR (ucast (u ! 7) :: u16)) AND 0x0FFF
      in push_bit 48 (ucast time_hi) OR push_bit 32 (ucast time_mid) OR ucast time_low)"

definition compare_timeuuid :: "bytes \<Rightarrow> bytes \<Rightarrow> int" where
  "compare_timeuuid a b =
     (let ta = timeuuid_timestamp a; tb = timeuuid_timestamp b
      in if ta \<noteq> tb then compare_scalar ta tb else compare_bytes (drop 8 a) (drop 8 b))"

definition compare_uuid :: "bytes \<Rightarrow> bytes \<Rightarrow> int" where
  "compare_uuid a b =
     (let va = drop_bit 4 (a ! 6) AND 0x0F; vb = drop_bit 4 (b ! 6) AND 0x0F
      in if va \<noteq> vb then compare_scalar va vb
         else if va = 1 then compare_timeuuid a b
         else compare_bytes a b)"

text \<open>Start and length of a magnitude without its leading zeroes.\<close>

definition magnitude_bounds :: "bytes \<Rightarrow> nat \<times> nat" where
  "magnitude_bounds m =
     (let start = length (takeWhile (\<lambda>b. b = 0) m) in (start, length m - start))"

definition compare_magnitude :: "bytes \<Rightarrow> bytes \<Rightarrow> int" where
  "compare_magnitude a b =
     (let (a_start, a_len) = magnitude_bounds a; (b_start, b_len) = magnitude_bounds b
      in if a_len \<noteq> b_len then compare_scalar a_len b_len
         else if a_len = 0 then 0
         else clamp_cmp (memory_compare (drop a_start a) (drop b_start b)))"

definition magnitude_is_zero :: "bytes \<Rightarrow> bool" where
  "magnitude_is_zero m \<longleftrightarrow> snd (magnitude_bounds m) = 0"

definition compare_varint :: "varint \<Rightarrow> varint \<Rightarrow> int" where
  "compare_varint a b =
     (let a_zero = magnitude_is_zero (magnitude a); b_zero = magnitude_is_zero (magnitude b)
      in if a_zero \<and> b_zero then 0
         else if negative a \<noteq> negative b then
           (if a_zero then (if negative b then 1 else -1)
            else if b_zero then (if negative a then -1 else 1)
            else (if negative a then -1 else 1))
         else (let m = compare_magnitude (magnitude a) (magnitude b)
               in if negative a then - m else m))"

text \<open>One multiplication by ten, from the last byte to the first; the carry that is left.\<close>

fun mul10_loop :: "bytes \<Rightarrow> bytes \<times> u32" where
  "mul10_loop [] = ([], 0)"
| "mul10_loop (b # bs) =
     (let (r, carry) = mul10_loop bs; v = ucast b * 10 + carry
      in (ucast (v AND 0xFF) # r, drop_bit 8 v))"

text \<open>The carry grows the number in front, a byte at a time.\<close>

function grow_carry :: "u32 \<Rightarrow> bytes \<Rightarrow> bytes" where
  "grow_carry carry cur =
     (if carry > 0 then grow_carry (drop_bit 8 carry) (ucast (carry AND 0xFF) # cur) else cur)"
  by pat_completeness auto
termination
proof (relation "measure (\<lambda>(carry, cur). unat carry)")
  fix carry :: u32 and cur :: bytes
  assume "0 < carry"
  then have "unat (drop_bit 8 carry) < unat carry"
    by (simp only: unat_drop_bit_div word_less_nat_alt) simp
  then show "((drop_bit 8 carry, ucast (carry AND 255) # cur), carry, cur) \<in> measure (\<lambda>(carry, cur). unat carry)"
    by simp
qed simp

declare grow_carry.simps [simp del]

fun magnitude_mul_pow10 :: "bytes \<Rightarrow> nat \<Rightarrow> bytes" where
  "magnitude_mul_pow10 cur 0 = cur"
| "magnitude_mul_pow10 cur (Suc t) =
     (let (r, carry) = mul10_loop cur in magnitude_mul_pow10 (grow_carry carry r) t)"

text \<open>
  A decimal is \<open>unscaled * 10 ^ - scale\<close>. The scale difference is the code's
  \<open>U32(a.scale - b.scale)\<close>, a subtraction that wraps.
\<close>

definition compare_decimal :: "u32 \<times> varint \<Rightarrow> u32 \<times> varint \<Rightarrow> int" where
  "compare_decimal a b =
     (case (a, b) of ((sa, va), (sb, vb)) \<Rightarrow>
        if sa = sb then compare_varint va vb
        else if sint sa > sint sb then
          compare_varint va (vb\<lparr>magnitude := magnitude_mul_pow10 (magnitude vb) (unat (sa - sb))\<rparr>)
        else
          compare_varint (va\<lparr>magnitude := magnitude_mul_pow10 (magnitude va) (unat (sb - sa))\<rparr>) vb)"

text \<open>\<open>get\<close> of another alternative traps, and so does a type without an order.\<close>

definition cmp_s64 :: "cv \<Rightarrow> cv \<Rightarrow> int option" where
  "cmp_s64 a b = (case (a, b) of (CS64 x, CS64 y) \<Rightarrow> Some (compare_scalar (sint x) (sint y)) | _ \<Rightarrow> None)"

definition cmp_s32 :: "cv \<Rightarrow> cv \<Rightarrow> int option" where
  "cmp_s32 a b = (case (a, b) of (CS32 x, CS32 y) \<Rightarrow> Some (compare_scalar (sint x) (sint y)) | _ \<Rightarrow> None)"

definition cmp_text :: "cv \<Rightarrow> cv \<Rightarrow> int option" where
  "cmp_text a b = (case (a, b) of (CText x, CText y) \<Rightarrow> Some (compare_bytes x y) | _ \<Rightarrow> None)"

definition cmp_blob :: "cv \<Rightarrow> cv \<Rightarrow> int option" where
  "cmp_blob a b = (case (a, b) of (CBlob x, CBlob y) \<Rightarrow> Some (compare_bytes x y) | _ \<Rightarrow> None)"

definition compare_column_value :: "cv \<Rightarrow> cv \<Rightarrow> basic \<Rightarrow> int option" where
  "compare_column_value a b dtype = (case dtype of
       BBigint \<Rightarrow> cmp_s64 a b | BTimestamp \<Rightarrow> cmp_s64 a b | BCounter \<Rightarrow> cmp_s64 a b | BTime \<Rightarrow> cmp_s64 a b
     | BInt \<Rightarrow> cmp_s32 a b | BDate \<Rightarrow> cmp_s32 a b
     | BSmallint \<Rightarrow> (case (a, b) of (CS16 x, CS16 y) \<Rightarrow> Some (compare_scalar (sint x) (sint y)) | _ \<Rightarrow> None)
     | BTinyint \<Rightarrow> (case (a, b) of (CU8 x, CU8 y) \<Rightarrow> Some (compare_scalar (sint x) (sint y)) | _ \<Rightarrow> None)
     | BBoolean \<Rightarrow> (case (a, b) of (CU8 x, CU8 y) \<Rightarrow> Some (compare_scalar x y) | _ \<Rightarrow> None)
     | BDouble \<Rightarrow> (case (a, b) of
           (CF64 x, CF64 y) \<Rightarrow> Some (compare_scalar (f64_order_key x) (f64_order_key y)) | _ \<Rightarrow> None)
     | BFloat \<Rightarrow> (case (a, b) of
           (CF32 x, CF32 y) \<Rightarrow> Some (compare_scalar (f32_order_key x) (f32_order_key y)) | _ \<Rightarrow> None)
     | BText \<Rightarrow> cmp_text a b | BVarchar \<Rightarrow> cmp_text a b | BAscii \<Rightarrow> cmp_text a b
     | BBlob \<Rightarrow> cmp_blob a b | BHex \<Rightarrow> cmp_blob a b
     | BInet \<Rightarrow> (case (a, b) of (CInet _ x, CInet _ y) \<Rightarrow> Some (compare_bytes x y) | _ \<Rightarrow> None)
     | BUuid \<Rightarrow> (case (a, b) of (CUuid x, CUuid y) \<Rightarrow> Some (compare_uuid x y) | _ \<Rightarrow> None)
     | BTimeuuid \<Rightarrow> (case (a, b) of (CUuid x, CUuid y) \<Rightarrow> Some (compare_timeuuid x y) | _ \<Rightarrow> None)
     | BVarint \<Rightarrow> (case (a, b) of (CVarInt x, CVarInt y) \<Rightarrow> Some (compare_varint x y) | _ \<Rightarrow> None)
     | BDecimal \<Rightarrow> (case (a, b) of
           (CDecimal s x, CDecimal t y) \<Rightarrow> Some (compare_decimal (s, x) (t, y)) | _ \<Rightarrow> None)
     | BDuration \<Rightarrow> None
     | BCOUNT \<Rightarrow> None)"

section \<open>Bytes and magnitudes\<close>

lemma compare_scalar_simps [simp]:
  "compare_scalar a a = 0"
  "a < b \<Longrightarrow> compare_scalar a b = -1" "b < a \<Longrightarrow> compare_scalar a b = 1"
  by (auto simp: compare_scalar_def)

lemma clamp_cmp_simps [simp]:
  "clamp_cmp 0 = 0" "clamp_cmp c = 0 \<longleftrightarrow> c = 0"
  by (auto simp: clamp_cmp_def)

lemma clamp_cmp_diff: "clamp_cmp (uint a - uint b) = compare_scalar a b"
  by (auto simp: clamp_cmp_def compare_scalar_def word_less_def)

lemma memory_compare_take:
  "length xs \<le> n \<Longrightarrow> length ys \<le> n \<Longrightarrow> memory_compare (take n xs) (take n ys) = memory_compare xs ys"
  by simp

lemma compare_bytes_simps [simp]:
  "compare_bytes [] [] = 0" "compare_bytes [] (b # bs) = -1" "compare_bytes (a # as) [] = 1"
  "compare_bytes (a # as) (b # bs) = (if a = b then compare_bytes as bs else compare_scalar a b)"
proof -
  have "compare_scalar (Suc m) (Suc n) = compare_scalar m n" for m n
    by (simp add: compare_scalar_def)
  then show "compare_bytes (a # as) (b # bs) = (if a = b then compare_bytes as bs else compare_scalar a b)"
    by (auto simp: compare_bytes_def Let_def clamp_cmp_diff word_uint_eq_iff [symmetric])
qed (simp_all add: compare_bytes_def)

lemma compare_bytes_lexico: "compare_bytes xs ys = compare_scalar xs ys"
proof (induction xs arbitrary: ys)
  case Nil
  then show ?case by (cases ys) (auto simp: compare_scalar_def)
next
  case (Cons x xs)
  then show ?case by (cases ys) (auto simp: compare_scalar_def)
qed

lemma memory_compare_be:
  assumes "length xs = length ys"
  shows "clamp_cmp (memory_compare xs ys) = compare_scalar (be_nat xs) (be_nat ys)"
  using assms
proof (induction xs ys rule: list_induct2)
  case (Cons x xs y ys)
  show ?case
  proof (cases "x = y")
    case True
    then show ?thesis using Cons by (simp add: be_nat_Cons compare_scalar_def)
  next
    case False
    have less: "unat a * 256 ^ length ys + be_nat as < unat b * 256 ^ length ys + be_nat bs"
      if "a < b" "length as = length ys" for a b :: u8 and as bs
    proof -
      have "unat a * 256 ^ length ys + be_nat as < Suc (unat a) * 256 ^ length ys"
        using be_nat_less [of as] that(2) by simp
      also have "\<dots> \<le> unat b * 256 ^ length ys"
        using that(1) by (intro mult_le_mono1) (simp add: word_less_nat_alt)
      finally show ?thesis by simp
    qed
    consider "x < y" | "y < x" using False by fastforce
    then show ?thesis
      using False Cons(1) less [of x y xs ys] less [of y x ys xs]
      by cases (auto simp: be_nat_Cons clamp_cmp_diff)
  qed
qed simp

text \<open>The magnitude without leading zeroes.\<close>

definition strip :: "bytes \<Rightarrow> bytes" where
  "strip m = dropWhile (\<lambda>b. b = 0) m"

lemma be_nat_strip [simp]: "be_nat (strip m) = be_nat m"
  by (induction m) (auto simp: strip_def be_nat_Cons)

lemma magnitude_bounds_strip:
  "magnitude_bounds m = (length m - length (strip m), length (strip m))"
  "drop (length m - length (strip m)) m = strip m"
proof -
  have "length (takeWhile (\<lambda>b. b = 0) m) + length (strip m) = length m"
    unfolding strip_def by (metis length_append takeWhile_dropWhile_id)
  then have *: "length (takeWhile (\<lambda>b. b = 0) m) = length m - length (strip m)" "length (strip m) \<le> length m"
    by simp_all
  then show "magnitude_bounds m = (length m - length (strip m), length (strip m))"
    by (simp add: magnitude_bounds_def Let_def)
  show "drop (length m - length (strip m)) m = strip m"
    using *(1) by (metis dropWhile_eq_drop strip_def)
qed

lemma strip_large: "strip m = b # bs \<Longrightarrow> 256 ^ length bs \<le> be_nat m"
proof -
  assume m: "strip m = b # bs"
  then have "b \<noteq> 0" unfolding strip_def by (metis (full_types) dropWhile_eq_Cons_conv)
  then have "0 < unat b" by (simp add: unat_gt_0)
  moreover have "be_nat m = unat b * 256 ^ length bs + be_nat bs"
    using be_nat_strip [of m] m by (simp add: be_nat_Cons)
  ultimately show ?thesis by (cases "unat b") auto
qed

lemma strip_Nil: "strip m = [] \<longleftrightarrow> be_nat m = 0"
proof (cases "strip m")
  case Nil
  then show ?thesis using be_nat_strip [of m] by simp
next
  case (Cons b bs)
  then show ?thesis using strip_large [OF Cons] by (metis list.distinct(1) le_zero_eq power_not_zero zero_neq_numeral)
qed

lemma magnitude_is_zero: "magnitude_is_zero m \<longleftrightarrow> be_nat m = 0"
  by (simp add: magnitude_is_zero_def magnitude_bounds_strip strip_Nil)

lemma shorter_magnitude: "length (strip a) < length (strip b) \<Longrightarrow> be_nat a < be_nat b"
proof -
  assume ab: "length (strip a) < length (strip b)"
  then obtain x xs where b: "strip b = x # xs" by (cases "strip b") auto
  have "be_nat a < 256 ^ length (strip a)" using be_nat_less [of "strip a"] by simp
  also have "\<dots> \<le> 256 ^ length xs" using ab b by (intro power_increasing) auto
  also have "\<dots> \<le> be_nat b" by (rule strip_large [OF b])
  finally show ?thesis .
qed

lemma compare_magnitude_be: "compare_magnitude a b = compare_scalar (be_nat a) (be_nat b)"
proof (cases "length (strip a) = length (strip b)")
  case True
  show ?thesis
  proof (cases "strip a")
    case Nil
    then show ?thesis using True strip_Nil [of a] strip_Nil [of b]
      by (simp add: compare_magnitude_def magnitude_bounds_strip)
  next
    case (Cons x xs)
    have "drop (length b - length (strip a)) b = strip b" "drop (length a - length (strip b)) a = strip a"
      using True magnitude_bounds_strip(2) [of a] magnitude_bounds_strip(2) [of b] by simp_all
    moreover have "strip b \<noteq> []" using True Cons by auto
    ultimately show ?thesis using True memory_compare_be [OF True]
      by (simp add: compare_magnitude_def magnitude_bounds_strip)
  qed
next
  case False
  then show ?thesis
    using shorter_magnitude [of a b] shorter_magnitude [of b a]
    by (auto simp: compare_magnitude_def magnitude_bounds_strip compare_scalar_def)
qed

section \<open>Varints and decimals\<close>

definition varint_val :: "varint \<Rightarrow> int" where
  "varint_val v = (if negative v then - int (be_nat (magnitude v)) else int (be_nat (magnitude v)))"

lemma compare_varint_val: "compare_varint a b = compare_scalar (varint_val a) (varint_val b)"
  by (auto simp: compare_varint_def varint_val_def magnitude_is_zero compare_magnitude_be Let_def
      compare_scalar_def)

lemma mul10_loop_val:
  "mul10_loop bs = (r, c) \<Longrightarrow>
    length r = length bs \<and> unat c < 10 \<and> unat c * 256 ^ length bs + be_nat r = 10 * be_nat bs"
proof (induction bs arbitrary: r c)
  case (Cons b bs)
  obtain r' c' where rc: "mul10_loop bs = (r', c')" by fastforce
  have IH: "length r' = length bs" "unat c' < 10" "unat c' * 256 ^ length bs + be_nat r' = 10 * be_nat bs"
    using Cons.IH [OF rc] by auto
  let ?v = "ucast b * 10 + c' :: u32"
  have b: "unat b < 256" by (rule unat_byte_less)
  have "unat (ucast b * 10 :: u32) = unat b * 10"
    using b by (subst unat_mult_lem [THEN iffD1]) simp_all
  then have v: "unat ?v = unat b * 10 + unat c'"
    using IH(2) b by (subst unat_add_lem [THEN iffD1]) simp_all
  have "r = ucast (?v AND 0xFF) # r'" "c = drop_bit 8 ?v"
    using Cons.prems rc by (auto simp: Let_def)
  then have r: "be_nat r = unat ?v mod 256 * 256 ^ length bs + be_nat r'" "unat c = unat ?v div 256" "length r = Suc (length bs)"
    using IH(1) by (simp_all add: be_nat_Cons unat_drop_bit_div unat_low_byte)
  have "unat c * 256 ^ length (b # bs) + be_nat r = (unat ?v div 256 * 256 + unat ?v mod 256) * 256 ^ length bs + be_nat r'"
    unfolding r by (simp only: add_mult_distrib power_Suc length_Cons mult.assoc add.assoc)
  also have "\<dots> = 10 * be_nat (b # bs)"
    using IH(3) by (simp only: div_mult_mod_eq v) (simp add: be_nat_Cons algebra_simps)
  finally show ?case using r v IH(2) unat_byte_less [of b] by simp
qed simp

lemma grow_carry_val: "be_nat (grow_carry c cur) = unat c * 256 ^ length cur + be_nat cur"
proof (induction c cur rule: grow_carry.induct)
  case (1 c cur)
  show ?case
  proof (cases "0 < c")
    case False
    then have "c = 0" by (simp add: word_gt_0)
    then show ?thesis by (simp add: grow_carry.simps [of 0])
  next
    case True
    have "be_nat (grow_carry c cur) =
        unat c div 256 * 256 ^ Suc (length cur) + (unat c mod 256 * 256 ^ length cur + be_nat cur)"
      using 1 [OF True] True by (simp add: grow_carry.simps [of c] be_nat_Cons unat_drop_bit_div unat_low_byte)
    also have "\<dots> = (unat c div 256 * 256 + unat c mod 256) * 256 ^ length cur + be_nat cur"
      by (simp only: add_mult_distrib power_Suc mult.assoc add.assoc)
    finally show ?thesis by (simp only: div_mult_mod_eq)
  qed
qed

lemma mul_pow10_val: "be_nat (magnitude_mul_pow10 m t) = be_nat m * 10 ^ t"
proof (induction m t rule: magnitude_mul_pow10.induct)
  case (2 cur t)
  obtain r c where rc: "mul10_loop cur = (r, c)" by fastforce
  then have "be_nat (grow_carry c r) = 10 * be_nat cur"
    using mul10_loop_val [OF rc] by (simp add: grow_carry_val)
  then show ?case using 2 [OF rc [symmetric] refl] rc by simp
qed simp

definition decimal_val :: "u32 \<times> varint \<Rightarrow> real" where
  "decimal_val d = real_of_int (varint_val (snd d)) * 10 powi (- sint (fst d))"

lemma varint_val_scaled:
  "varint_val (v\<lparr>magnitude := magnitude_mul_pow10 (magnitude v) t\<rparr>) = varint_val v * 10 ^ t"
  by (simp add: varint_val_def mul_pow10_val)

lemma unat_diff_signed:
  assumes "sint b < sint (a :: u32)" shows "int (unat (a - b)) = sint a - sint b"
proof -
  have "sint a < 2 ^ 31" "- (2 ^ 31) \<le> sint b"
    using sint_lt [of a] sint_ge [of b] by simp_all
  then have d: "(sint a - sint b) mod 2 ^ 32 = sint a - sint b" using assms by simp
  have "uint (a - b) = (uint a - uint b) mod 2 ^ 32" by (simp add: uint_word_ariths(2))
  also have "\<dots> = (sint a - sint b) mod 2 ^ 32"
    by (simp add: uint_sint take_bit_eq_mod mod_diff_eq)
  finally show ?thesis using d by simp
qed

lemma compare_scalar_cong:
  "(a < b \<longleftrightarrow> c < d) \<Longrightarrow> (b < a \<longleftrightarrow> d < c) \<Longrightarrow> compare_scalar a b = compare_scalar c d"
  by (auto simp: compare_scalar_def)

lemma compare_scaled:
  assumes "0 < (k :: real)" shows "compare_scalar (real_of_int x * k) (real_of_int y * k) = compare_scalar x y"
  using assms by (intro compare_scalar_cong) simp_all

lemma compare_decimal_val: "compare_decimal a b = compare_scalar (decimal_val a) (decimal_val b)"
proof -
  obtain sa va sb vb where ab: "a = (sa, va)" "b = (sb, vb)" by fastforce
  have shift: "decimal_val (sx, vx) = real_of_int (varint_val vx * 10 ^ unat (sy - sx)) * 10 powi (- sint sy)"
    if "sint sx < sint sy" for sx sy vx
  proof -
    have e: "- sint sx = int (unat (sy - sx)) + - sint sy" using unat_diff_signed [OF that] by simp
    have "(10 :: real) powi (- sint sx) = 10 ^ unat (sy - sx) * 10 powi (- sint sy)"
      by (subst e, subst power_int_add) (simp_all only: power_int_of_nat zero_neq_numeral [symmetric] simp_thms not_False_eq_True disj_not1)
    then show ?thesis by (simp add: decimal_val_def)
  qed
  consider "sa = sb" | "sint sb < sint sa" | "sint sa < sint sb" "sa \<noteq> sb" by (metis linorder_less_linear signed_word_eqI)
  then show ?thesis
  proof cases
    case 1
    then show ?thesis
      by (simp add: ab compare_decimal_def compare_varint_val decimal_val_def compare_scaled zero_less_power_int)
  next
    case 2
    then have "sa \<noteq> sb" by auto
    then have "compare_decimal a b = compare_scalar (varint_val va) (varint_val vb * 10 ^ unat (sa - sb))"
      using 2 by (simp add: ab compare_decimal_def compare_varint_val varint_val_scaled)
    also have "\<dots> = compare_scalar (decimal_val a) (decimal_val b)"
      unfolding ab shift [OF 2] by (simp only: decimal_val_def fst_conv snd_conv compare_scaled zero_less_power_int zero_less_numeral)
    finally show ?thesis .
  next
    case 3
    then have "compare_decimal a b = compare_scalar (varint_val va * 10 ^ unat (sb - sa)) (varint_val vb)"
      by (simp add: ab compare_decimal_def compare_varint_val varint_val_scaled)
    also have "\<dots> = compare_scalar (decimal_val a) (decimal_val b)"
      unfolding ab shift [OF 3(1)] by (simp only: decimal_val_def fst_conv snd_conv compare_scaled zero_less_power_int zero_less_numeral)
    finally show ?thesis .
  qed
qed


section \<open>Total preorders\<close>

text \<open>
  The contract of a three-way comparison: on its domain the sign of the result is that of a
  total preorder. Sorted containers rely on exactly this.
\<close>

locale three_way =
  fixes cmp :: "'a \<Rightarrow> 'a \<Rightarrow> int" and D :: "'a set"
  assumes range: "a \<in> D \<Longrightarrow> b \<in> D \<Longrightarrow> cmp a b \<in> {-1, 0, 1}"
    and flip: "a \<in> D \<Longrightarrow> b \<in> D \<Longrightarrow> cmp b a = - cmp a b"
    and le_trans: "a \<in> D \<Longrightarrow> b \<in> D \<Longrightarrow> c \<in> D \<Longrightarrow> cmp a b \<le> 0 \<Longrightarrow> cmp b c \<le> 0 \<Longrightarrow> cmp a c \<le> 0"
begin

lemma refl: "a \<in> D \<Longrightarrow> cmp a a = 0"
  using flip [of a a] by simp

lemma equal_cong:
  assumes "a \<in> D" "b \<in> D" "c \<in> D" "cmp a b = 0"
  shows "cmp a c = cmp b c"
proof -
  have ba: "cmp b a = 0" using assms flip [of a b] by simp
  have "cmp a c \<le> 0 \<longleftrightarrow> cmp b c \<le> 0"
    using assms ba le_trans [of b a c] le_trans [of a b c] by auto
  moreover have "cmp c a \<le> 0 \<longleftrightarrow> cmp c b \<le> 0"
    using assms ba le_trans [of c a b] le_trans [of c b a] by auto
  ultimately show ?thesis
    using assms flip [of a c] flip [of b c] range [of a c] range [of b c] by auto
qed

lemma lt_le_trans:
  assumes "a \<in> D" "b \<in> D" "c \<in> D" "cmp a b < 0" "cmp b c \<le> 0"
  shows "cmp a c < 0"
proof (rule ccontr)
  assume "\<not> cmp a c < 0"
  then have "cmp c a \<le> 0" using assms flip [of a c] by simp
  then have "cmp b a \<le> 0" using assms le_trans [of b c a] by simp
  then show False using assms flip [of a b] by simp
qed

end

text \<open>A comparison by a key in a linear order meets the contract.\<close>

lemma three_way_key:
  assumes "\<And>a b. a \<in> D \<Longrightarrow> b \<in> D \<Longrightarrow> cmp a b = compare_scalar (key a) (key b)"
  shows "three_way cmp D"
  by standard (auto simp: assms compare_scalar_def split: if_splits)

text \<open>The keys of the UUID orders.\<close>

definition timeuuid_key :: "bytes \<Rightarrow> u64 \<times> bytes" where
  "timeuuid_key u = (timeuuid_timestamp u, drop 8 u)"

definition uuid_key :: "bytes \<Rightarrow> u8 \<times> u64 \<times> bytes" where
  "uuid_key u = (let v = drop_bit 4 (u ! 6) AND 0x0F
     in (v, if v = 1 then timeuuid_key u else (0, u)))"

lemma compare_timeuuid_key: "compare_timeuuid a b = compare_scalar (timeuuid_key a) (timeuuid_key b)"
  by (auto simp: compare_timeuuid_def timeuuid_key_def compare_bytes_lexico compare_scalar_def Let_def)

lemma compare_uuid_key: "compare_uuid a b = compare_scalar (uuid_key a) (uuid_key b)"
  by (auto simp: compare_uuid_def uuid_key_def compare_timeuuid_key compare_bytes_lexico
      compare_scalar_def Let_def)

text \<open>The values a column of type \<open>t\<close> holds, where the type has an order.\<close>

definition ordered_values :: "basic \<Rightarrow> cv set" where
  "ordered_values t = (if t = BDuration then {} else {v. exact v t})"

definition cmp_at :: "basic \<Rightarrow> cv \<Rightarrow> cv \<Rightarrow> int" where
  "cmp_at t a b = the (compare_column_value a b t)"

lemma exact_cases:
  "exact v BBigint \<longleftrightarrow> (\<exists>x. v = CS64 x)" "exact v BTimestamp \<longleftrightarrow> (\<exists>x. v = CS64 x)"
  "exact v BCounter \<longleftrightarrow> (\<exists>x. v = CS64 x)" "exact v BTime \<longleftrightarrow> (\<exists>x. v = CS64 x)"
  "exact v BInt \<longleftrightarrow> (\<exists>x. v = CS32 x)" "exact v BDate \<longleftrightarrow> (\<exists>x. v = CS32 x)"
  "exact v BSmallint \<longleftrightarrow> (\<exists>x. v = CS16 x)"
  "exact v BTinyint \<longleftrightarrow> (\<exists>x. v = CU8 x)" "exact v BBoolean \<longleftrightarrow> (\<exists>x. v = CU8 x)"
  "exact v BDouble \<longleftrightarrow> (\<exists>x. v = CF64 x)" "exact v BFloat \<longleftrightarrow> (\<exists>x. v = CF32 x)"
  "exact v BText \<longleftrightarrow> (\<exists>x. v = CText x)" "exact v BVarchar \<longleftrightarrow> (\<exists>x. v = CText x)"
  "exact v BAscii \<longleftrightarrow> (\<exists>x. v = CText x)"
  "exact v BBlob \<longleftrightarrow> (\<exists>x. v = CBlob x)" "exact v BHex \<longleftrightarrow> (\<exists>x. v = CBlob x)"
  "exact v BUuid \<longleftrightarrow> (\<exists>x. v = CUuid x)" "exact v BTimeuuid \<longleftrightarrow> (\<exists>x. v = CUuid x)"
  "exact v BInet \<longleftrightarrow> (\<exists>b x. v = CInet b x)"
  "exact v BVarint \<longleftrightarrow> (\<exists>x. v = CVarInt x)" "exact v BDecimal \<longleftrightarrow> (\<exists>s x. v = CDecimal s x)"
  "exact v BDuration \<longleftrightarrow> (\<exists>m d n. v = CDuration m d n)" "exact v BCOUNT \<longleftrightarrow> False"
  by (cases v; simp add: is_literal_integer_family_def is_literal_float_family_def)+

fun int_key :: "cv \<Rightarrow> int" where
  "int_key (CS64 x) = sint x" | "int_key (CS32 x) = sint x" | "int_key (CS16 x) = sint x"
| "int_key (CU8 x) = sint x" | "int_key (CVarInt x) = varint_val x" | "int_key _ = 0"

fun bytes_key :: "cv \<Rightarrow> bytes" where
  "bytes_key (CText x) = x" | "bytes_key (CBlob x) = x" | "bytes_key (CInet _ x) = x"
| "bytes_key _ = []"

fun word_key :: "cv \<Rightarrow> u64" where
  "word_key (CF64 x) = f64_order_key x" | "word_key (CF32 x) = ucast (f32_order_key x)"
| "word_key (CU8 x) = ucast x" | "word_key _ = 0"

lemmas compare_defs = cmp_at_def compare_column_value_def cmp_s64_def cmp_s32_def cmp_text_def cmp_blob_def
  compare_varint_val compare_bytes_lexico compare_uuid_key compare_timeuuid_key compare_decimal_val

lemma compare_scalar_ucast:
  "compare_scalar (ucast (x :: u32) :: u64) (ucast y) = compare_scalar x y"
  "compare_scalar (ucast (a :: u8) :: u64) (ucast b) = compare_scalar a b"
  by (auto simp: compare_scalar_def word_less_nat_alt unsigned_ucast_eq take_bit_byte take_bit_word32)

lemma three_way_cmp_at: "three_way (cmp_at t) (ordered_values t)"
proof -
  consider (int) "t \<in> {BBigint, BTimestamp, BCounter, BTime, BInt, BDate, BSmallint, BTinyint, BVarint}"
    | (word) "t \<in> {BBoolean, BDouble, BFloat}"
    | (bytes) "t \<in> {BText, BVarchar, BAscii, BBlob, BHex, BInet}"
    | (uuid) "t = BUuid" | (timeuuid) "t = BTimeuuid" | (decimal) "t = BDecimal"
    | (none) "t \<in> {BDuration, BCOUNT}"
    by (cases t) simp_all
  then show ?thesis
  proof cases
    case int
    then show ?thesis
      by (intro three_way_key [where key = int_key])
        (auto simp: ordered_values_def compare_defs exact_cases split: if_splits)
  next
    case word
    then show ?thesis
      by (intro three_way_key [where key = word_key])
        (auto simp: ordered_values_def compare_defs exact_cases compare_scalar_ucast split: if_splits)
  next
    case bytes
    then show ?thesis
      by (intro three_way_key [where key = bytes_key])
        (auto simp: ordered_values_def compare_defs exact_cases split: if_splits)
  next
    case uuid
    then show ?thesis
      by (intro three_way_key [where key = "\<lambda>v. case v of CUuid u \<Rightarrow> uuid_key u | _ \<Rightarrow> undefined"])
        (auto simp: ordered_values_def compare_defs exact_cases)
  next
    case timeuuid
    then show ?thesis
      by (intro three_way_key [where key = "\<lambda>v. case v of CUuid u \<Rightarrow> timeuuid_key u | _ \<Rightarrow> undefined"])
        (auto simp: ordered_values_def compare_defs exact_cases)
  next
    case decimal
    then show ?thesis
      by (intro three_way_key [where key = "\<lambda>v. case v of CDecimal s x \<Rightarrow> decimal_val (s, x) | _ \<Rightarrow> 0"])
        (auto simp: ordered_values_def compare_defs exact_cases)
  next
    case none
    then show ?thesis
      by (intro three_way_key [where key = int_key]) (auto simp: ordered_values_def exact_cases split: if_splits)
  qed
qed

interpretation column: three_way "cmp_at t" "ordered_values t" for t
  by (rule three_way_cmp_at)


section \<open>Properties\<close>



text \<open>C11 Decimals and varints order by value. Whatever leading zeroes, sign of zero or scale they
  are written with, decimals compare as the rationals they denote: aligning the scales on
  byte strings, multiplying by ten with carries, is exact.\<close>

theorem decimal_order_numeric:
  "compare_column_value (CDecimal s x) (CDecimal s' y) BDecimal =
     Some (compare_scalar (decimal_val (s, x)) (decimal_val (s', y))) \<and>
   compare_column_value (CVarInt x) (CVarInt y) BVarint =
     Some (compare_scalar (varint_val x) (varint_val y))"
  by (simp add: compare_defs)

end
