(* ===== verification/Schema.thy ===== *)
theory Schema
  imports NestedCodec Compare
begin

text \<open>
  Tables as the engine keeps them in memory (\<open>cql/engine/schema.cppm\<close>,
  \<open>cql/engine/schema.cpp\<close>): columns, and the column index lists that are rebuilt whenever the
  columns change. The sorting library is third-party code and is the library's
  \<open>sort_key\<close> here; key positions and column names are distinct, so every correct sort gives the
  same list. \<open>cols_by_name\<close> is a map. The B-trees and the tables' place
  on disk are not part of this record.
\<close>

datatype key_kind = NoKey | PartitionKey | ClusteringKey
datatype sort_dir = ASC | DESC

record column =
  tombstone :: bool
  is_static :: bool
  col_name :: bytes
  col_type :: ctype
  key_kind :: key_kind
  key_position :: u16
  clustering_order :: sort_dir

type_synonym column_spec = "basic \<times> sort_dir"

datatype index_kind = IndexValues | IndexKeys | IndexEntries | IndexFull

record index =
  idx_tombstone :: bool
  idx_name :: bytes
  idx_col_idx :: nat
  idx_kind :: index_kind
  idx_key_specs :: "column_spec list"

record table =
  cols :: "column list"
  partition_key_col_indices :: "nat list"
  clustering_key_col_indices :: "nat list"
  static_col_indices :: "nat list"
  regular_col_indices :: "nat list"
  select_star_col_indices :: "nat list"
  cols_by_name :: "bytes \<Rightarrow> nat option"
  clustering_key_specs :: "column_spec list"
  indexes :: "index list"

definition basic_or_count :: "ctype \<Rightarrow> basic" where
  "basic_or_count t = (case t of TBasic b \<Rightarrow> b | _ \<Rightarrow> BCOUNT)"

definition live_cols :: "table \<Rightarrow> (column \<Rightarrow> bool) \<Rightarrow> nat list" where
  "live_cols tbl p = filter (\<lambda>ci. \<not> tombstone (cols tbl ! ci) \<and> p (cols tbl ! ci)) [0..<length (cols tbl)]"

definition name_index :: "table \<Rightarrow> bytes \<Rightarrow> nat option" where
  "name_index tbl =
     fold (\<lambda>ci m. m(col_name (cols tbl ! ci) \<mapsto> ci)) (live_cols tbl (\<lambda>_. True)) Map.empty"

definition rebuild_table_indices :: "table \<Rightarrow> table" where
  "rebuild_table_indices tbl =
     (let pk = sort_key (\<lambda>ci. key_position (cols tbl ! ci)) (live_cols tbl (\<lambda>c. key_kind c = PartitionKey));
          ck = sort_key (\<lambda>ci. key_position (cols tbl ! ci)) (live_cols tbl (\<lambda>c. key_kind c = ClusteringKey));
          st = sort_key (\<lambda>ci. col_name (cols tbl ! ci)) (live_cols tbl (\<lambda>c. key_kind c = NoKey \<and> is_static c));
          rg = sort_key (\<lambda>ci. col_name (cols tbl ! ci)) (live_cols tbl (\<lambda>c. key_kind c = NoKey \<and> \<not> is_static c))
      in tbl\<lparr>partition_key_col_indices := pk, clustering_key_col_indices := ck,
           static_col_indices := st, regular_col_indices := rg,
           select_star_col_indices := pk @ ck @ st @ rg, cols_by_name := name_index tbl,
           clustering_key_specs :=
             map (\<lambda>ci. (basic_or_count (col_type (cols tbl ! ci)), clustering_order (cols tbl ! ci))) ck\<rparr>)"

definition find_column :: "table \<Rightarrow> bytes \<Rightarrow> nat option" where
  "find_column tbl name = cols_by_name tbl name"

definition col_at :: "table \<Rightarrow> nat \<Rightarrow> column option" where
  "col_at tbl ci = (if ci < length (cols tbl) then Some (cols tbl ! ci) else None)"

text \<open>\<open>get<type::Basic>\<close> of the type of a column; any other alternative traps.\<close>

definition basic_at :: "table \<Rightarrow> nat \<Rightarrow> basic option" where
  "basic_at tbl ci = do { c \<leftarrow> col_at tbl ci; case col_type c of TBasic b \<Rightarrow> Some b | _ \<Rightarrow> None }"

section \<open>Specs of index keys\<close>

definition basic_of :: "ctype \<Rightarrow> basic option" where
  "basic_of t = (case t of TBasic b \<Rightarrow> Some b | _ \<Rightarrow> None)"

definition indexed_components :: "ctype \<Rightarrow> index_kind \<Rightarrow> basic list option" where
  "indexed_components t kind = (case t of
       TBasic b \<Rightarrow> Some [b]
     | TList e _ \<Rightarrow> do { b \<leftarrow> basic_of e; Some [b] }
     | TVector e _ _ \<Rightarrow> do { b \<leftarrow> basic_of e; Some [b] }
     | TSet e _ \<Rightarrow> do { b \<leftarrow> basic_of e; Some [b] }
     | TMap k v _ \<Rightarrow> (case kind of
           IndexValues \<Rightarrow> do { b \<leftarrow> basic_of v; Some [b] }
         | IndexKeys \<Rightarrow> do { b \<leftarrow> basic_of k; Some [b] }
         | IndexEntries \<Rightarrow> do { a \<leftarrow> basic_of k; b \<leftarrow> basic_of v; Some [a, b] }
         | IndexFull \<Rightarrow> None)
     | _ \<Rightarrow> None)"

definition make_index_key_specs :: "table \<Rightarrow> nat \<Rightarrow> index_kind \<Rightarrow> column_spec list option" where
  "make_index_key_specs tbl col_idx kind = do {
     c \<leftarrow> col_at tbl col_idx;
     vs \<leftarrow> indexed_components (col_type c) kind;
     pks \<leftarrow> map_opt (basic_at tbl) (partition_key_col_indices tbl);
     Some (map (\<lambda>b. (b, ASC)) (vs @ BBigint # pks) @ clustering_key_specs tbl)
   }"

section \<open>Lookups after a rebuild\<close>

lemma distinct_live_cols [simp]: "distinct (live_cols tbl p)"
  by (simp add: live_cols_def)

lemma set_live_cols: "ci \<in> set (live_cols tbl p) \<longleftrightarrow>
    ci < length (cols tbl) \<and> \<not> tombstone (cols tbl ! ci) \<and> p (cols tbl ! ci)"
  by (auto simp: live_cols_def)

lemma fold_name_index:
  assumes "distinct (map f xs)" "ci \<in> set xs"
  shows "fold (\<lambda>ci m. m(f ci \<mapsto> ci)) xs m (f ci) = Some ci"
  using assms
proof (induction xs arbitrary: m rule: rev_induct)
  case (snoc c xs)
  then show ?case by (cases "c = ci") (auto, metis image_eqI)
qed simp

lemma fold_name_index_None: "(\<forall>ci \<in> set xs. f ci \<noteq> n) \<Longrightarrow> fold (\<lambda>ci m. m(f ci \<mapsto> ci)) xs m n = m n"
  by (induction xs arbitrary: m) auto

definition distinct_names :: "table \<Rightarrow> bool" where
  "distinct_names tbl \<longleftrightarrow> distinct (map (\<lambda>ci. col_name (cols tbl ! ci)) (live_cols tbl (\<lambda>_. True)))"

lemma find_column_rebuild:
  assumes "distinct_names tbl" "ci < length (cols tbl)" "\<not> tombstone (cols tbl ! ci)"
  shows "find_column (rebuild_table_indices tbl) (col_name (cols tbl ! ci)) = Some ci"
  using assms fold_name_index [of "\<lambda>ci. col_name (cols tbl ! ci)" "live_cols tbl (\<lambda>_. True)" ci]
  by (simp add: find_column_def rebuild_table_indices_def Let_def name_index_def distinct_names_def set_live_cols)

text \<open>Every live column is in exactly one of the four groups that \<open>SELECT *\<close> lists.\<close>

lemma select_star_permutation:
  "distinct (select_star_col_indices (rebuild_table_indices tbl)) \<and>
   set (select_star_col_indices (rebuild_table_indices tbl)) = set (live_cols tbl (\<lambda>_. True))"
proof -
  have "key_kind c = NoKey \<longleftrightarrow> key_kind c \<noteq> PartitionKey \<and> key_kind c \<noteq> ClusteringKey" for c :: column
    by (cases "key_kind c") auto
  then show ?thesis
    by (auto simp: rebuild_table_indices_def Let_def set_live_cols distinct_sort)
qed

end
