(* ===== verification/Terms.thy ===== *)
theory Terms
  imports Schema
begin

text \<open>
  The terms of CQL statements (\<open>cql/engine/statements.cppm\<close>) and what they evaluate to
  (\<open>Evaluated\<close> in \<open>cql/engine/evaluator.cppm\<close>), and the resolution of a scalar literal against
  the type of a column (\<open>cql/engine/io.evaluator.cpp\<close>).

  A term is the tree it is in the code; the two constructors of an arithmetic operation are two
  constructors of the term. Floating-point arithmetic is a parameter, \<open>fpu\<close>: the
  operations of the processor on bit patterns.
\<close>

record fpu =
  f_add :: "u64 \<Rightarrow> u64 \<Rightarrow> u64"
  f_sub :: "u64 \<Rightarrow> u64 \<Rightarrow> u64"
  f_mul :: "u64 \<Rightarrow> u64 \<Rightarrow> u64"
  f_div :: "u64 \<Rightarrow> u64 \<Rightarrow> u64"
  f_neg :: "u64 \<Rightarrow> u64"
  f_less :: "u64 \<Rightarrow> u64 \<Rightarrow> bool"
  f_of_s64 :: "u64 \<Rightarrow> u64"
  f_widen :: "u32 \<Rightarrow> u64"
  f_narrow :: "u64 \<Rightarrow> u32"

text \<open>A floating-point unit for the examples: it computes with the patterns as integers.\<close>

definition example_fpu :: fpu where
  "example_fpu = \<lparr>f_add = (+), f_sub = (-), f_mul = (*), f_div = (div), f_neg = uminus, f_less = (<),
     f_of_s64 = (\<lambda>x. x), f_widen = ucast, f_narrow = ucast\<rparr>"

datatype literal =
    LText bytes | LInt u64 | LBool bool | LFloat u64 | LNull | LUuid bytes | LHex bytes
  | LBlob bytes | LDuration u32 u32 u64 | LUnset

datatype arith_op = Plus | Minus | Times | Divide | Mod

datatype ast_type =
    ABasic basic | AList ast_type bool | ASet ast_type bool | AMap ast_type ast_type bool
  | AVector ast_type u64 bool | ATuple "ast_type list" bool | AUdt bytes bytes bool

datatype trm =
    Lit literal
  | Bind bytes
  | MapLit "(trm \<times> trm) list"
  | SetLit "trm list"
  | ListLit "trm list"
  | UdtLit "(bytes \<times> trm) list"
  | TupleLit "trm list"
  | FunctionCall bytes "trm list"
  | UnaryMinus trm
  | Arith trm arith_op trm
  | TypeHint ast_type trm
  | Value cv

text \<open>A term of a projection may also name a column.\<close>

datatype trm_id =
    Plain trm
  | Column bytes
  | IdMinus trm_id
  | IdArith trm_id arith_op trm_id

datatype evaluated =
    ELit literal
  | EMap "(trm \<times> trm) list"
  | ESet "trm list"
  | EList "trm list"
  | EUdt "(bytes \<times> trm) list"
  | ETuple "trm list"
  | ECol cv

datatype operator = OpEq | OpLt | OpGt | OpLe | OpGe | OpNe | OpIn | OpContains | OpContainsKey

datatype relation =
    ColumnRelation bytes operator trm
  | TupleRelation "bytes list" operator "trm list"
  | TokenRelation "bytes list" operator trm
  | SubscriptedRelation bytes trm operator trm

section \<open>Relations over tuples (\<open>cql/engine/statements.cpp\<close>)\<close>

definition is_inequality :: "operator \<Rightarrow> bool" where
  "is_inequality op \<longleftrightarrow> op = OpLt \<or> op = OpLe \<or> op = OpGt \<or> op = OpGe"

definition tuple_rhs_is_single_value :: "bytes list \<Rightarrow> trm list \<Rightarrow> bool" where
  "tuple_rhs_is_single_value columns rhs \<longleftrightarrow>
     (case rhs of
        [TupleLit es] \<Rightarrow> length columns > 1 \<and> length es = length columns
      | _ \<Rightarrow> False)"

definition tuple_rhs_is_compatible :: "bytes list \<Rightarrow> trm list \<Rightarrow> bool" where
  "tuple_rhs_is_compatible columns rhs \<longleftrightarrow>
     (length columns > 0 \<and> length columns = length rhs) \<or> tuple_rhs_is_single_value columns rhs"

definition tuple_value_at :: "bytes list \<Rightarrow> trm list \<Rightarrow> nat \<Rightarrow> trm option" where
  "tuple_value_at columns rhs i =
     (if length rhs = length columns then if i < length rhs then Some (rhs ! i) else None
      else case rhs of
          TupleLit es # _ \<Rightarrow> if i < length es then Some (es ! i) else None
        | _ \<Rightarrow> None)"

section \<open>Scalar literals as column values\<close>

definition narrow_f64_literal :: "fpu \<Rightarrow> u64 \<Rightarrow> basic \<Rightarrow> cv" where
  "narrow_f64_literal fp v dtype = (if dtype = BFloat then CF32 (f_narrow fp v) else CF64 v)"

fun can_write_literal :: "literal \<Rightarrow> basic \<Rightarrow> bool" where
  "can_write_literal (LInt _) t \<longleftrightarrow> is_literal_integer_family t"
| "can_write_literal (LFloat _) t \<longleftrightarrow> is_literal_float_family t"
| "can_write_literal (LBool _) t \<longleftrightarrow> t = BBoolean"
| "can_write_literal LNull t \<longleftrightarrow> True"
| "can_write_literal LUnset t \<longleftrightarrow> False"
| "can_write_literal (LHex _) t \<longleftrightarrow> t = BHex"
| "can_write_literal (LText _) t \<longleftrightarrow> t = BText \<or> t = BVarchar \<or> t = BAscii"
| "can_write_literal (LBlob _) t \<longleftrightarrow> t = BBlob \<or> t = BHex"
| "can_write_literal (LUuid _) t \<longleftrightarrow> t = BUuid \<or> t = BTimeuuid"
| "can_write_literal (LDuration _ _ _) t \<longleftrightarrow> t = BDuration"

definition resolve_literal_scalar :: "fpu \<Rightarrow> literal \<Rightarrow> ctype \<Rightarrow> cv option" where
  "resolve_literal_scalar fp lit ctyp = (case ctyp of
       TBasic b \<Rightarrow>
         (if \<not> can_write_literal lit b then None
          else case lit of
              LNull \<Rightarrow> Some CNull
            | LInt v \<Rightarrow> Some (narrow_s64_literal v b)
            | LBool x \<Rightarrow> Some (CU8 (if x then 1 else 0))
            | LFloat v \<Rightarrow> Some (narrow_f64_literal fp v b)
            | LText s \<Rightarrow> Some (CText s)
            | LUuid u \<Rightarrow> Some (CUuid u)
            | LBlob s \<Rightarrow> Some (CBlob s)
            | LHex s \<Rightarrow> Some (CBlob s)
            | LDuration m d n \<Rightarrow> Some (CDuration m d n)
            | LUnset \<Rightarrow> None)
     | _ \<Rightarrow> None)"

text \<open>A resolved literal has the type of the column, or is null.\<close>

lemma resolve_literal_exact:
  "resolve_literal_scalar fp lit (TBasic b) = Some v \<Longrightarrow> v = CNull \<or> exact v b"
  by (cases lit) (auto simp: resolve_literal_scalar_def narrow_s64_literal_def narrow_f64_literal_def
      is_literal_integer_family_def is_literal_float_family_def split: if_splits)

end
