(* ===== verification/Token.thy ===== *)
theory Token
  imports Compare
begin

text \<open>
  Partition tokens (\<open>cql/engine/token.cpp\<close>): Cassandra's variant of Murmur3 in one pass and
  incrementally, the order-preserving encoding of tokens, and the encoding of partition key
  components (\<open>generated/token_wire.cpp\<close>).
\<close>

section \<open>Murmur3\<close>

definition rotl64 :: "u64 \<Rightarrow> nat \<Rightarrow> u64" where
  "rotl64 x r = push_bit r x OR drop_bit (64 - r) x"

definition fmix64 :: "u64 \<Rightarrow> u64" where
  "fmix64 k =
     (let k = k XOR drop_bit 33 k; k = k * 0xff51afd7ed558ccd;
          k = k XOR drop_bit 33 k; k = k * 0xc4ceb9fe1a85ec53
      in k XOR drop_bit 33 k)"

definition load64_le :: "bytes \<Rightarrow> u64" where
  "load64_le p = word_at (take 8 p)"

definition C1 :: u64 where "C1 = 0x87c37b91114253d5"
definition C2 :: u64 where "C2 = 0x4cf5ad432745937f"

definition process_block :: "u64 \<times> u64 \<Rightarrow> bytes \<Rightarrow> u64 \<times> u64" where
  "process_block h block =
     (let (h1, h2) = h;
          k1 = load64_le block; k2 = load64_le (drop 8 block);
          k1 = rotl64 (k1 * C1) 31 * C2;
          h1 = rotl64 (h1 XOR k1) 27 + h2;
          h1 = h1 * 5 + 0x52dce729;
          k2 = rotl64 (k2 * C2) 33 * C1;
          h2 = rotl64 (h2 XOR k2) 31 + h1;
          h2 = h2 * 5 + 0x38495ab5
      in (h1, h2))"

text \<open>A tail byte is widened with its sign.\<close>

definition sx :: "u8 \<Rightarrow> u64" where
  "sx b = word_of_int (sint b)"

text \<open>
  The fall-through switch on the tail length mixes the bytes from the last one down to byte
  8 into \<open>k2\<close> and the rest into \<open>k1\<close>.
\<close>

definition tail_bytes :: "bytes \<Rightarrow> nat \<Rightarrow> nat \<Rightarrow> u64" where
  "tail_bytes tail lo hi = fold (\<lambda>i k. k XOR push_bit (8 * (i - lo)) (sx (tail ! i))) (rev [lo..<hi]) 0"

definition process_tail :: "u64 \<times> u64 \<Rightarrow> bytes \<Rightarrow> nat \<Rightarrow> u64 \<times> u64" where
  "process_tail h tail tail_len =
     (let (h1, h2) = h;
          k2 = tail_bytes tail 8 tail_len;
          h2 = (if 9 \<le> tail_len then h2 XOR rotl64 (k2 * C2) 33 * C1 else h2);
          k1 = tail_bytes tail 0 (min 8 tail_len);
          h1 = (if 1 \<le> tail_len then h1 XOR rotl64 (k1 * C1) 31 * C2 else h1)
      in if tail_len \<le> 15 then (h1, h2) else h)"

definition finalize_hash :: "u64 \<times> u64 \<Rightarrow> u64 \<Rightarrow> u64" where
  "finalize_hash h total_len =
     (let (h1, h2) = h;
          h1 = h1 XOR total_len; h2 = h2 XOR total_len;
          h1 = h1 + h2; h2 = h2 + h1;
          h1 = fmix64 h1; h2 = fmix64 h2
      in h1 + h2)"

text \<open>The blocks of 16 bytes of a buffer, one after the other.\<close>

function process_blocks :: "u64 \<times> u64 \<Rightarrow> bytes \<Rightarrow> (u64 \<times> u64) \<times> bytes" where
  "process_blocks h data =
     (if 16 \<le> length data then process_blocks (process_block h data) (drop 16 data) else (h, data))"
  by pat_completeness auto
termination by (relation "measure (\<lambda>(h, data). length data)") auto

declare process_blocks.simps [simp del]

definition cassandra_murmur3 :: "bytes \<Rightarrow> u64" where
  "cassandra_murmur3 data =
     (let nblocks = length data div 16;
          h = fold (\<lambda>i h. process_block h (drop (i * 16) data)) [0..<nblocks] (0, 0);
          h = process_tail h (drop (nblocks * 16) data) (length data mod 16)
      in finalize_hash h (word_of_nat (length data)))"

definition MIN_TOKEN :: u64 where "MIN_TOKEN = 0x8000000000000000"
definition MAX_TOKEN :: u64 where "MAX_TOKEN = 0x7FFFFFFFFFFFFFFF"

definition murmur3_token :: "bytes \<Rightarrow> u64" where
  "murmur3_token data =
     (let tok = cassandra_murmur3 data in if tok = MIN_TOKEN then MAX_TOKEN else tok)"

section \<open>The incremental state\<close>

record murmur3_state =
  hashes :: "u64 \<times> u64"
  total_len :: u64
  carry :: bytes
  carry_len :: nat

definition initial_state :: murmur3_state where
  "initial_state = \<lparr>hashes = (0, 0), total_len = 0, carry = replicate 16 0, carry_len = 0\<rparr>"

definition copy_into :: "nat \<Rightarrow> bytes \<Rightarrow> bytes \<Rightarrow> bytes" where
  "copy_into i xs buf = take i buf @ xs @ drop (i + length xs) buf"

definition fill_carry :: "murmur3_state \<Rightarrow> bytes \<Rightarrow> murmur3_state \<times> bytes" where
  "fill_carry s data =
     (if carry_len s > 0 then
        let need = 16 - carry_len s;
            tk = (if length data < need then length data else need);
            c = copy_into (carry_len s) (take tk data) (carry s);
            s = s\<lparr>carry := c, carry_len := carry_len s + tk\<rparr>
        in (if carry_len s = 16 then s\<lparr>hashes := process_block (hashes s) c, carry_len := 0\<rparr> else s,
            drop tk data)
      else (s, data))"

definition update :: "murmur3_state \<Rightarrow> bytes \<Rightarrow> murmur3_state" where
  "update s data =
     (let s = s\<lparr>total_len := total_len s + word_of_nat (length data)\<rparr>;
          (s, data) = fill_carry s data;
          (h, data) = process_blocks (hashes s) data;
          s = s\<lparr>hashes := h\<rparr>
      in if length data > 0 then
           s\<lparr>carry := copy_into (carry_len s) data (carry s), carry_len := carry_len s + length data\<rparr>
         else s)"

definition finalize :: "murmur3_state \<Rightarrow> u64" where
  "finalize s =
     (let h = process_tail (hashes s) (carry s) (carry_len s);
          tok = finalize_hash h (total_len s)
      in if tok = MIN_TOKEN then MAX_TOKEN else tok)"

section \<open>Tokens as keys\<close>

definition encode_token_be :: "u64 \<Rightarrow> bytes" where
  "encode_token_be token =
     (let bits = token XOR 0x8000000000000000
      in [ucast (drop_bit 56 bits), ucast (drop_bit 48 bits), ucast (drop_bit 40 bits),
          ucast (drop_bit 32 bits), ucast (drop_bit 24 bits), ucast (drop_bit 16 bits),
          ucast (drop_bit 8 bits), ucast (bits AND 0xFF)])"

definition decode_token_be :: "bytes \<Rightarrow> u64" where
  "decode_token_be src =
     fold (\<lambda>i bits. push_bit 8 bits OR ucast (src ! i)) [0..<8] 0 XOR 0x8000000000000000"

section \<open>Partition key components\<close>

text \<open>A component of a composite key has its length, cut to 16 bits, in front and a zero behind.\<close>

definition framed :: "bool \<Rightarrow> nat \<Rightarrow> bytes \<Rightarrow> bytes" where
  "framed is_composite len xs =
     (if is_composite then be_bytes 2 len @ xs @ [0] else xs)"

definition write_component :: "cv \<Rightarrow> basic \<Rightarrow> bool \<Rightarrow> bytes option" where
  "write_component v dtype is_composite = do {
     assert_true (v = CNull \<or> is_basic v \<and> can_write_basic v dtype);
     case v of
       CS16 x \<Rightarrow> Some (framed is_composite 2 (be_bytes 2 (unat x)))
     | CS32 x \<Rightarrow> Some (framed is_composite 4 (be_bytes 4 (unat x)))
     | CS64 x \<Rightarrow> Some (framed is_composite 8 (be_bytes 8 (unat x)))
     | CU8 x \<Rightarrow> Some (framed is_composite 1 [x])
     | CF32 x \<Rightarrow> Some (framed is_composite 4 (be_bytes 4 (unat x)))
     | CF64 x \<Rightarrow> Some (framed is_composite 8 (be_bytes 8 (unat x)))
     | CText s \<Rightarrow> Some (framed is_composite (length s) s)
     | CBlob s \<Rightarrow> Some (framed is_composite (length s) s)
     | CUuid u \<Rightarrow> Some (framed is_composite 16 u)
     | _ \<Rightarrow> None
   }"

section \<open>One pass and many\<close>

lemma process_block_prefix: "16 \<le> length d \<Longrightarrow> process_block h (d @ e) = process_block h d"
  by (simp add: process_block_def load64_le_def)

lemma process_blocks_short: "length d < 16 \<Longrightarrow> process_blocks h d = (h, d)"
  by (simp add: process_blocks.simps [of h d])

lemma process_blocks_step:
  "16 \<le> length d \<Longrightarrow> process_blocks h d = process_blocks (process_block h d) (drop 16 d)"
  by (simp add: process_blocks.simps [of h d])

lemma process_blocks_append:
  "process_blocks h (d @ e) = process_blocks (fst (process_blocks h d)) (snd (process_blocks h d) @ e)"
proof (induction h d rule: process_blocks.induct)
  case (1 h d)
  show ?case
  proof (cases "16 \<le> length d")
    case True
    then have "process_blocks h (d @ e) = process_blocks (process_block h d) (drop 16 d @ e)"
      by (simp add: process_blocks_step process_block_prefix)
    then show ?thesis using 1 [OF True] True by (simp add: process_blocks_step [of d])
  qed (simp add: process_blocks_short)
qed

lemma process_blocks_rest: "length (snd (process_blocks h d)) < 16"
  by (induction h d rule: process_blocks.induct) (subst process_blocks.simps, auto)

lemma process_blocks_fold:
  "process_blocks h d =
    (fold (\<lambda>i h. process_block h (drop (i * 16) d)) [0..<length d div 16] h, drop (length d div 16 * 16) d)"
proof (induction h d rule: process_blocks.induct)
  case (1 h d)
  show ?case
  proof (cases "16 \<le> length d")
    case True
    then have n: "length d div 16 = Suc ((length d - 16) div 16)" by (simp add: le_div_geq)
    have "fold (\<lambda>i h. process_block h (drop (i * 16) d)) [0..<length d div 16] h =
      fold (\<lambda>i h. process_block h (drop (Suc i * 16) d)) [0..<(length d - 16) div 16] (process_block h d)"
      unfolding n upt_conv_Cons [OF zero_less_Suc] map_Suc_upt [symmetric] by (simp add: fold_map o_def)
    then show ?thesis
      using 1 [OF True] by (simp add: process_blocks_step True n add.commute)
  qed (simp add: process_blocks_short)
qed

lemma process_tail_cong:
  assumes "take n t = take n t'" shows "process_tail h t n = process_tail h t' n"
proof -
  have "t ! i = t' ! i" if "i < n" for i using assms that by (metis nth_take)
  then have "tail_bytes t lo hi = tail_bytes t' lo hi" if "hi \<le> n" for lo hi
    unfolding tail_bytes_def using that by (intro fold_cong) auto
  then show ?thesis by (simp add: process_tail_def Let_def split_def)
qed

text \<open>The state after the bytes \<open>d\<close>.\<close>

definition absorbed :: "bytes \<Rightarrow> murmur3_state \<Rightarrow> bool" where
  "absorbed d s \<longleftrightarrow>
     process_blocks (0, 0) d = (hashes s, take (carry_len s) (carry s)) \<and>
     carry_len s < 16 \<and> length (carry s) = 16 \<and> total_len s = word_of_nat (length d)"

lemma absorbed_initial: "absorbed [] initial_state"
  by (simp add: absorbed_def initial_state_def process_blocks_short)

lemma length_copy_into: "i + length xs \<le> length buf \<Longrightarrow> length (copy_into i xs buf) = length buf"
  and take_copy_into: "i \<le> length buf \<Longrightarrow> take (i + length xs) (copy_into i xs buf) = take i buf @ xs"
  by (simp_all add: copy_into_def)

lemma fill_carry_absorbs:
  assumes "absorbed d s" "fill_carry s data = (s', rest)"
  shows "process_blocks (0, 0) (d @ data) = process_blocks (hashes s') (take (carry_len s') (carry s') @ rest) \<and>
    carry_len s' < 16 \<and> length (carry s') = 16 \<and> total_len s' = total_len s \<and> (rest \<noteq> [] \<longrightarrow> carry_len s' = 0)"
proof -
  let ?c = "take (carry_len s) (carry s)"
  have s: "process_blocks (0, 0) (d @ data) = process_blocks (hashes s) (?c @ data)" "carry_len s < 16"
    "length (carry s) = 16"
    using assms(1) by (simp_all add: absorbed_def process_blocks_append [of _ d])
  consider (empty) "carry_len s = 0" | (part) "0 < carry_len s" "carry_len s + length data < 16"
    | (full) "0 < carry_len s" "16 \<le> carry_len s + length data" by linarith
  then show ?thesis
  proof cases
    case empty
    then show ?thesis using assms(2) s by (simp add: fill_carry_def)
  next
    case part
    then have "s' = s\<lparr>carry := copy_into (carry_len s) data (carry s), carry_len := carry_len s + length data\<rparr>"
      "rest = []"
      using assms(2) by (auto simp: fill_carry_def Let_def)
    then show ?thesis using s part by (simp add: length_copy_into take_copy_into)
  next
    case full
    let ?n = "16 - carry_len s"
    let ?b = "copy_into (carry_len s) (take ?n data) (carry s)"
    have n: "(if length data < ?n then length data else ?n) = ?n" using full by auto
    have s': "s' = s\<lparr>carry := ?b, hashes := process_block (hashes s) ?b, carry_len := 0\<rparr>" "rest = drop ?n data"
      using assms(2) full s(2) by (auto simp: fill_carry_def Let_def n)
    have b: "?b = ?c @ take ?n data" "length ?b = 16"
      using s(2,3) full by (simp_all add: copy_into_def)
    have "process_blocks (hashes s) (?c @ data) = process_blocks (process_block (hashes s) ?b) (drop ?n data)"
    proof -
      have "?c @ data = ?b @ drop ?n data" by (simp add: b(1))
      then show ?thesis using b(2) by (simp add: process_blocks_step process_block_prefix)
    qed
    then show ?thesis using s s' b(2) by simp
  qed
qed

lemma update_absorbs:
  assumes "absorbed d s" shows "absorbed (d @ data) (update s data)"
proof -
  let ?s = "s\<lparr>total_len := total_len s + word_of_nat (length data)\<rparr>"
  obtain s1 rest where f: "fill_carry ?s data = (s1, rest)" by fastforce
  obtain f0 rest0 where f0: "fill_carry s data = (f0, rest0)" by fastforce
  have s1: "s1 = f0\<lparr>total_len := total_len ?s\<rparr>" "rest = rest0"
    using f f0 by (auto simp: fill_carry_def Let_def split: if_splits)
  note a = fill_carry_absorbs [OF assms f0]
  obtain h r where b: "process_blocks (hashes s1) rest = (h, r)" by fastforce
  have r: "length r < 16" using process_blocks_rest [of "hashes s1" rest] b by simp
  show ?thesis
  proof (cases "rest = []")
    case True
    then have "h = hashes s1" "r = []" using b by (simp_all add: process_blocks_short)
    then show ?thesis using a s1 f b True assms
      by (simp add: update_def absorbed_def Let_def process_blocks_short)
  next
    case False
    then have c: "carry_len s1 = 0" using a s1 by simp
    then show ?thesis using a s1 f b r assms
      by (auto simp: update_def absorbed_def Let_def copy_into_def)
  qed
qed

lemma finalize_absorbed: "absorbed d s \<Longrightarrow> finalize s = murmur3_token d"
proof -
  assume s: "absorbed d s"
  have b: "process_blocks (0, 0) d = (fold (\<lambda>i h. process_block h (drop (i * 16) d)) [0..<length d div 16] (0, 0),
      drop (length d div 16 * 16) d)"
    by (rule process_blocks_fold)
  then have h: "hashes s = fold (\<lambda>i h. process_block h (drop (i * 16) d)) [0..<length d div 16] (0, 0)"
    and c: "take (carry_len s) (carry s) = drop (length d div 16 * 16) d"
    using s by (simp_all add: absorbed_def)
  have "length (take (carry_len s) (carry s)) = length d mod 16"
    by (simp only: c length_drop) (simp add: minus_div_mult_eq_mod)
  then have n: "carry_len s = length d mod 16" using s by (simp add: absorbed_def)
  have "process_tail (hashes s) (carry s) (carry_len s) =
    process_tail (hashes s) (drop (length d div 16 * 16) d) (length d mod 16)"
    unfolding n using c n by (intro process_tail_cong) (simp add: minus_div_mult_eq_mod)
  then show ?thesis using s h
    by (simp add: finalize_def murmur3_token_def cassandra_murmur3_def absorbed_def Let_def)
qed

lemma fold_update: "finalize (fold (\<lambda>c s. update s c) cs initial_state) = murmur3_token (concat cs)"
proof -
  have "absorbed (d @ concat cs) (fold (\<lambda>c s. update s c) cs s)" if "absorbed d s" for d s
    using that by (induction cs arbitrary: d s) (auto dest: update_absorbs simp flip: append_assoc)
  from this [OF absorbed_initial] show ?thesis by (simp add: finalize_absorbed)
qed

section \<open>Token keys\<close>

lemma ucast_byte: "(ucast (drop_bit n w) :: u8) = word_of_nat (unat w div 2 ^ n mod 256)" for w :: u64
  by (rule word_unat_eq_iff [THEN iffD2])
    (simp only: unat_byte, simp add: unsigned_ucast_eq take_bit_eq_mod flip: unat_drop_bit_div)

lemma encode_token_be_bytes: "encode_token_be t = be_bytes 8 (unat (t XOR 0x8000000000000000))"
proof -
  have m: "(0xFF :: u64) = mask 8" by (simp add: mask_numeral)
  have low: "(ucast (w AND 0xFF) :: u8) = ucast (drop_bit 0 w)" for w :: u64
    unfolding m by (rule bit_word_eqI) (auto simp: bit_simps)
  have eight: "(8 :: nat) = Suc (Suc (Suc (Suc (Suc (Suc (Suc (Suc 0)))))))" by simp
  have le: "le_bytes 8 x = [word_of_nat (x div 2 ^ 0 mod 256), word_of_nat (x div 2 ^ 8 mod 256),
    word_of_nat (x div 2 ^ 16 mod 256), word_of_nat (x div 2 ^ 24 mod 256), word_of_nat (x div 2 ^ 32 mod 256),
    word_of_nat (x div 2 ^ 40 mod 256), word_of_nat (x div 2 ^ 48 mod 256), word_of_nat (x div 2 ^ 56 mod 256)]" for x
    by (subst eight) (simp add: div_mult2_eq [symmetric])
  show ?thesis
    unfolding encode_token_be_def Let_def be_bytes_def le low ucast_byte by simp
qed

lemma xor_sign: "t XOR 0x8000000000000000 = t + (0x8000000000000000 :: u64)"
proof -
  obtain c :: u64 where c: "c = 2 ^ 63" by simp
  have bit_c: "bit c n \<longleftrightarrow> n = 63" for n unfolding c bit_exp_iff by auto
  have add: "y + c = y OR c" if "\<not> bit y 63" for y :: u64
    using that by (intro disjunctive_add) (auto simp: bit_c)
  have "t XOR c = t + c"
  proof (cases "bit t 63")
    case False
    have "t XOR c = t OR c"
      using False by (intro bit_word_eqI) (auto simp: bit_simps bit_c)
    then show ?thesis using add [OF False] by simp
  next
    case True
    have y: "\<not> bit (t XOR c) 63" using True by (simp add: bit_xor_iff bit_c)
    have "(t XOR c) OR c = t"
      using True by (intro bit_word_eqI) (auto simp: bit_simps bit_c)
    then have "t + c = (t XOR c) + c + c" using add [OF y] by simp
    also have "\<dots> = (t XOR c) + (c + c)" by (simp only: add.assoc)
    also have "c + c = 0" by (simp add: c)
    finally show ?thesis by simp
  qed
  then show ?thesis by (simp add: c)
qed

lemma sign_flip: "int (unat (t XOR 0x8000000000000000)) = sint (t :: u64) + 2 ^ 63"
proof -
  have "sint t = (uint t + 2 ^ 63) mod 2 ^ 64 - 2 ^ 63"
    by (simp add: sint_uint signed_take_bit_eq_take_bit_shift take_bit_eq_mod)
  moreover have "uint (t + 0x8000000000000000) = (uint t + 2 ^ 63) mod 2 ^ 64"
    by (simp add: uint_word_ariths(1))
  ultimately show ?thesis by (simp add: xor_sign)
qed

lemma encode_token_order: "compare_bytes (encode_token_be a) (encode_token_be b) = compare_scalar (sint a) (sint b)"
proof -
  have n: "be_nat (encode_token_be t) = unat (t XOR 0x8000000000000000)" for t
    using unsigned_less [of "t XOR 0x8000000000000000", where ?'a = nat]
    by (simp add: encode_token_be_bytes be_nat_be_bytes)
  have l: "length (encode_token_be t) = 8" for t by (simp add: encode_token_be_bytes)
  have "compare_bytes (encode_token_be a) (encode_token_be b) =
    compare_scalar (be_nat (encode_token_be a)) (be_nat (encode_token_be b))"
    using memory_compare_be [of "encode_token_be a" "encode_token_be b"]
    by (auto simp: compare_bytes_def l Let_def)
  also have "\<dots> = compare_scalar (sint a) (sint b)"
  proof -
    have "compare_scalar x y = compare_scalar (int x + k) (int y + k)" for x y k
      by (auto simp: compare_scalar_def)
    from this [of _ _ "- (2 ^ 63)"] show ?thesis unfolding n by (simp only: sign_flip) simp
  qed
  finally show ?thesis .
qed

lemma push_byte: "push_bit 8 w OR ucast b = w * 256 + (ucast (b :: u8) :: u64)"
proof -
  have "\<not> bit (push_bit 8 w) n \<or> \<not> bit (ucast b :: u64) n" for n
    by (auto simp: bit_simps dest: bit_imp_le_length)
  then have "push_bit 8 w + ucast b = push_bit 8 w OR (ucast b :: u64)" by (rule disjunctive_add)
  then show ?thesis by (simp add: push_bit_eq_mult)
qed

lemma decode_token_be_nat:
  assumes "length src = 8"
  shows "decode_token_be src = word_of_nat (be_nat src) XOR 0x8000000000000000"
proof -
  have "fold (\<lambda>i bits. push_bit 8 bits OR ucast (src ! i)) [0..<n] 0 = (word_of_nat (be_nat (take n src)) :: u64)"
    if "n \<le> length src" for n
    using that
  proof (induction n)
    case (Suc n)
    then show ?case by (simp add: push_byte take_Suc_conv_app_nth be_nat_snoc)
  qed simp
  from this [of 8] show ?thesis using assms by (simp add: decode_token_be_def)
qed

lemma decode_encode_token: "decode_token_be (encode_token_be t) = t"
proof -
  have "be_nat (encode_token_be t) = unat (t XOR 0x8000000000000000)"
    using unsigned_less [of "t XOR 0x8000000000000000", where ?'a = nat]
    by (simp add: encode_token_be_bytes be_nat_be_bytes)
  moreover have "length (encode_token_be t) = 8" by (simp add: encode_token_be_bytes)
  ultimately show ?thesis by (simp add: decode_token_be_nat xor.assoc)
qed


section \<open>Partition key components\<close>

text \<open>The values a partition key column of type \<open>t\<close> can hold: no type whose encoding is missing.\<close>

definition key_value :: "basic \<Rightarrow> cv \<Rightarrow> bool" where
  "key_value t v \<longleftrightarrow> exact v t \<and> wf_basic v \<and> t \<notin> {BInet, BVarint, BDecimal, BDuration} \<and>
     (\<forall>s. v = CText s \<or> v = CBlob s \<longrightarrow> length s < 2 ^ 16)"

fun key_payload :: "cv \<Rightarrow> bytes" where
  "key_payload (CS16 x) = be_bytes 2 (unat x)" | "key_payload (CS32 x) = be_bytes 4 (unat x)"
| "key_payload (CS64 x) = be_bytes 8 (unat x)" | "key_payload (CU8 x) = [x]"
| "key_payload (CF32 x) = be_bytes 4 (unat x)" | "key_payload (CF64 x) = be_bytes 8 (unat x)"
| "key_payload (CText s) = s" | "key_payload (CBlob s) = s" | "key_payload (CUuid u) = u" | "key_payload _ = []"

lemma write_component_framed:
  assumes "key_value t v"
  shows "write_component v t c = Some (framed c (length (key_payload v)) (key_payload v)) \<and> length (key_payload v) < 2 ^ 16"
  using assms exact_can_write [of v t] exact_is_basic [of v t]
  by (cases v) (auto simp: write_component_def key_value_def)

lemma be_bytes_inj: "x < 256 ^ n \<Longrightarrow> y < 256 ^ n \<Longrightarrow> be_bytes n x = be_bytes n y \<Longrightarrow> x = y"
  by (metis be_nat_be_bytes mod_less)

lemma be_bytes_word_inj:
  "be_bytes 2 (unat a) = be_bytes 2 (unat (b :: u16)) \<longleftrightarrow> a = b"
  "be_bytes 4 (unat c) = be_bytes 4 (unat (d :: u32)) \<longleftrightarrow> c = d"
  "be_bytes 8 (unat e) = be_bytes 8 (unat (f :: u64)) \<longleftrightarrow> e = f"
  using unsigned_less [of a, where ?'a = nat] unsigned_less [of b, where ?'a = nat]
    unsigned_less [of c, where ?'a = nat] unsigned_less [of d, where ?'a = nat]
    unsigned_less [of e, where ?'a = nat] unsigned_less [of f, where ?'a = nat]
  by (auto dest!: be_bytes_inj [rotated 2] simp: word_unat_eq_iff)

lemma key_payload_inj: "key_value t v \<Longrightarrow> key_value t w \<Longrightarrow> key_payload v = key_payload w \<Longrightarrow> v = w"
  by (cases t) (auto simp: key_value_def exact_cases be_bytes_word_inj)

text \<open>The bytes a composite key feeds to the hash.\<close>

fun write_components :: "(cv \<times> basic) list \<Rightarrow> bool \<Rightarrow> bytes option" where
  "write_components [] c = Some []"
| "write_components ((v, t) # vs) c = do {
     xs \<leftarrow> write_component v t c;
     ys \<leftarrow> write_components vs c;
     Some (xs @ ys)
   }"

lemma framed_inj:
  assumes "length xs < 2 ^ 16" "length ys < 2 ^ 16"
    and "framed True (length xs) xs @ as = framed True (length ys) ys @ bs"
  shows "xs = ys \<and> as = bs"
proof -
  have "be_bytes 2 (length xs) = be_bytes 2 (length ys)" "xs @ 0 # as = ys @ 0 # bs"
    using assms(3) by (simp_all add: framed_def append_eq_append_conv)
  then show ?thesis using be_bytes_inj [of "length xs" 2 "length ys"] assms(1,2) by simp
qed

lemma write_components_inj:
  assumes "list_all2 key_value ts vs" "list_all2 key_value ts ws"
    and "write_components (zip vs ts) True = Some xs" "write_components (zip ws ts) True = Some xs"
  shows "vs = ws"
  using assms
proof (induction ts arbitrary: vs ws xs)
  case (Cons t ts)
  obtain v vs' w ws' where vw: "vs = v # vs'" "ws = w # ws'" "key_value t v" "key_value t w"
    "list_all2 key_value ts vs'" "list_all2 key_value ts ws'"
    using Cons.prems(1,2) by (auto simp: list_all2_Cons1)
  note fv = write_component_framed [OF vw(3), of True] and fw = write_component_framed [OF vw(4), of True]
  obtain as bs where "write_components (zip vs' ts) True = Some as" "write_components (zip ws' ts) True = Some bs"
    "xs = framed True (length (key_payload v)) (key_payload v) @ as" "xs = framed True (length (key_payload w)) (key_payload w) @ bs"
    using Cons.prems(3,4) fv fw by (auto simp: vw(1,2) bind_eq_Some_conv)
  then show ?case
    using framed_inj [of "key_payload v" "key_payload w" as bs] fv fw key_payload_inj [OF vw(3,4)] Cons.IH [OF vw(5,6)]
    by (auto simp: vw(1,2))
qed auto

section \<open>Properties\<close>

text \<open>C23 The incremental hash is the hash. However the bytes of a partition key are cut into
  pieces, feeding the pieces to the state and finalising gives the token of the whole.\<close>

theorem incremental_token:
  "finalize (fold (\<lambda>chunk s. update s chunk) chunks initial_state) = murmur3_token (concat chunks)"
  by (rule fold_update)

text \<open>C24 Token keys. The big-endian key of a token decodes to the token, and the keys compare
  byte by byte as the signed tokens do.\<close>

theorem token_key_order:
  "decode_token_be (encode_token_be t) = t \<and>
   compare_bytes (encode_token_be t) (encode_token_be u) = compare_scalar (sint t) (sint u)"
  by (simp add: decode_encode_token encode_token_order)



end
