(* ===== verification/Key.thy ===== *)
theory Key
  imports Terms Token
begin

text \<open>
  The keys of the B-trees of a table (\<open>cql/engine/key.cpp\<close>) and their order
  (\<open>cql/engine/clustering_compare.cpp\<close>): a clustering key, a prefix of one, an index key and a
  partition token are sequences of column values in the storage encoding. A key is passed on as a
  view with a 16-bit length.
\<close>

section \<open>Encoding\<close>

definition append_component :: "cv \<Rightarrow> basic \<Rightarrow> bytes option" where
  "append_component v dtype = do { assert_true (dtype \<noteq> BDuration); write_value (TBasic dtype) v }"

definition eval_to_cv :: "fpu \<Rightarrow> evaluated \<Rightarrow> basic \<Rightarrow> cv option" where
  "eval_to_cv fp e dtype = (case e of
       ECol v \<Rightarrow> Some v
     | ELit lit \<Rightarrow> resolve_literal_scalar fp lit (TBasic dtype)
     | _ \<Rightarrow> None)"

definition encode_clustering_prefix :: "fpu \<Rightarrow> table \<Rightarrow> evaluated list \<Rightarrow> bytes option" where
  "encode_clustering_prefix fp tbl vals = do {
     assert_true (length vals \<le> length (clustering_key_col_indices tbl));
     out \<leftarrow> map_opt (\<lambda>(ci, e). do {
         dtype \<leftarrow> basic_at tbl ci; v \<leftarrow> eval_to_cv fp e dtype; append_component v dtype })
       (zip (clustering_key_col_indices tbl) vals);
     Some (concat out)
   }"

definition encode_clustering_single :: "fpu \<Rightarrow> table \<Rightarrow> evaluated \<Rightarrow> bytes option" where
  "encode_clustering_single fp tbl e = do {
     assert_true (length (clustering_key_col_indices tbl) \<ge> 1);
     encode_clustering_prefix fp tbl [e]
   }"

definition encode_clustering :: "fpu \<Rightarrow> table \<Rightarrow> evaluated list \<Rightarrow> bytes option" where
  "encode_clustering fp tbl vals = do {
     assert_true (length vals = length (clustering_key_col_indices tbl));
     encode_clustering_prefix fp tbl vals
   }"

definition encode_index_prefix_from_cv :: "cv \<Rightarrow> basic \<Rightarrow> bytes option" where
  "encode_index_prefix_from_cv v dtype = append_component v dtype"

definition encode_index_prefix :: "fpu \<Rightarrow> evaluated \<Rightarrow> basic \<Rightarrow> bytes option" where
  "encode_index_prefix fp e dtype = do {
     v \<leftarrow> eval_to_cv fp e dtype; encode_index_prefix_from_cv v dtype }"

definition encode_index_prefix_entries ::
    "fpu \<Rightarrow> evaluated \<Rightarrow> basic \<Rightarrow> evaluated \<Rightarrow> basic \<Rightarrow> bytes option" where
  "encode_index_prefix_entries fp key_e key_dtype val_e val_dtype = do {
     k \<leftarrow> eval_to_cv fp key_e key_dtype; a \<leftarrow> append_component k key_dtype;
     v \<leftarrow> eval_to_cv fp val_e val_dtype; b \<leftarrow> append_component v val_dtype;
     Some (a @ b)
   }"

definition row_value :: "cv list \<Rightarrow> nat \<Rightarrow> cv option" where
  "row_value row ci = (if ci < length row then Some (row ! ci) else None)"

definition encode_index_pk_component :: "table \<Rightarrow> u64 \<Rightarrow> cv list \<Rightarrow> bytes option" where
  "encode_index_pk_component tbl pk_token row = do {
     t \<leftarrow> append_component (CS64 pk_token) BBigint;
     out \<leftarrow> map_opt (\<lambda>ci. do {
         v \<leftarrow> row_value row ci; dtype \<leftarrow> basic_at tbl ci; append_component v dtype })
       (partition_key_col_indices tbl);
     Some (t @ concat out)
   }"

definition make_full_index_key :: "bytes \<Rightarrow> bytes \<Rightarrow> bytes \<Rightarrow> bytes" where
  "make_full_index_key prefix pk_bytes ck_bytes =
     prefix @ pk_bytes @ (if length ck_bytes > 0 then ck_bytes else [])"

text \<open>Where the clustering part of an index key starts: behind the components read in front of it.\<close>

fun skip_components :: "bytes \<Rightarrow> u16 \<Rightarrow> u16 \<Rightarrow> column_spec list \<Rightarrow> u16 option" where
  "skip_components key len pos [] = Some pos"
| "skip_components key len pos (s # specs) = do {
     (_, pos) \<leftarrow> read_sync key len pos (fst s);
     skip_components key len pos specs
   }"

definition index_key_ck_start :: "table \<Rightarrow> column_spec list \<Rightarrow> bytes \<Rightarrow> u16 option" where
  "index_key_ck_start tbl key_specs key_view =
     skip_components key_view (word_of_nat (length key_view)) 0
       (take (length key_specs - length (clustering_key_col_indices tbl)) key_specs)"

section \<open>Partition tokens\<close>

text \<open>\<open>hash_partition_components\<close>: the writer of the components feeds the incremental hash.\<close>

definition hash_partition_components :: "bytes list \<Rightarrow> u64" where
  "hash_partition_components pieces = finalize (fold (\<lambda>p s. update s p) pieces initial_state)"

definition compute_partition_token :: "table \<Rightarrow> cv list \<Rightarrow> u64 option" where
  "compute_partition_token tbl row = do {
     pieces \<leftarrow> map_opt (\<lambda>ci. do {
         v \<leftarrow> row_value row ci; dtype \<leftarrow> basic_at tbl ci;
         write_component v dtype (length (partition_key_col_indices tbl) > 1) })
       (partition_key_col_indices tbl);
     Some (hash_partition_components pieces)
   }"

definition compute_partition_token_from_evals :: "fpu \<Rightarrow> table \<Rightarrow> evaluated list \<Rightarrow> u64 option" where
  "compute_partition_token_from_evals fp tbl evals = do {
     assert_true (length evals = length (partition_key_col_indices tbl));
     pieces \<leftarrow> map_opt (\<lambda>(ci, e). do {
         dtype \<leftarrow> basic_at tbl ci; v \<leftarrow> eval_to_cv fp e dtype;
         write_component v dtype (length (partition_key_col_indices tbl) > 1) })
       (zip (partition_key_col_indices tbl) evals);
     Some (hash_partition_components pieces)
   }"

section \<open>Decoding and comparing\<close>

text \<open>The loop over the clustering columns stops when the key is used up.\<close>

fun decode_components :: "bytes \<Rightarrow> u16 \<Rightarrow> u16 \<Rightarrow> basic list \<Rightarrow> cv list option" where
  "decode_components key len pos [] = Some []"
| "decode_components key len pos (t # ts) =
     (if pos < len then do {
        (v, pos) \<leftarrow> read_sync key len pos t;
        vs \<leftarrow> decode_components key len pos ts;
        Some (v # vs)
      } else Some [])"

definition decode_clustering :: "table \<Rightarrow> bytes \<Rightarrow> cv list option" where
  "decode_clustering tbl key_bytes = do {
     ts \<leftarrow> map_opt (basic_at tbl) (clustering_key_col_indices tbl);
     decode_components key_bytes (word_of_nat (length key_bytes)) 0 ts
   }"

datatype ordering = Less | Equal | Greater

fun compare_keys :: "column_spec list \<Rightarrow> bytes \<Rightarrow> u16 \<Rightarrow> bytes \<Rightarrow> u16 \<Rightarrow> u16 \<Rightarrow> u16 \<Rightarrow> ordering option" where
  "compare_keys [] a la b lb pos_a pos_b = Some Equal"
| "compare_keys ((dtype, direction) # columns) a la b lb pos_a pos_b =
     (if la \<le> pos_a \<or> lb \<le> pos_b then Some Equal
      else do {
        (va, pos_a) \<leftarrow> read_sync a la pos_a dtype;
        (vb, pos_b) \<leftarrow> read_sync b lb pos_b dtype;
        cmp \<leftarrow> compare_column_value va vb dtype;
        let cmp = (if direction = DESC then - cmp else cmp) in
          if cmp < 0 then Some Less
          else if 0 < cmp then Some Greater
          else compare_keys columns a la b lb pos_a pos_b
      })"

definition clustering_key_comparator :: "column_spec list \<Rightarrow> bytes \<Rightarrow> bytes \<Rightarrow> ordering option" where
  "clustering_key_comparator columns a b =
     compare_keys columns a (word_of_nat (length a)) b (word_of_nat (length b)) 0 0"

definition compare_clustering :: "table \<Rightarrow> bytes \<Rightarrow> bytes \<Rightarrow> ordering option" where
  "compare_clustering tbl a b = clustering_key_comparator (clustering_key_specs tbl) a b"

section \<open>Keys as lists of values\<close>

text \<open>The values a key component of type \<open>t\<close> can hold, and the encoding of a list of them.\<close>

definition component :: "basic \<Rightarrow> cv \<Rightarrow> bool" where
  "component t v \<longleftrightarrow> v \<in> ordered_values t \<and> wf_basic v"

definition enc :: "cv list \<Rightarrow> bytes" where
  "enc vs = concat (map write_typed_basic vs)"

definition key_of :: "basic list \<Rightarrow> cv list \<Rightarrow> bool" where
  "key_of ts vs \<longleftrightarrow> list_all2 component (take (length vs) ts) vs \<and> length (enc vs) < 2 ^ 16"

lemma enc_simps [simp]: "enc [] = []" "enc (v # vs) = write_typed_basic v @ enc vs"
  "enc (vs @ ws) = enc vs @ enc ws"
  by (simp_all add: enc_def)

lemma component_exact: "component t v \<Longrightarrow> exact v t \<and> wf_basic v \<and> t \<noteq> BDuration"
  by (auto simp: component_def ordered_values_def split: if_splits)

lemma append_component_exact:
  "component t v \<Longrightarrow> append_component v t = Some (write_typed_basic v)"
  using component_exact [of t v] exact_can_write [of v t] exact_is_basic [of v t]
  by (cases v) (auto simp: append_component_def checked_def can_write_value_def)

lemma le_bytes_Nil [simp]: "le_bytes n x = [] \<longleftrightarrow> n = 0"
  using length_le_bytes [of n x] by (cases n) auto

lemma write_not_Nil: "component t v \<Longrightarrow> write_typed_basic v \<noteq> []"
  using component_exact [of t v]
  by (cases v) (auto simp: put_word_def put_sized_def put_bool_def put_varint_def)

text \<open>Reading at the cursor of a key whose remaining components are \<open>vs\<close>.\<close>

lemma read_sync_enc:
  assumes "at_suffix src len (enc (v # vs))" "component t v"
  shows "read_sync src len (cursor len (enc (v # vs))) t = Some (v, cursor len (enc vs))"
    and "at_suffix src len (enc vs)"
proof -
  show "read_sync src len (cursor len (enc (v # vs))) t = Some (v, cursor len (enc vs))"
    using read_sync_tracks [OF assms(1), of t] component_exact [OF assms(2)]
    by (simp add: read_write_basic)
  show "at_suffix src len (enc vs)"
    using assms(1) unfolding at_suffix_def enc_simps by (metis append.assoc)
qed

lemma cursor_end:
  assumes "at_suffix src len (enc vs)" "list_all2 component ts vs"
  shows "len \<le> cursor len (enc vs) \<longleftrightarrow> vs = []"
proof -
  have "length (enc vs) \<le> unat len" using assms(1) by (auto simp: at_suffix_def)
  then have "len \<le> cursor len (enc vs) \<longleftrightarrow> length (enc vs) = 0"
    by (simp only: word_le_nat_alt unat_cursor) linarith
  also have "\<dots> \<longleftrightarrow> enc vs = []" by simp
  also have "\<dots> \<longleftrightarrow> vs = []"
    using assms(2) write_not_Nil by (cases vs) (auto simp: list_all2_Cons2)
  finally show ?thesis .
qed

text \<open>The reference order: lexicographic, each column in its direction, the missing end of a
  prefix equal to everything.\<close>

fun lex_compare :: "column_spec list \<Rightarrow> cv list \<Rightarrow> cv list \<Rightarrow> ordering" where
  "lex_compare ((t, d) # specs) (v # vs) (w # ws) =
     (let (x, y) = (if d = DESC then (w, v) else (v, w)) in
      if cmp_at t x y < 0 then Less
      else if 0 < cmp_at t x y then Greater
      else lex_compare specs vs ws)"
| "lex_compare _ _ _ = Equal"

lemma compare_component:
  assumes "component t v" "component t w"
  shows "compare_column_value v w t = Some (cmp_at t v w)"
  using assms by (cases t) (auto simp: component_def compare_defs ordered_values_def exact_cases)

lemma cmp_at_flip:
  "component t v \<Longrightarrow> component t w \<Longrightarrow> cmp_at t w v = - cmp_at t v w"
  using column.flip [of v t w] by (simp add: component_def)

lemma compare_keys_lex:
  assumes "at_suffix a la (enc vs)" "at_suffix b lb (enc ws)"
    and "list_all2 component (take (length vs) (map fst specs)) vs"
    and "list_all2 component (take (length ws) (map fst specs)) ws"
  shows "compare_keys specs a la b lb (cursor la (enc vs)) (cursor lb (enc ws)) = Some (lex_compare specs vs ws)"
  using assms
proof (induction specs arbitrary: vs ws)
  case Nil
  then show ?case by simp
next
  case (Cons s specs)
  obtain t d where s: "s = (t, d)" by (cases s)
  show ?case
  proof (cases "vs = [] \<or> ws = []")
    case True
    then show ?thesis
      using cursor_end [OF Cons.prems(1,3)] cursor_end [OF Cons.prems(2,4)] s
      by (cases vs; cases ws) auto
  next
    case False
    then obtain v vs' w ws' where vw: "vs = v # vs'" "ws = w # ws'"
      by (metis neq_Nil_conv)
    have c: "component t v" "component t w"
      "list_all2 component (take (length vs') (map fst specs)) vs'"
      "list_all2 component (take (length ws') (map fst specs)) ws'"
      using Cons.prems(3,4) by (simp_all add: vw s)
    note ra = read_sync_enc [OF Cons.prems(1) [unfolded vw] c(1)]
    note rb = read_sync_enc [OF Cons.prems(2) [unfolded vw] c(2)]
    have "\<not> (la \<le> cursor la (enc vs) \<or> lb \<le> cursor lb (enc ws))"
      using cursor_end [OF Cons.prems(1,3)] cursor_end [OF Cons.prems(2,4)] vw by simp
    then show ?thesis
      using ra rb c Cons.IH [OF ra(2) rb(2) c(3,4)]
      by (simp add: s vw compare_component cmp_at_flip [of t v w] Let_def del: enc_simps)
  qed
qed

lemma comparator_lex:
  assumes "key_of (map fst specs) vs" "key_of (map fst specs) ws"
  shows "clustering_key_comparator specs (enc vs) (enc ws) = Some (lex_compare specs vs ws)"
proof -
  have at: "at_suffix (enc us) (word_of_nat (length (enc us))) (enc us)"
    "cursor (word_of_nat (length (enc us))) (enc us) = 0" if "key_of ts us" for ts us
    using that by (auto simp: at_suffix_def key_of_def unat_of_nat cursor_def)
  show ?thesis
    unfolding clustering_key_comparator_def
    using compare_keys_lex [OF at(1) [OF assms(1)] at(1) [OF assms(2)]] assms
    by (simp add: at(2) [OF assms(1)] at(2) [OF assms(2)] key_of_def)
qed

section \<open>Full keys are totally ordered\<close>

text \<open>A column in its direction, and then the keys with a value in every clustering column,
  meet the contract of a comparison that \<open>Compare\<close> states for single columns.\<close>

definition directed :: "basic \<Rightarrow> sort_dir \<Rightarrow> cv \<Rightarrow> cv \<Rightarrow> int" where
  "directed t d v w = (if d = DESC then cmp_at t w v else cmp_at t v w)"

interpretation direction: three_way "directed t d" "{v. component t v}" for t d
proof
  fix u v w
  assume uv: "u \<in> {v. component t v}" "v \<in> {v. component t v}"
  then have o: "u \<in> ordered_values t" "v \<in> ordered_values t" by (simp_all add: component_def)
  show "directed t d u v \<in> {-1, 0, 1}"
    using column.range [OF o] column.range [OF o(2,1)] by (simp add: directed_def)
  show "directed t d v u = - directed t d u v"
    using column.flip [OF o] by (simp add: directed_def)
  assume w: "w \<in> {v. component t v}" and le: "directed t d u v \<le> 0" "directed t d v w \<le> 0"
  then have ow: "w \<in> ordered_values t" by (simp add: component_def)
  show "directed t d u w \<le> 0"
    using le column.le_trans [OF o ow] column.le_trans [OF ow o(2,1)]
    by (auto simp: directed_def split: if_splits)
qed

lemma lex_compare_directed: "lex_compare ((t, d) # specs) (v # vs) (w # ws) =
    (if directed t d v w < 0 then Less else if 0 < directed t d v w then Greater
     else lex_compare specs vs ws)"
  by (simp add: directed_def)

abbreviation full_key :: "column_spec list \<Rightarrow> cv list \<Rightarrow> bool" where
  "full_key specs vs \<equiv> list_all2 component (map fst specs) vs"

lemma full_key_cases:
  assumes "full_key ((t, d) # specs) vs"
  obtains v vs' where "vs = v # vs'" "component t v" "full_key specs vs'"
  using assms by (auto simp: list_all2_Cons1)

lemma lex_compare_flip:
  assumes "full_key specs vs" "full_key specs ws"
  shows "lex_compare specs ws vs = (case lex_compare specs vs ws of
    Less \<Rightarrow> Greater | Equal \<Rightarrow> Equal | Greater \<Rightarrow> Less)"
  using assms
proof (induction specs arbitrary: vs ws)
  case (Cons s specs)
  obtain t d where s: "s = (t, d)" by (cases s)
  obtain v vs' where v: "vs = v # vs'" "component t v" "full_key specs vs'"
    using Cons.prems(1) unfolding s by (rule full_key_cases)
  obtain w ws' where w: "ws = w # ws'" "component t w" "full_key specs ws'"
    using Cons.prems(2) unfolding s by (rule full_key_cases)
  show ?case
    using direction.flip [of v t w d] v w Cons.IH [OF v(3) w(3)]
    by (simp add: s lex_compare_directed del: lex_compare.simps)
qed simp

lemma lex_compare_trans:
  assumes "full_key specs us" "full_key specs vs" "full_key specs ws"
    and "lex_compare specs us vs \<noteq> Greater" "lex_compare specs vs ws \<noteq> Greater"
  shows "lex_compare specs us ws \<noteq> Greater"
  using assms
proof (induction specs arbitrary: us vs ws)
  case (Cons s specs)
  obtain t d where s: "s = (t, d)" by (cases s)
  obtain u us' where u: "us = u # us'" "component t u" "full_key specs us'"
    using Cons.prems(1) unfolding s by (rule full_key_cases)
  obtain v vs' where v: "vs = v # vs'" "component t v" "full_key specs vs'"
    using Cons.prems(2) unfolding s by (rule full_key_cases)
  obtain w ws' where w: "ws = w # ws'" "component t w" "full_key specs ws'"
    using Cons.prems(3) unfolding s by (rule full_key_cases)
  have uv: "directed t d u v < 0 \<or> directed t d u v = 0 \<and> lex_compare specs us' vs' \<noteq> Greater"
    and vw: "directed t d v w < 0 \<or> directed t d v w = 0 \<and> lex_compare specs vs' ws' \<noteq> Greater"
    using Cons.prems(4,5) by (auto simp: s u(1) v(1) w(1) lex_compare_directed simp del: lex_compare.simps split: if_splits)
  have "directed t d u w < 0 \<or> directed t d u w = 0 \<and> lex_compare specs us' ws' \<noteq> Greater"
    using uv
  proof
    assume "directed t d u v < 0"
    moreover have "directed t d v w \<le> 0" using vw by auto
    ultimately show ?thesis using direction.lt_le_trans [of u t v w d] u v w by simp
  next
    assume e: "directed t d u v = 0 \<and> lex_compare specs us' vs' \<noteq> Greater"
    then have "directed t d u w = directed t d v w"
      using direction.equal_cong [of u t v w d] u v w by simp
    then show ?thesis using vw e Cons.IH [OF u(3) v(3) w(3)] by auto
  qed
  then show ?case by (auto simp: s u(1) w(1) lex_compare_directed simp del: lex_compare.simps)
qed simp

definition clustering_cmp :: "column_spec list \<Rightarrow> bytes \<Rightarrow> bytes \<Rightarrow> int" where
  "clustering_cmp specs a b = (case clustering_key_comparator specs a b of
     Some Less \<Rightarrow> -1 | Some Greater \<Rightarrow> 1 | _ \<Rightarrow> 0)"

definition full_keys :: "column_spec list \<Rightarrow> bytes set" where
  "full_keys specs = {enc vs | vs. full_key specs vs \<and> length (enc vs) < 2 ^ 16}"

lemma full_key_of: "full_key specs vs \<Longrightarrow> length (enc vs) < 2 ^ 16 \<Longrightarrow> key_of (map fst specs) vs"
  using list_all2_lengthD [of component "map fst specs" vs] by (simp add: key_of_def)

interpretation clustering: three_way "clustering_cmp specs" "full_keys specs" for specs
proof
  fix a b c
  assume "a \<in> full_keys specs" "b \<in> full_keys specs"
  then obtain us vs where uv: "a = enc us" "b = enc vs" "full_key specs us" "full_key specs vs"
    "key_of (map fst specs) us" "key_of (map fst specs) vs"
    by (auto simp: full_keys_def full_key_of)
  show "clustering_cmp specs a b \<in> {-1, 0, 1}"
    by (auto simp: clustering_cmp_def split: option.split ordering.split)
  show "clustering_cmp specs b a = - clustering_cmp specs a b"
    using lex_compare_flip [OF uv(3,4)]
    by (simp add: clustering_cmp_def uv(1,2) comparator_lex [OF uv(5,6)] comparator_lex [OF uv(6,5)]
        split: ordering.split)
  assume "c \<in> full_keys specs" and le: "clustering_cmp specs a b \<le> 0" "clustering_cmp specs b c \<le> 0"
  then obtain ws where w: "c = enc ws" "full_key specs ws" "key_of (map fst specs) ws"
    by (auto simp: full_keys_def full_key_of)
  show "clustering_cmp specs a c \<le> 0"
    using le lex_compare_trans [OF uv(3,4) w(2)]
    by (auto simp: clustering_cmp_def uv(1,2) w(1) comparator_lex [OF uv(5,6)]
        comparator_lex [OF uv(6) w(3)] comparator_lex [OF uv(5) w(3)] split: ordering.splits)
qed

section \<open>Encoding and decoding by the schema\<close>

text \<open>The clustering columns of a table have the basic types \<open>ts\<close>, in the order of its specs.\<close>

definition clustered_by :: "table \<Rightarrow> basic list \<Rightarrow> bool" where
  "clustered_by tbl ts \<longleftrightarrow>
     map_opt (basic_at tbl) (clustering_key_col_indices tbl) = Some ts \<and>
     map fst (clustering_key_specs tbl) = ts"

lemma basic_at_rebuild [simp]: "basic_at (rebuild_table_indices tbl) ci = basic_at tbl ci"
  by (simp add: basic_at_def col_at_def rebuild_table_indices_def Let_def)

lemma clustered_by_rebuild:
  assumes "\<forall>ci \<in> set (clustering_key_col_indices (rebuild_table_indices tbl)). basic_at tbl ci \<noteq> None"
  shows "\<exists>ts. clustered_by (rebuild_table_indices tbl) ts"
proof -
  let ?xs = "clustering_key_col_indices (rebuild_table_indices tbl)"
  let ?ts = "map (\<lambda>ci. basic_or_count (col_type (cols tbl ! ci))) ?xs"
  have "basic_at tbl ci = Some (basic_or_count (col_type (cols tbl ! ci)))" if "ci \<in> set ?xs" for ci
    using assms that
    by (auto simp: basic_at_def col_at_def basic_or_count_def split: if_splits ctype.splits)
  then have "map_opt (basic_at tbl) ?xs = Some ?ts" by (simp add: map_opt_total)
  moreover have "map fst (clustering_key_specs (rebuild_table_indices tbl)) = ?ts"
    by (simp add: rebuild_table_indices_def Let_def)
  moreover have "map_opt (basic_at (rebuild_table_indices tbl)) ?xs = map_opt (basic_at tbl) ?xs"
    by (rule map_opt_cong) simp_all
  ultimately show ?thesis by (auto simp: clustered_by_def)
qed

lemma clustered_by_length:
  "clustered_by tbl ts \<Longrightarrow> length (clustering_key_col_indices tbl) = length ts"
  by (auto simp: clustered_by_def map_opt_Some_iff dest: list_all2_lengthD)

lemma encode_components:
  assumes "map_opt (basic_at tbl) xs = Some ts" "list_all2 component (take (length vs) ts) vs"
  shows "map_opt (\<lambda>(ci, e). do {
         dtype \<leftarrow> basic_at tbl ci; v \<leftarrow> eval_to_cv fp e dtype; append_component v dtype })
       (zip xs (map ECol vs)) = Some (map write_typed_basic vs)"
  using assms
proof (induction vs arbitrary: xs ts)
  case (Cons v vs)
  from Cons.prems(2) obtain t ts' where ts: "ts = t # ts'" by (cases ts) auto
  with Cons.prems(1) obtain ci xs' where xs: "xs = ci # xs'" "basic_at tbl ci = Some t"
    "map_opt (basic_at tbl) xs' = Some ts'"
    by (cases xs) (auto simp: bind_eq_Some_conv)
  show ?case
    using Cons.IH [OF xs(3)] Cons.prems(2) by (simp add: xs ts eval_to_cv_def append_component_exact)
qed simp

lemma encode_clustering_prefix_enc:
  assumes "clustered_by tbl ts" "key_of ts vs"
  shows "encode_clustering_prefix fp tbl (map ECol vs) = Some (enc vs)"
proof -
  have "length vs \<le> length ts"
    using assms(2) list_all2_lengthD by (fastforce simp: key_of_def)
  then show ?thesis
    using assms encode_components [of tbl _ ts vs fp] clustered_by_length [OF assms(1)]
    by (simp add: encode_clustering_prefix_def clustered_by_def key_of_def enc_def)
qed

lemma decode_components_enc:
  assumes "at_suffix src len (enc vs)" "list_all2 component (take (length vs) ts) vs"
  shows "decode_components src len (cursor len (enc vs)) ts = Some vs"
  using assms
proof (induction ts arbitrary: vs)
  case (Cons t ts)
  show ?case
  proof (cases vs)
    case Nil
    then show ?thesis using cursor_end [OF Cons.prems] by (simp add: not_less [symmetric])
  next
    case (Cons v vs')
    then have "component t v" "list_all2 component (take (length vs') ts) vs'"
      using Cons.prems(2) by simp_all
    moreover have "cursor len (enc vs) < len"
      using cursor_end [OF Cons.prems] Cons by (simp add: not_le)
    ultimately show ?thesis
      using Cons.IH [of vs'] read_sync_enc [of src len v vs' t] Cons.prems(1) Cons
      by (simp del: enc_simps)
  qed
qed simp

lemma at_suffix_whole:
  "length xs < 2 ^ 16 \<Longrightarrow> at_suffix xs (word_of_nat (length xs)) xs \<and> cursor (word_of_nat (length xs)) xs = 0"
  by (auto simp: at_suffix_def unat_of_nat cursor_def)

lemma decode_clustering_enc:
  assumes "clustered_by tbl ts" "key_of ts vs"
  shows "decode_clustering tbl (enc vs) = Some vs"
proof -
  have "at_suffix (enc vs) (word_of_nat (length (enc vs))) (enc vs)"
    "cursor (word_of_nat (length (enc vs))) (enc vs) = 0"
    using at_suffix_whole [of "enc vs"] assms(2) by (auto simp: key_of_def)
  then show ?thesis
    using assms decode_components_enc [of "enc vs" "word_of_nat (length (enc vs))" vs ts]
    by (simp add: decode_clustering_def clustered_by_def key_of_def)
qed

lemma skip_components_enc:
  assumes "at_suffix src len (enc us @ r)" "list_all2 component (map fst specs) us"
  shows "skip_components src len (cursor len (enc us @ r)) specs = Some (cursor len r)"
  using assms
proof (induction specs arbitrary: us)
  case (Cons s specs)
  then obtain u us' where u: "us = u # us'" "component (fst s) u" "list_all2 component (map fst specs) us'"
    by (auto simp: list_all2_Cons1)
  have "read_sync src len (cursor len (write_typed_basic u @ enc us' @ r)) (fst s) = Some (u, cursor len (enc us' @ r))"
    using read_sync_tracks [of src len "write_typed_basic u @ enc us' @ r" "fst s"] Cons.prems(1)
      component_exact [OF u(2)] by (simp add: u(1) read_write_basic)
  moreover have "at_suffix src len (enc us' @ r)"
    using Cons.prems(1) unfolding u(1) at_suffix_def enc_simps by (metis append.assoc)
  ultimately show ?case using Cons.IH [OF _ u(3)] by (simp add: u(1))
qed simp

lemma encode_index_pk_enc:
  assumes "map_opt (basic_at tbl) (partition_key_col_indices tbl) = Some ts"
    "map_opt (row_value row) (partition_key_col_indices tbl) = Some vs" "list_all2 component ts vs"
  shows "encode_index_pk_component tbl token row = Some (enc (CS64 token # vs))"
proof -
  have "map_opt (\<lambda>ci. do { v \<leftarrow> row_value row ci; dtype \<leftarrow> basic_at tbl ci; append_component v dtype }) xs
      = Some (map write_typed_basic vs)"
    if "map_opt (basic_at tbl) xs = Some ts" "map_opt (row_value row) xs = Some vs" "list_all2 component ts vs" for xs ts vs
    using that
    by (induction xs arbitrary: ts vs) (auto simp: bind_eq_Some_conv append_component_exact)
  moreover have "component BBigint (CS64 token)" by (simp add: component_def ordered_values_def)
  ultimately show ?thesis
    using assms by (simp add: encode_index_pk_component_def append_component_exact enc_def)
qed

text \<open>The token of a row is the token of its partition key values, hashed in one pass.\<close>

lemma hash_partition_components: "hash_partition_components pieces = murmur3_token (concat pieces)"
  by (simp add: hash_partition_components_def fold_update)

lemma token_of_row_evals:
  assumes "map_opt (row_value row) (partition_key_col_indices tbl) = Some vs"
  shows "compute_partition_token_from_evals fp tbl (map ECol vs) = compute_partition_token tbl row"
proof -
  have "map_opt (\<lambda>(ci, e). do { dtype \<leftarrow> basic_at tbl ci; v \<leftarrow> eval_to_cv fp e dtype; write_component v dtype c })
      (zip xs (map ECol vs)) =
    map_opt (\<lambda>ci. do { v \<leftarrow> row_value row ci; dtype \<leftarrow> basic_at tbl ci; write_component v dtype c }) xs"
    if "map_opt (row_value row) xs = Some vs" for xs vs c
    using that by (induction xs arbitrary: vs) (auto simp: bind_eq_Some_conv eval_to_cv_def)
  then show ?thesis
    using assms by (auto simp: compute_partition_token_from_evals_def compute_partition_token_def map_opt_Some_iff
        dest: list_all2_lengthD)
qed

text \<open>A table \<open>(p, i, t)\<close> with partition key \<open>p\<close>, clustering columns \<open>i\<close>, descending, and
  \<open>t\<close>, for the examples.\<close>

definition example_table :: table where
  "example_table = rebuild_table_indices \<lparr>cols =
     [\<lparr>tombstone = False, is_static = False, col_name = [112], col_type = TBasic BBigint,
        key_kind = PartitionKey, key_position = 0, clustering_order = ASC\<rparr>,
      \<lparr>tombstone = False, is_static = False, col_name = [105], col_type = TBasic BInt,
        key_kind = ClusteringKey, key_position = 0, clustering_order = DESC\<rparr>,
      \<lparr>tombstone = False, is_static = False, col_name = [116], col_type = TBasic BTinyint,
        key_kind = ClusteringKey, key_position = 1, clustering_order = ASC\<rparr>],
     partition_key_col_indices = [], clustering_key_col_indices = [], static_col_indices = [],
     regular_col_indices = [], select_star_col_indices = [], cols_by_name = Map.empty,
     clustering_key_specs = [], indexes = []\<rparr>"

lemma example_table_indices:
  "partition_key_col_indices example_table = [0]" "clustering_key_col_indices example_table = [1, 2]"
  "clustering_key_specs example_table = [(BInt, DESC), (BTinyint, ASC)]"
  "cols_by_name example_table = [[112] \<mapsto> 0, [105] \<mapsto> 1, [116] \<mapsto> 2]"
  "basic_at example_table 0 = Some BBigint" "basic_at example_table (Suc 0) = Some BInt"
  "basic_at example_table 2 = Some BTinyint"
  by (simp_all add: example_table_def rebuild_table_indices_def live_cols_def Let_def upt_rec
      basic_or_count_def name_index_def basic_at_def col_at_def numeral_2_eq_2)

lemma example_table_clustered: "clustered_by example_table [BInt, BTinyint]"
  by (simp add: clustered_by_def example_table_indices)

lemma example_key:
  "key_of [BInt, BTinyint] [CS32 a, CU8 b]" "key_of [BInt, BTinyint] [CS32 a]"
  by (simp_all add: key_of_def component_def ordered_values_def enc_def)

section \<open>Properties\<close>





end
