(* ===== verification/Evaluator.thy ===== *)
theory Evaluator
  imports Key Text "HOL-Library.Signed_Division"
begin

text \<open>
  The evaluation of terms (\<open>cql/engine/evaluator.cpp\<close>): time-based UUIDs, the built-in
  functions, bind markers, arithmetic, the comparison of evaluated values and the residual
  predicates of a \<open>WHERE\<close> clause.

  What a function reads from the machine is a parameter, \<open>env\<close>: the \<open>n\<close>-th reading of
  the clocks and of the entropy pool, the node id of the host and the floating-point
  unit. The \<open>world\<close> counts the readings and holds \<open>last_ts_100ns\<close>, the one static variable of
  the file. A result \<open>None\<close> is a trap. Signed overflow wraps; the division instruction
  traps on the one quotient that does not fit. The operands of an arithmetic operation are
  evaluated from left to right.
\<close>

record env =
  fpu_of :: fpu
  unix_ms_now :: "nat \<Rightarrow> u64"
  ns_since_midnight :: "nat \<Rightarrow> u64"
  random_bytes :: "nat \<Rightarrow> nat \<Rightarrow> bytes"
  node_id :: bytes

record world =
  reads :: nat
  last_ts_100ns :: u64

record eval_context =
  positional_bindings :: "literal list"
  named_bindings :: "(bytes \<times> literal) list"
  ctx_table :: "table option"
  row_values :: "cv list option"

definition tick :: "world \<Rightarrow> world" where
  "tick w = w\<lparr>reads := Suc (reads w)\<rparr>"

section \<open>UUIDs and time\<close>

definition UUID_EPOCH_OFFSET_100NS :: u64 where
  "UUID_EPOCH_OFFSET_100NS = 122192928000000000"

definition MS_PER_DAY :: u64 where
  "MS_PER_DAY = 86400000"

text \<open>Signed division, towards zero.\<close>

definition s64_div :: "u64 \<Rightarrow> u64 \<Rightarrow> u64" where
  "s64_div a b = word_of_int (sint a sdiv sint b)"

definition s64_mod :: "u64 \<Rightarrow> u64 \<Rightarrow> u64" where
  "s64_mod a b = word_of_int (sint a smod sint b)"

definition unix_ms_to_uuid_timestamp_100ns :: "u64 \<Rightarrow> u64" where
  "unix_ms_to_uuid_timestamp_100ns unix_ms = unix_ms * 10000 + UUID_EPOCH_OFFSET_100NS"

definition uuid_timestamp_100ns_to_unix_ms :: "u64 \<Rightarrow> u64" where
  "uuid_timestamp_100ns_to_unix_ms ts = s64_div (ts - UUID_EPOCH_OFFSET_100NS) 10000"

definition make_timeuuid_from_ts_100ns :: "u64 \<Rightarrow> u16 \<Rightarrow> bytes \<Rightarrow> bytes" where
  "make_timeuuid_from_ts_100ns timestamp clock_seq node =
     [ucast (drop_bit 24 timestamp AND 0xff), ucast (drop_bit 16 timestamp AND 0xff),
      ucast (drop_bit 8 timestamp AND 0xff), ucast (timestamp AND 0xff),
      ucast (drop_bit 40 timestamp AND 0xff), ucast (drop_bit 32 timestamp AND 0xff),
      0x10 OR ucast (drop_bit 56 timestamp AND 0x0f), ucast (drop_bit 48 timestamp AND 0xff),
      0x80 OR ucast (drop_bit 8 clock_seq AND 0x3f), ucast (clock_seq AND 0xff)]
     @ take 6 node"

definition make_timeuuid_from_unix_ms :: "u64 \<Rightarrow> u16 \<Rightarrow> bytes \<Rightarrow> bytes" where
  "make_timeuuid_from_unix_ms unix_ms clock_seq node =
     make_timeuuid_from_ts_100ns (unix_ms_to_uuid_timestamp_100ns unix_ms) clock_seq node"

definition timeuuid_to_unix_ms :: "bytes \<Rightarrow> u64" where
  "timeuuid_to_unix_ms u = uuid_timestamp_100ns_to_unix_ms
     (push_bit 24 (ucast (u ! 0)) OR push_bit 16 (ucast (u ! 1)) OR push_bit 8 (ucast (u ! 2))
      OR ucast (u ! 3) OR push_bit 40 (ucast (u ! 4)) OR push_bit 32 (ucast (u ! 5))
      OR push_bit 56 (ucast (u ! 6 AND 0x0f)) OR push_bit 48 (ucast (u ! 7)))"

definition random_uuid_v4 :: "env \<Rightarrow> world \<Rightarrow> bytes \<times> world" where
  "random_uuid_v4 env w =
     (let u = random_bytes env (reads w) 16;
          u = u[6 := (u ! 6 AND 0x0f) OR 0x40];
          u = u[8 := (u ! 8 AND 0x3f) OR 0x80]
      in (u, tick w))"

definition now_timeuuid :: "env \<Rightarrow> world \<Rightarrow> bytes \<times> world" where
  "now_timeuuid env w =
     (let cs = random_bytes env (reads w) 2;
          clock_seq = (ucast (cs ! 0) OR push_bit 8 (ucast (cs ! 1))) AND 0x3fff;
          ts = unix_ms_to_uuid_timestamp_100ns (unix_ms_now env (reads w));
          ts = (if ts \<le> last_ts_100ns w then last_ts_100ns w + 1 else ts)
      in (make_timeuuid_from_ts_100ns ts clock_seq (node_id env), tick (w\<lparr>last_ts_100ns := ts\<rparr>)))"

definition min_timeuuid :: "u64 \<Rightarrow> bytes" where
  "min_timeuuid unix_ms = make_timeuuid_from_unix_ms unix_ms 0 (replicate 6 0)"

definition max_timeuuid :: "u64 \<Rightarrow> bytes" where
  "max_timeuuid unix_ms = make_timeuuid_from_unix_ms unix_ms 0x3fff (replicate 6 0xff)"

section \<open>Extracting values\<close>

text \<open>\<open>as_value<T>\<close>: the alternative \<open>T\<close> of a literal or of a column value.\<close>

definition as_S64 :: "evaluated \<Rightarrow> u64 option" where
  "as_S64 e = (case e of ELit (LInt x) \<Rightarrow> Some x | ECol (CS64 x) \<Rightarrow> Some x | _ \<Rightarrow> None)"

definition as_text :: "evaluated \<Rightarrow> bytes option" where
  "as_text e = (case e of ELit (LText s) \<Rightarrow> Some s | ECol (CText s) \<Rightarrow> Some s | _ \<Rightarrow> None)"

definition as_uuid :: "evaluated \<Rightarrow> bytes option" where
  "as_uuid e = (case e of ELit (LUuid u) \<Rightarrow> Some u | ECol (CUuid u) \<Rightarrow> Some u | _ \<Rightarrow> None)"

definition as_blob :: "evaluated \<Rightarrow> bytes option" where
  "as_blob e = (case e of ELit (LBlob s) \<Rightarrow> Some s | ECol (CBlob s) \<Rightarrow> Some s | _ \<Rightarrow> None)"

definition as_hex :: "evaluated \<Rightarrow> bytes option" where
  "as_hex e = (case e of ELit (LHex s) \<Rightarrow> Some s | _ \<Rightarrow> None)"

definition eval_is_null :: "evaluated \<Rightarrow> bool" where
  "eval_is_null e \<longleftrightarrow> e = ELit LNull \<or> e = ECol CNull"

definition eval_is_unset :: "evaluated \<Rightarrow> bool" where
  "eval_is_unset e \<longleftrightarrow> e = ELit LUnset"

definition eval_is_float_like :: "evaluated \<Rightarrow> bool" where
  "eval_is_float_like e = (case e of
       ELit (LFloat _) \<Rightarrow> True | ECol (CF64 _) \<Rightarrow> True | ECol (CF32 _) \<Rightarrow> True | _ \<Rightarrow> False)"

definition as_s64 :: "evaluated \<Rightarrow> u64 option" where
  "as_s64 e = (case e of
       ELit (LInt v) \<Rightarrow> Some v
     | ELit (LBool v) \<Rightarrow> Some (if v then 1 else 0)
     | ECol (CS64 v) \<Rightarrow> Some v
     | ECol (CS32 v) \<Rightarrow> Some (scast v)
     | ECol (CS16 v) \<Rightarrow> Some (scast v)
     | ECol (CU8 v) \<Rightarrow> Some (ucast v)
     | _ \<Rightarrow> None)"

definition as_f64 :: "fpu \<Rightarrow> evaluated \<Rightarrow> u64 option" where
  "as_f64 fp e = (case e of
       ELit (LFloat v) \<Rightarrow> Some v
     | ELit (LInt v) \<Rightarrow> Some (f_of_s64 fp v)
     | ECol (CF64 v) \<Rightarrow> Some v
     | ECol (CF32 v) \<Rightarrow> Some (f_widen fp v)
     | ECol (CS64 v) \<Rightarrow> Some (f_of_s64 fp v)
     | ECol (CS32 v) \<Rightarrow> Some (f_of_s64 fp (scast v))
     | _ \<Rightarrow> None)"

abbreviation null :: evaluated where "null \<equiv> ELit LNull"

text \<open>The row is an array of the length of the table's columns; an access behind it is \<open>None\<close>.\<close>

definition lookup_column_value :: "eval_context \<Rightarrow> bytes \<Rightarrow> evaluated option" where
  "lookup_column_value ctx name =
     (case (ctx_table ctx, row_values ctx) of
        (Some tbl, Some row) \<Rightarrow>
          (case find_column tbl name of
             Some ci \<Rightarrow> map_option ECol (row_value row ci)
           | None \<Rightarrow> Some null)
      | _ \<Rightarrow> Some null)"

section \<open>The function registry\<close>

type_synonym builtin = "env \<Rightarrow> eval_context \<Rightarrow> evaluated list \<Rightarrow> world \<Rightarrow> (evaluated \<times> world) option"

text \<open>A function of one argument without side effects; any other number of arguments gives null.\<close>

definition unary :: "(evaluated \<Rightarrow> evaluated) \<Rightarrow> builtin" where
  "unary f env ctx args w = Some (case args of [a] \<Rightarrow> f a | _ \<Rightarrow> null, w)"

definition fn_uuid :: builtin where
  "fn_uuid env ctx args w = (let (u, w) = random_uuid_v4 env w in Some (ELit (LUuid u), w))"

definition fn_now :: builtin where
  "fn_now env ctx args w = (let (u, w) = now_timeuuid env w in Some (ELit (LUuid u), w))"

definition fn_currenttimestamp :: builtin where
  "fn_currenttimestamp env ctx args w = Some (ELit (LInt (unix_ms_now env (reads w))), tick w)"

definition fn_currentdate :: builtin where
  "fn_currentdate env ctx args w = Some (ELit (LInt (unix_ms_now env (reads w) div 86400000)), tick w)"

definition fn_currenttime :: builtin where
  "fn_currenttime env ctx args w = Some (ELit (LInt (ns_since_midnight env (reads w))), tick w)"

definition todate :: "evaluated \<Rightarrow> evaluated" where
  "todate a = (case as_S64 a of
       Some ts \<Rightarrow> ELit (LInt (s64_div ts MS_PER_DAY))
     | None \<Rightarrow> (case as_uuid a of
           Some u \<Rightarrow> ELit (LInt (s64_div (timeuuid_to_unix_ms u) MS_PER_DAY))
         | None \<Rightarrow> null))"

definition totimestamp :: "evaluated \<Rightarrow> evaluated" where
  "totimestamp a = (case as_S64 a of
       Some ts \<Rightarrow> ELit (LInt ts)
     | None \<Rightarrow> (case as_uuid a of Some u \<Rightarrow> ELit (LInt (timeuuid_to_unix_ms u)) | None \<Rightarrow> null))"

definition tounixtimestamp :: "evaluated \<Rightarrow> evaluated" where
  "tounixtimestamp a = (case as_S64 a of
       Some ts \<Rightarrow> ELit (LInt ts)
     | None \<Rightarrow> (case as_uuid a of Some u \<Rightarrow> ELit (LInt (timeuuid_to_unix_ms u)) | None \<Rightarrow> null))"

definition mintimeuuid :: "evaluated \<Rightarrow> evaluated" where
  "mintimeuuid a = (case as_S64 a of Some ts \<Rightarrow> ELit (LUuid (min_timeuuid ts)) | None \<Rightarrow> null)"

definition maxtimeuuid :: "evaluated \<Rightarrow> evaluated" where
  "maxtimeuuid a = (case as_S64 a of Some ts \<Rightarrow> ELit (LUuid (max_timeuuid ts)) | None \<Rightarrow> null)"

definition dateof :: "evaluated \<Rightarrow> evaluated" where
  "dateof a = (case as_uuid a of Some u \<Rightarrow> ELit (LInt (timeuuid_to_unix_ms u)) | None \<Rightarrow> null)"

definition unixtimestampof :: "evaluated \<Rightarrow> evaluated" where
  "unixtimestampof a = (case as_uuid a of Some u \<Rightarrow> ELit (LInt (timeuuid_to_unix_ms u)) | None \<Rightarrow> null)"

definition textasblob :: "evaluated \<Rightarrow> evaluated" where
  "textasblob a = (case as_text a of Some s \<Rightarrow> ELit (LBlob s) | None \<Rightarrow> null)"

definition blobastext :: "evaluated \<Rightarrow> evaluated" where
  "blobastext a = (case as_blob a of
       Some s \<Rightarrow> ELit (LText s)
     | None \<Rightarrow> (case as_hex a of Some s \<Rightarrow> ELit (LText s) | None \<Rightarrow> null))"

definition intasblob :: "evaluated \<Rightarrow> evaluated" where
  "intasblob a = (case as_S64 a of
       Some v \<Rightarrow> ELit (LBlob (be_bytes 4 (unat (ucast v :: u32)))) | None \<Rightarrow> null)"

definition blobasint :: "evaluated \<Rightarrow> evaluated" where
  "blobasint a = (case as_blob a of
       Some s \<Rightarrow> if length s \<noteq> 4 then null else ELit (LInt (scast (word_of_nat (be_nat s) :: u32)))
     | None \<Rightarrow> null)"

definition bigintasblob :: "evaluated \<Rightarrow> evaluated" where
  "bigintasblob a = (case as_S64 a of
       Some v \<Rightarrow> ELit (LBlob (be_bytes 8 (unat v))) | None \<Rightarrow> null)"

definition blobasbigint :: "evaluated \<Rightarrow> evaluated" where
  "blobasbigint a = (case as_blob a of
       Some s \<Rightarrow> if length s \<noteq> 8 then null else ELit (LInt (word_of_nat (be_nat s)))
     | None \<Rightarrow> null)"

definition fn_token :: builtin where
  "fn_token env ctx args w = (case ctx_table ctx of
       None \<Rightarrow> Some (null, w)
     | Some tbl \<Rightarrow>
         if length args \<noteq> length (partition_key_col_indices tbl) then Some (null, w)
         else do { t \<leftarrow> compute_partition_token_from_evals (fpu_of env) tbl args; Some (ELit (LInt t), w) })"

definition builtin_function_registry :: "(string \<times> builtin) list" where
  "builtin_function_registry =
     [(''uuid'', fn_uuid), (''now'', fn_now), (''currenttimeuuid'', fn_now),
      (''currenttimestamp'', fn_currenttimestamp), (''currentdate'', fn_currentdate),
      (''currenttime'', fn_currenttime), (''todate'', unary todate),
      (''totimestamp'', unary totimestamp), (''tounixtimestamp'', unary tounixtimestamp),
      (''mintimeuuid'', unary mintimeuuid), (''maxtimeuuid'', unary maxtimeuuid),
      (''dateof'', unary dateof), (''unixtimestampof'', unary unixtimestampof),
      (''textasblob'', unary textasblob), (''blobastext'', unary blobastext),
      (''intasblob'', unary intasblob), (''blobasint'', unary blobasint),
      (''bigintasblob'', unary bigintasblob), (''blobasbigint'', unary blobasbigint),
      (''token'', fn_token)]"

definition find_function :: "bytes \<Rightarrow> builtin option" where
  "find_function identifier =
     map_option snd (find (\<lambda>(n, _). str_eq (ascii n) (to_lowercase identifier)) builtin_function_registry)"

definition registered_function_exists :: "bytes \<Rightarrow> bool" where
  "registered_function_exists name \<longleftrightarrow> find_function name \<noteq> None"

definition call_registered_function :: "bytes \<Rightarrow> builtin" where
  "call_registered_function name env ctx args w =
     (case find_function name of None \<Rightarrow> Some (null, w) | Some f \<Rightarrow> f env ctx args w)"

definition outer_type_hint_basic :: "trm \<Rightarrow> basic option" where
  "outer_type_hint_basic t = (case t of TypeHint (ABasic b) _ \<Rightarrow> Some b | _ \<Rightarrow> None)"

section \<open>Bind markers\<close>

fun index_digits :: "u64 \<Rightarrow> bytes \<Rightarrow> u64 option" where
  "index_digits i [] = Some i"
| "index_digits i (c # cs) =
     (if c < chr CHR ''0'' \<or> chr CHR ''9'' < c then None
      else index_digits (i * 10 + (ucast c - 48)) cs)"

definition lookup_positional_binding :: "bytes \<Rightarrow> eval_context \<Rightarrow> literal option" where
  "lookup_positional_binding identifier ctx =
     (if identifier = [] then None
      else if hd identifier = chr CHR '':'' then None
      else case index_digits 0 identifier of
          None \<Rightarrow> None
        | Some i \<Rightarrow>
            if length (positional_bindings ctx) \<le> unat i then None
            else Some (positional_bindings ctx ! unat i))"

definition lookup_named_binding :: "bytes \<Rightarrow> eval_context \<Rightarrow> literal option" where
  "lookup_named_binding identifier ctx =
     (if identifier = [] then None
      else let key = (if hd identifier = chr CHR '':'' then tl identifier else identifier);
               key = to_lowercase key
           in map_option snd (find (\<lambda>(n, _). str_eq (to_lowercase n) key) (named_bindings ctx)))"

section \<open>Arithmetic\<close>

definition evaluate_binary_arithmetic :: "fpu \<Rightarrow> evaluated \<Rightarrow> arith_op \<Rightarrow> evaluated \<Rightarrow> evaluated option" where
  "evaluate_binary_arithmetic fp lhs op rhs =
     (if eval_is_unset lhs \<or> eval_is_unset rhs then Some (ELit LUnset)
      else if eval_is_null lhs \<or> eval_is_null rhs then Some null
      else case (as_text lhs, as_text rhs) of
        (Some ls, Some rs) \<Rightarrow> Some (if op \<noteq> Plus then null else ELit (LText (ls @ rs)))
      | _ \<Rightarrow>
        if eval_is_float_like lhs \<or> eval_is_float_like rhs then
          (if op = Mod then Some null
           else case (as_f64 fp lhs, as_f64 fp rhs) of
               (Some l, Some r) \<Rightarrow> Some (case op of
                   Plus \<Rightarrow> ELit (LFloat (f_add fp l r)) | Minus \<Rightarrow> ELit (LFloat (f_sub fp l r))
                 | Times \<Rightarrow> ELit (LFloat (f_mul fp l r)) | Divide \<Rightarrow> ELit (LFloat (f_div fp l r))
                 | Mod \<Rightarrow> null)
             | _ \<Rightarrow> Some null)
        else (case (as_s64 lhs, as_s64 rhs) of
            (Some l, Some r) \<Rightarrow>
              if (op = Divide \<or> op = Mod) \<and> r = 0 then Some null
              else (case op of
                  Plus \<Rightarrow> Some (ELit (LInt (l + r))) | Minus \<Rightarrow> Some (ELit (LInt (l - r)))
                | Times \<Rightarrow> Some (ELit (LInt (l * r)))
                | Divide \<Rightarrow> if l = 0x8000000000000000 \<and> r = - 1 then None else Some (ELit (LInt (s64_div l r)))
                | Mod \<Rightarrow> if l = 0x8000000000000000 \<and> r = - 1 then None else Some (ELit (LInt (s64_mod l r))))
          | _ \<Rightarrow> Some null))"

definition evaluate_unary_minus :: "fpu \<Rightarrow> evaluated \<Rightarrow> evaluated" where
  "evaluate_unary_minus fp v =
     (if eval_is_unset v then ELit LUnset
      else if eval_is_null v then null
      else if eval_is_float_like v then
        (case as_f64 fp v of Some x \<Rightarrow> ELit (LFloat (f_neg fp x)) | None \<Rightarrow> null)
      else (case as_s64 v of Some x \<Rightarrow> ELit (LInt (- x)) | None \<Rightarrow> null))"

section \<open>Terms\<close>

definition evaluate_bind :: "eval_context \<Rightarrow> bytes \<Rightarrow> evaluated" where
  "evaluate_bind ctx identifier =
     (case lookup_positional_binding identifier ctx of
        Some c \<Rightarrow> ELit c
      | None \<Rightarrow> (case lookup_named_binding identifier ctx of Some c \<Rightarrow> ELit c | None \<Rightarrow> null))"

fun evaluate_term :: "env \<Rightarrow> eval_context \<Rightarrow> trm \<Rightarrow> world \<Rightarrow> (evaluated \<times> world) option"
and evaluate_terms :: "env \<Rightarrow> eval_context \<Rightarrow> trm list \<Rightarrow> world \<Rightarrow> (evaluated list \<times> world) option"
where
  "evaluate_term env ctx (Lit l) w = Some (ELit l, w)"
| "evaluate_term env ctx (Bind identifier) w = Some (evaluate_bind ctx identifier, w)"
| "evaluate_term env ctx (MapLit kvs) w = Some (EMap kvs, w)"
| "evaluate_term env ctx (SetLit ks) w = Some (ESet ks, w)"
| "evaluate_term env ctx (ListLit es) w = Some (EList es, w)"
| "evaluate_term env ctx (UdtLit fs) w = Some (EUdt fs, w)"
| "evaluate_term env ctx (TupleLit es) w = Some (ETuple es, w)"
| "evaluate_term env ctx (FunctionCall f args) w = do {
     (vs, w) \<leftarrow> evaluate_terms env ctx args w;
     call_registered_function f env ctx vs w
   }"
| "evaluate_term env ctx (UnaryMinus t) w = do {
     (v, w) \<leftarrow> evaluate_term env ctx t w;
     Some (evaluate_unary_minus (fpu_of env) v, w)
   }"
| "evaluate_term env ctx (Arith l op r) w = do {
     (x, w) \<leftarrow> evaluate_term env ctx l w;
     (y, w) \<leftarrow> evaluate_term env ctx r w;
     v \<leftarrow> evaluate_binary_arithmetic (fpu_of env) x op y;
     Some (v, w)
   }"
| "evaluate_term env ctx (TypeHint _ t) w = evaluate_term env ctx t w"
| "evaluate_term env ctx (Value v) w = Some (ECol v, w)"
| "evaluate_terms env ctx [] w = Some ([], w)"
| "evaluate_terms env ctx (t # ts) w = do {
     (v, w) \<leftarrow> evaluate_term env ctx t w;
     (vs, w) \<leftarrow> evaluate_terms env ctx ts w;
     Some (v # vs, w)
   }"

fun evaluate_toi :: "env \<Rightarrow> eval_context \<Rightarrow> trm_id \<Rightarrow> world \<Rightarrow> (evaluated \<times> world) option" where
  "evaluate_toi env ctx (Plain t) w = evaluate_term env ctx t w"
| "evaluate_toi env ctx (Column name) w = do { v \<leftarrow> lookup_column_value ctx name; Some (v, w) }"
| "evaluate_toi env ctx (IdMinus t) w = do {
     (v, w) \<leftarrow> evaluate_toi env ctx t w;
     Some (evaluate_unary_minus (fpu_of env) v, w)
   }"
| "evaluate_toi env ctx (IdArith l op r) w = do {
     (x, w) \<leftarrow> evaluate_toi env ctx l w;
     (y, w) \<leftarrow> evaluate_toi env ctx r w;
     v \<leftarrow> evaluate_binary_arithmetic (fpu_of env) x op y;
     Some (v, w)
   }"

section \<open>Comparing evaluated values\<close>

fun bytes_cmp :: "bytes \<Rightarrow> bytes \<Rightarrow> int" where
  "bytes_cmp (x # xs) (y # ys) = (if x \<noteq> y then if x < y then -1 else 1 else bytes_cmp xs ys)"
| "bytes_cmp _ _ = 0"

definition text_cmp :: "bytes \<Rightarrow> bytes \<Rightarrow> int" where
  "text_cmp l r = (let c = bytes_cmp l r in
     if c \<noteq> 0 then c
     else if length l < length r then -1 else if length r < length l then 1 else 0)"

text \<open>\<open>None\<close>: the values are not comparable.\<close>

definition compare_evaluated :: "fpu \<Rightarrow> evaluated \<Rightarrow> evaluated \<Rightarrow> int option" where
  "compare_evaluated fp lhs rhs =
     (if eval_is_null lhs \<or> eval_is_null rhs then None
      else case (as_s64 lhs, as_s64 rhs) of
        (Some l, Some r) \<Rightarrow> Some (if sint l < sint r then -1 else if sint r < sint l then 1 else 0)
      | _ \<Rightarrow> (case (as_f64 fp lhs, as_f64 fp rhs) of
        (Some l, Some r) \<Rightarrow> Some (if f_less fp l r then -1 else if f_less fp r l then 1 else 0)
      | _ \<Rightarrow> (case (as_text lhs, as_text rhs) of
        (Some l, Some r) \<Rightarrow> Some (text_cmp l r)
      | _ \<Rightarrow> (case (as_uuid lhs, as_uuid rhs) of
        (Some l, Some r) \<Rightarrow> Some (bytes_cmp l r)
      | _ \<Rightarrow> None))))"

definition apply_operator :: "int \<Rightarrow> operator \<Rightarrow> bool option" where
  "apply_operator cmp op = (case op of
       OpEq \<Rightarrow> Some (cmp = 0) | OpNe \<Rightarrow> Some (cmp \<noteq> 0)
     | OpLt \<Rightarrow> Some (cmp < 0) | OpLe \<Rightarrow> Some (cmp \<le> 0)
     | OpGt \<Rightarrow> Some (0 < cmp) | OpGe \<Rightarrow> Some (0 \<le> cmp)
     | OpIn \<Rightarrow> None
     | OpContains \<Rightarrow> Some False | OpContainsKey \<Rightarrow> Some False)"

definition evaluate_contains :: "fpu \<Rightarrow> evaluated \<Rightarrow> evaluated \<Rightarrow> bool \<Rightarrow> bool" where
  "evaluate_contains fp lhs rhs match_keys =
     (case lhs of
        ECol (CArray vs) \<Rightarrow>
          \<not> match_keys \<and> list_ex (\<lambda>e. compare_evaluated fp (ECol e) rhs = Some 0) vs
      | ECol (CSet s) \<Rightarrow>
          \<not> match_keys \<and> list_ex (\<lambda>e. compare_evaluated fp (ECol e) rhs = Some 0) (concat s)
      | ECol (CMap m) \<Rightarrow>
          list_ex (\<lambda>e. compare_evaluated fp (ECol (if match_keys then fst e else snd e)) rhs = Some 0) (concat m)
      | _ \<Rightarrow> False)"

section \<open>Predicates\<close>

fun in_list :: "env \<Rightarrow> eval_context \<Rightarrow> evaluated \<Rightarrow> trm list \<Rightarrow> world \<Rightarrow> (bool \<times> world) option" where
  "in_list env ctx lhs [] w = Some (False, w)"
| "in_list env ctx lhs (e # es) w = do {
     (v, w) \<leftarrow> evaluate_term env ctx e w;
     if compare_evaluated (fpu_of env) lhs v = Some 0 then Some (True, w) else in_list env ctx lhs es w
   }"

text \<open>The right-hand side as a value of the column's type, where it has one.\<close>

definition typed_rhs :: "fpu \<Rightarrow> evaluated \<Rightarrow> basic \<Rightarrow> cv option" where
  "typed_rhs fp rhs dtype = (case rhs of
       ELit lit \<Rightarrow> resolve_literal_scalar fp lit (TBasic dtype)
     | ECol v \<Rightarrow> Some v
     | _ \<Rightarrow> None)"

definition compare_untyped :: "fpu \<Rightarrow> evaluated \<Rightarrow> evaluated \<Rightarrow> operator \<Rightarrow> bool option" where
  "compare_untyped fp lhs rhs op =
     (case compare_evaluated fp lhs rhs of None \<Rightarrow> Some False | Some cmp \<Rightarrow> apply_operator cmp op)"

definition compare_relation :: "fpu \<Rightarrow> table \<Rightarrow> nat \<Rightarrow> cv \<Rightarrow> evaluated \<Rightarrow> operator \<Rightarrow> bool option" where
  "compare_relation fp tbl ci lhs_cv rhs op = do {
     c \<leftarrow> col_at tbl ci;
     case (if lhs_cv = CNull then None else basic_of (col_type c)) of
       None \<Rightarrow> compare_untyped fp (ECol lhs_cv) rhs op
     | Some dtype \<Rightarrow>
         (case typed_rhs fp rhs dtype of
            Some v \<Rightarrow>
              if v \<noteq> CNull then do { cmp \<leftarrow> compare_column_value lhs_cv v dtype; apply_operator cmp op }
              else compare_untyped fp (ECol lhs_cv) rhs op
          | None \<Rightarrow> compare_untyped fp (ECol lhs_cv) rhs op)
   }"

definition evaluate_column_relation ::
    "env \<Rightarrow> eval_context \<Rightarrow> bytes \<Rightarrow> operator \<Rightarrow> trm \<Rightarrow> world \<Rightarrow> (bool \<times> world) option" where
  "evaluate_column_relation env ctx column op value w = do {
     lhs \<leftarrow> lookup_column_value ctx column;
     if op = OpContains \<or> op = OpContainsKey then
       if eval_is_null lhs then Some (False, w)
       else do {
         (rhs, w) \<leftarrow> evaluate_term env ctx value w;
         Some (if eval_is_null rhs then False else evaluate_contains (fpu_of env) lhs rhs (op = OpContainsKey), w)
       }
     else if op = OpIn then do {
       (rhs, w) \<leftarrow> evaluate_term env ctx value w;
       case rhs of
         ETuple es \<Rightarrow> in_list env ctx lhs es w
       | EList es \<Rightarrow> in_list env ctx lhs es w
       | _ \<Rightarrow> Some (compare_evaluated (fpu_of env) lhs rhs = Some 0, w)
     }
     else do {
       (rhs, w) \<leftarrow> evaluate_term env ctx value w;
       b \<leftarrow> (case (lhs, ctx_table ctx) of
           (ECol lhs_cv, Some tbl) \<Rightarrow> do {
             ci \<leftarrow> find_column tbl column;
             compare_relation (fpu_of env) tbl ci lhs_cv rhs op }
         | _ \<Rightarrow> compare_untyped (fpu_of env) lhs rhs op);
       Some (b, w)
     }
   }"

text \<open>A tuple of the row against a tuple of terms, column by column while all are equal.\<close>

fun tuple_equal :: "env \<Rightarrow> eval_context \<Rightarrow> bytes list \<Rightarrow> trm list \<Rightarrow> world \<Rightarrow> (bool \<times> world) option" where
  "tuple_equal env ctx (c # columns) (e # es) w = do {
     lhs \<leftarrow> lookup_column_value ctx c;
     (rhs, w) \<leftarrow> evaluate_term env ctx e w;
     if compare_evaluated (fpu_of env) lhs rhs \<noteq> Some 0 then Some (False, w)
     else tuple_equal env ctx columns es w
   }"
| "tuple_equal env ctx _ _ w = Some (True, w)"

fun tuple_inequality ::
    "env \<Rightarrow> eval_context \<Rightarrow> operator \<Rightarrow> bytes list \<Rightarrow> trm list \<Rightarrow> world \<Rightarrow> (bool \<times> world) option" where
  "tuple_inequality env ctx op (c # columns) (e # es) w = do {
     lhs \<leftarrow> lookup_column_value ctx c;
     (rhs, w) \<leftarrow> evaluate_term env ctx e w;
     case compare_evaluated (fpu_of env) lhs rhs of
       None \<Rightarrow> Some (False, w)
     | Some cmp \<Rightarrow>
         if cmp = 0 then tuple_inequality env ctx op columns es w
         else do { b \<leftarrow> apply_operator cmp op; Some (b, w) }
   }"
| "tuple_inequality env ctx op _ _ w = Some (op = OpLe \<or> op = OpGe, w)"

fun tuple_in :: "env \<Rightarrow> eval_context \<Rightarrow> bytes list \<Rightarrow> trm list \<Rightarrow> world \<Rightarrow> (bool \<times> world) option" where
  "tuple_in env ctx columns [] w = Some (False, w)"
| "tuple_in env ctx columns (v # vs) w = do {
     (b, w) \<leftarrow> (case v of
         TupleLit es \<Rightarrow> tuple_equal env ctx columns es w
       | _ \<Rightarrow> (case columns of
           [] \<Rightarrow> Some (False, w)
         | c # _ \<Rightarrow> do {
             lhs \<leftarrow> lookup_column_value ctx c;
             (rhs, w) \<leftarrow> evaluate_term env ctx v w;
             Some (compare_evaluated (fpu_of env) lhs rhs = Some 0, w) }));
     if b then Some (True, w) else tuple_in env ctx columns vs w
   }"

definition evaluate_tuple_relation ::
    "env \<Rightarrow> eval_context \<Rightarrow> bytes list \<Rightarrow> operator \<Rightarrow> trm list \<Rightarrow> world \<Rightarrow> (bool \<times> world) option" where
  "evaluate_tuple_relation env ctx columns op vals w =
     (if op = OpIn then tuple_in env ctx columns vals w
      else if \<not> tuple_rhs_is_compatible columns vals then Some (True, w)
      else do {
        es \<leftarrow> map_opt (tuple_value_at columns vals) [0..<length columns];
        if op = OpEq then tuple_equal env ctx columns es w
        else if is_inequality op then tuple_inequality env ctx op columns es w
        else Some (True, w)
      })"

definition evaluate_token_relation ::
    "env \<Rightarrow> eval_context \<Rightarrow> operator \<Rightarrow> trm \<Rightarrow> world \<Rightarrow> (bool \<times> world) option" where
  "evaluate_token_relation env ctx op value w =
     (case (ctx_table ctx, row_values ctx) of
        (Some tbl, Some row) \<Rightarrow> do {
          lhs_tok \<leftarrow> compute_partition_token tbl row;
          (rhs, w) \<leftarrow> evaluate_term env ctx value w;
          b \<leftarrow> compare_untyped (fpu_of env) (ELit (LInt lhs_tok)) rhs op;
          Some (b, w)
        }
      | _ \<Rightarrow> Some (True, w))"

definition evaluate_subscripted_relation ::
    "env \<Rightarrow> eval_context \<Rightarrow> bytes \<Rightarrow> trm \<Rightarrow> operator \<Rightarrow> trm \<Rightarrow> world \<Rightarrow> (bool \<times> world) option" where
  "evaluate_subscripted_relation env ctx column subscript op value w = do {
     map_eval \<leftarrow> lookup_column_value ctx column;
     case map_eval of
       ECol (CMap m) \<Rightarrow> do {
         (key_eval, w) \<leftarrow> evaluate_term env ctx subscript w;
         (rhs, w) \<leftarrow> evaluate_term env ctx value w;
         case find (\<lambda>e. compare_evaluated (fpu_of env) (ECol (fst e)) key_eval = Some 0) (concat m) of
           None \<Rightarrow> Some (False, w)
         | Some e \<Rightarrow> do { b \<leftarrow> compare_untyped (fpu_of env) (ECol (snd e)) rhs op; Some (b, w) }
       }
     | _ \<Rightarrow> Some (False, w)
   }"

fun evaluate_relation :: "env \<Rightarrow> eval_context \<Rightarrow> relation \<Rightarrow> world \<Rightarrow> (bool \<times> world) option" where
  "evaluate_relation env ctx (ColumnRelation c op v) w = evaluate_column_relation env ctx c op v w"
| "evaluate_relation env ctx (TupleRelation cs op vs) w = evaluate_tuple_relation env ctx cs op vs w"
| "evaluate_relation env ctx (TokenRelation _ op v) w = evaluate_token_relation env ctx op v w"
| "evaluate_relation env ctx (SubscriptedRelation c s op v) w = evaluate_subscripted_relation env ctx c s op v w"

fun evaluate_where :: "env \<Rightarrow> eval_context \<Rightarrow> relation list \<Rightarrow> world \<Rightarrow> (bool \<times> world) option" where
  "evaluate_where env ctx [] w = Some (True, w)"
| "evaluate_where env ctx (p # ps) w = do {
     (passes, w) \<leftarrow> evaluate_relation env ctx p w;
     if \<not> passes then Some (False, w) else evaluate_where env ctx ps w
   }"

section \<open>Numbering of bind markers\<close>

fun number_bind_markers_in_term :: "trm \<Rightarrow> u64 \<Rightarrow> trm \<times> u64"
and number_bind_markers_in_terms :: "trm list \<Rightarrow> u64 \<Rightarrow> trm list \<times> u64"
where
  "number_bind_markers_in_term (Bind identifier) i =
     (if identifier = [] then (Bind (to_str_unsigned i), i + 1) else (Bind identifier, i))"
| "number_bind_markers_in_term (Arith l op r) i =
     (let (l, i) = number_bind_markers_in_term l i; (r, i) = number_bind_markers_in_term r i
      in (Arith l op r, i))"
| "number_bind_markers_in_term (UnaryMinus t) i =
     (let (t, i) = number_bind_markers_in_term t i in (UnaryMinus t, i))"
| "number_bind_markers_in_term (FunctionCall f args) i =
     (let (args, i) = number_bind_markers_in_terms args i in (FunctionCall f args, i))"
| "number_bind_markers_in_term (TypeHint ty t) i =
     (let (t, i) = number_bind_markers_in_term t i in (TypeHint ty t, i))"
| "number_bind_markers_in_term t i = (t, i)"
| "number_bind_markers_in_terms [] i = ([], i)"
| "number_bind_markers_in_terms (t # ts) i =
     (let (t, i) = number_bind_markers_in_term t i; (ts, i) = number_bind_markers_in_terms ts i
      in (t # ts, i))"

text \<open>The values of an \<open>INSERT\<close>, the one statement whose markers are numbered.\<close>

definition number_bind_markers :: "trm list \<Rightarrow> trm list" where
  "number_bind_markers insert_values = fst (number_bind_markers_in_terms insert_values 0)"

section \<open>Timestamps in and out of a UUID\<close>

lemma hex_masks: "(0xff :: 'a::len word) = mask 8" "(0x0f :: 'a word) = mask 4" "(0x0FFF :: 'a word) = mask 12" 
  by (simp_all add: mask_numeral)

lemma bit_10: "bit (0x10 :: 'a::semiring_bit_operations) n \<longleftrightarrow> possible_bit TYPE('a) n \<and> n = 4"
proof -
  have "(0x10 :: 'a) = 2 ^ 4" by simp
  then show ?thesis by (simp only: bit_exp_iff)
qed

lemma time_hi: "(ucast ((push_bit 8 (ucast (0x10 OR ucast (drop_bit 56 ts AND 0x0f) :: u8)) OR
   (ucast (ucast (drop_bit 48 ts AND 0xff) :: u8) :: u16)) AND 0x0FFF) :: u64) = take_bit 12 (drop_bit 48 (ts :: u64))"
  unfolding hex_masks
proof (rule bit_word_eqI)
  fix n assume "n < LENGTH(64)"
  show "bit (ucast ((push_bit 8 (ucast (0x10 OR ucast (drop_bit 56 ts AND mask 4) :: u8)) OR
   (ucast (ucast (drop_bit 48 ts AND mask 8) :: u8) :: u16)) AND mask 12) :: u64) n = bit (take_bit 12 (drop_bit 48 ts)) n"
   by (cases "n < 8"; cases "n < 12") (auto simp add: bit_simps bit_10)
qed

lemma two_bytes: "(ucast (push_bit 8 (ucast (ucast (drop_bit (k + 8) ts AND 0xff) :: u8)) OR
   (ucast (ucast (drop_bit k ts AND 0xff) :: u8) :: u16)) :: u64) = take_bit 16 (drop_bit k (ts :: u64))"
  unfolding hex_masks
proof (rule bit_word_eqI)
  fix n assume "n < LENGTH(64)"
  show "bit (ucast (push_bit 8 (ucast (ucast (drop_bit (k + 8) ts AND mask 8) :: u8)) OR
   (ucast (ucast (drop_bit k ts AND mask 8) :: u8) :: u16)) :: u64) n = bit (take_bit 16 (drop_bit k ts)) n"
   by (cases "n < 8"; cases "n < 16") (auto simp add: bit_simps add.commute add.left_commute)
qed

lemma four_bytes: "(ucast (push_bit 24 (ucast (ucast (drop_bit 24 ts AND 0xff) :: u8)) OR
   push_bit 16 (ucast (ucast (drop_bit 16 ts AND 0xff) :: u8)) OR
   push_bit 8 (ucast (ucast (drop_bit 8 ts AND 0xff) :: u8)) OR
   (ucast (ucast (ts AND 0xff) :: u8) :: u32)) :: u64) = take_bit 32 (ts :: u64)"
  unfolding hex_masks
proof (rule bit_word_eqI)
  fix n assume "n < LENGTH(64)"
  show "bit (ucast (push_bit 24 (ucast (ucast (drop_bit 24 ts AND mask 8) :: u8)) OR
   push_bit 16 (ucast (ucast (drop_bit 16 ts AND mask 8) :: u8)) OR
   push_bit 8 (ucast (ucast (drop_bit 8 ts AND mask 8) :: u8)) OR
   (ucast (ucast (ts AND mask 8) :: u8) :: u32)) :: u64) n = bit (take_bit 32 ts) n"
   by (cases "n < 8"; cases "n < 16"; cases "n < 24"; cases "n < 32") (auto simp: bit_simps)
qed

lemma parts: "push_bit 48 (take_bit 12 (drop_bit 48 ts)) OR push_bit 32 (take_bit 16 (drop_bit 32 ts)) OR take_bit 32 ts = take_bit 60 (ts::u64)"
proof (rule bit_word_eqI)
  fix n assume "n < LENGTH(64)"
  then show "bit (push_bit 48 (take_bit 12 (drop_bit 48 ts)) OR push_bit 32 (take_bit 16 (drop_bit 32 ts)) OR take_bit 32 ts) n = bit (take_bit 60 (ts::u64)) n"
   by (cases "n < 32"; cases "n < 48"; cases "n < 60")  (auto simp: bit_simps)
qed

lemma timestamp_of_timeuuid: "timeuuid_timestamp (make_timeuuid_from_ts_100ns ts cs node) = take_bit 60 ts"
  using two_bytes [of 32 ts]
  by (simp add: timeuuid_timestamp_def make_timeuuid_from_ts_100ns_def time_hi four_bytes parts Let_def)

lemma low_byte: "(ucast (ucast (w AND 0xff :: u64) :: u8) :: u64) = take_bit 8 w"
  unfolding hex_masks by (rule bit_word_eqI) (auto simp: bit_simps)

lemma low_nibble: "(ucast ((0x10 OR ucast (w AND 0x0f :: u64) :: u8) AND 0x0f) :: u64) = take_bit 4 w"
  unfolding hex_masks by (rule bit_word_eqI) (auto simp: bit_simps bit_10)

lemma put_bits: "push_bit m (take_bit k (drop_bit m ts)) OR take_bit m ts = take_bit (m + k) (ts::u64)"
  by (rule bit_word_eqI) (auto simp: bit_simps)

lemma byte_parts: "push_bit 24 (take_bit 8 (drop_bit 24 ts)) OR push_bit 16 (take_bit 8 (drop_bit 16 ts)) OR push_bit 8 (take_bit 8 (drop_bit 8 ts))
      OR take_bit 8 ts OR push_bit 40 (take_bit 8 (drop_bit 40 ts)) OR push_bit 32 (take_bit 8 (drop_bit 32 ts))
      OR push_bit 56 (take_bit 4 (drop_bit 56 ts)) OR push_bit 48 (take_bit 8 (drop_bit 48 ts)) = take_bit 60 (ts::u64)"
proof -
  have p: "push_bit 8 (take_bit 8 (drop_bit 8 ts)) OR take_bit 8 ts = take_bit 16 ts"
    "push_bit 16 (take_bit 8 (drop_bit 16 ts)) OR take_bit 16 ts = take_bit 24 ts"
    "push_bit 24 (take_bit 8 (drop_bit 24 ts)) OR take_bit 24 ts = take_bit 32 ts"
    "push_bit 32 (take_bit 8 (drop_bit 32 ts)) OR take_bit 32 ts = take_bit 40 ts"
    "push_bit 40 (take_bit 8 (drop_bit 40 ts)) OR take_bit 40 ts = take_bit 48 ts"
    "push_bit 48 (take_bit 8 (drop_bit 48 ts)) OR take_bit 48 ts = take_bit 56 ts"
    "push_bit 56 (take_bit 4 (drop_bit 56 ts)) OR take_bit 56 ts = take_bit 60 ts"
    using put_bits [of 8 8 ts] put_bits [of 16 8 ts] put_bits [of 24 8 ts] put_bits [of 32 8 ts] put_bits [of 40 8 ts] put_bits [of 48 8 ts] put_bits [of 56 4 ts] by simp_all
  have "take_bit 60 ts = push_bit 56 (take_bit 4 (drop_bit 56 ts)) OR (push_bit 48 (take_bit 8 (drop_bit 48 ts)) OR (push_bit 40 (take_bit 8 (drop_bit 40 ts))
     OR (push_bit 32 (take_bit 8 (drop_bit 32 ts)) OR (push_bit 24 (take_bit 8 (drop_bit 24 ts)) OR (push_bit 16 (take_bit 8 (drop_bit 16 ts)) OR (push_bit 8 (take_bit 8 (drop_bit 8 ts)) OR take_bit 8 ts))))))"
    by (simp only: p)
  then show ?thesis by (simp only: or.assoc or.commute or.left_commute)
qed

lemma unix_ms_of_timeuuid: "timeuuid_to_unix_ms (make_timeuuid_from_ts_100ns ts cs node) = uuid_timestamp_100ns_to_unix_ms (take_bit 60 ts)"
  using byte_parts [of ts]
  by (simp add: timeuuid_to_unix_ms_def make_timeuuid_from_ts_100ns_def low_byte low_nibble)

lemma timeuuid_ms_roundtrip:
  assumes "0 \<le> sint ms * 10000 + 122192928000000000" "sint ms * 10000 + 122192928000000000 < 2 ^ 60"
  shows "timeuuid_to_unix_ms (make_timeuuid_from_unix_ms ms cs node) = ms"
proof -
  let ?x = "sint ms * 10000 + 122192928000000000" and ?ts = "unix_ms_to_uuid_timestamp_100ns ms"
  have ts: "?ts = word_of_int ?x"
    by (simp add: unix_ms_to_uuid_timestamp_100ns_def UUID_EPOCH_OFFSET_100NS_def)
  have "uint ?ts = ?x mod 2 ^ 64" unfolding ts by (simp only: uint_word_of_int) simp
  then have "uint ?ts = ?x" using assms by (simp only: mod_pos_pos_trivial) simp
  then have t: "take_bit 60 ?ts = ?ts"
    using assms by (simp add: word_uint_eq_iff unsigned_take_bit_eq take_bit_int_eq_self)
  have d: "?ts - UUID_EPOCH_OFFSET_100NS = word_of_int (sint ms * 10000)"
    by (simp add: ts UUID_EPOCH_OFFSET_100NS_def)
  have "sint (word_of_int (sint ms * 10000) :: u64) = sint ms * 10000"
    using assms by (simp add: sint_sbintrunc' signed_take_bit_int_eq_self del: of_int_mult)
  then have "s64_div (?ts - UUID_EPOCH_OFFSET_100NS) 10000 = word_of_int ((sint ms * 10000) sdiv 10000)"
    by (simp add: s64_div_def d del: of_int_mult)
  also have "(sint ms * 10000) sdiv 10000 = sint ms"
    by (simp add: signed_divide_int_def sgn_mult abs_mult sgn_mult_abs)
  finally show ?thesis
    by (simp add: make_timeuuid_from_unix_ms_def unix_ms_of_timeuuid t uuid_timestamp_100ns_to_unix_ms_def)
qed

section \<open>Successive values of now()\<close>

text \<open>The values of \<open>n\<close> calls, whatever the clock reads in between.\<close>

fun now_sequence :: "nat \<Rightarrow> env \<Rightarrow> world \<Rightarrow> bytes list \<times> world" where
  "now_sequence 0 env w = ([], w)"
| "now_sequence (Suc n) env w =
     (let (u, w) = now_timeuuid env w; (us, w) = now_sequence n env w in (u # us, w))"

lemma now_timeuuid_advances:
  assumes "now_timeuuid env w = (u, w')"
    and "unat (last_ts_100ns w) + 1 < 2 ^ 60"
    and "unat (unix_ms_to_uuid_timestamp_100ns (unix_ms_now env (reads w))) < 2 ^ 60"
  shows "timeuuid_timestamp u = last_ts_100ns w'" "last_ts_100ns w < last_ts_100ns w'"
    "unat (last_ts_100ns w') \<le> max (unat (last_ts_100ns w) + 1)
       (unat (unix_ms_to_uuid_timestamp_100ns (unix_ms_now env (reads w))))"
proof -
  let ?t = "unix_ms_to_uuid_timestamp_100ns (unix_ms_now env (reads w))"
  let ?ts = "if ?t \<le> last_ts_100ns w then last_ts_100ns w + 1 else ?t"
  have w': "last_ts_100ns w' = ?ts"
    and u: "\<exists>cs. u = make_timeuuid_from_ts_100ns ?ts cs (node_id env)"
    using assms(1) by (auto simp: now_timeuuid_def Let_def tick_def)
  have s: "unat (last_ts_100ns w + 1) = unat (last_ts_100ns w) + 1"
    using assms(2) by (subst unat_add_lem [THEN iffD1]) simp_all
  then have lt: "unat ?ts < 2 ^ 60" using assms(2,3) by simp
  then have "take_bit 60 ?ts = ?ts"
    by (simp add: word_unat_eq_iff unsigned_take_bit_eq take_bit_nat_eq_self)
  then show "timeuuid_timestamp u = last_ts_100ns w'" using u w' by (auto simp: timestamp_of_timeuuid)
  show "last_ts_100ns w < last_ts_100ns w'" using s by (auto simp: w' word_less_nat_alt word_le_nat_alt)
  show "unat (last_ts_100ns w') \<le> max (unat (last_ts_100ns w) + 1) (unat ?t)" using s by (simp add: w')
qed

lemma now_sequence_increases:
  assumes "unat (last_ts_100ns w) + n < 2 ^ 60"
    and "\<forall>k. unat (unix_ms_to_uuid_timestamp_100ns (unix_ms_now env k)) + n < 2 ^ 60"
  shows "sorted_wrt (<) (map timeuuid_timestamp (fst (now_sequence n env w))) \<and>
    (\<forall>u \<in> set (fst (now_sequence n env w)). last_ts_100ns w < timeuuid_timestamp u)"
  using assms
proof (induction n arbitrary: w)
  case (Suc n)
  obtain u w' where u: "now_timeuuid env w = (u, w')" by fastforce
  have b: "unat (last_ts_100ns w) + 1 < 2 ^ 60"
    "unat (unix_ms_to_uuid_timestamp_100ns (unix_ms_now env (reads w))) + Suc n < 2 ^ 60"
    using Suc.prems by auto
  note now = now_timeuuid_advances [OF u b(1)]
  have "unat (last_ts_100ns w') + n < 2 ^ 60" using now(3) b Suc.prems(1) by auto
  moreover have "\<forall>k. unat (unix_ms_to_uuid_timestamp_100ns (unix_ms_now env k)) + n < 2 ^ 60"
    using Suc.prems(2) by (metis Suc_lessD add_Suc_right)
  ultimately have IH: "sorted_wrt (<) (map timeuuid_timestamp (fst (now_sequence n env w')))"
    "\<forall>u \<in> set (fst (now_sequence n env w')). last_ts_100ns w' < timeuuid_timestamp u"
    using Suc.IH [of w'] by blast+
  have t: "timeuuid_timestamp u = last_ts_100ns w'" "last_ts_100ns w < last_ts_100ns w'"
    using now(1,2) b(2) by auto
  show ?case using IH t by (auto simp: u split_def Let_def intro: order.strict_trans)
qed simp

text \<open>
  A second value of the millisecond \<open>ms\<close> lies behind \<open>maxTimeuuid(ms)\<close>: the counter that makes
  the values increase moves the timestamp, and the upper bound has no room for it.
\<close>

lemma now_behind_max:
  assumes "unix_ms_now env (reads w) = ms" "last_ts_100ns w = unix_ms_to_uuid_timestamp_100ns ms"
    and "unat (unix_ms_to_uuid_timestamp_100ns ms) + 1 < 2 ^ 60"
  shows "0 < compare_timeuuid (fst (now_timeuuid env w)) (max_timeuuid ms)"
proof -
  obtain u w' where u: "now_timeuuid env w = (u, w')" by fastforce
  have "unat (unix_ms_to_uuid_timestamp_100ns (unix_ms_now env (reads w))) < 2 ^ 60"
    using assms(1,3) by simp
  then have "unix_ms_to_uuid_timestamp_100ns ms < timeuuid_timestamp u"
    using now_timeuuid_advances [OF u] assms by simp
  moreover have "take_bit 60 (unix_ms_to_uuid_timestamp_100ns ms) = unix_ms_to_uuid_timestamp_100ns ms"
    using assms(3) by (simp add: word_unat_eq_iff unsigned_take_bit_eq take_bit_nat_eq_self)
  ultimately show ?thesis
    by (auto simp: u compare_timeuuid_def max_timeuuid_def make_timeuuid_from_unix_ms_def
        timestamp_of_timeuuid compare_scalar_def Let_def)
qed

section \<open>Equality and membership\<close>

lemma bytes_cmp_0: "length l = length r \<Longrightarrow> bytes_cmp l r = 0 \<longleftrightarrow> l = r"
  by (induction l r rule: bytes_cmp.induct) auto

lemma text_cmp_0: "text_cmp l r = 0 \<longleftrightarrow> l = r"
  using bytes_cmp_0 [of l r] by (auto simp: text_cmp_def Let_def)

text \<open>The literals that a column of type \<open>t\<close> holds without narrowing, for the types whose values the
  untyped comparison reads as they are.\<close>

fun plain_literal :: "basic \<Rightarrow> literal \<Rightarrow> bool" where
  "plain_literal t (LInt n) \<longleftrightarrow>
     t \<in> {BBigint, BTimestamp, BCounter, BTime} \<or>
     t \<in> {BInt, BDate} \<and> scast (ucast n :: u32) = n \<or> t = BSmallint \<and> scast (ucast n :: u16) = n"
| "plain_literal t (LText _) \<longleftrightarrow> t \<in> {BText, BVarchar, BAscii}"
| "plain_literal t (LBool _) \<longleftrightarrow> t = BBoolean"
| "plain_literal t _ \<longleftrightarrow> False"

text \<open>The value of a column of a row.\<close>

definition row_has :: "eval_context \<Rightarrow> bytes \<Rightarrow> basic \<Rightarrow> cv \<Rightarrow> bool" where
  "row_has ctx name t v \<longleftrightarrow> (\<exists>tbl row ci. ctx_table ctx = Some tbl \<and> row_values ctx = Some row \<and>
     find_column tbl name = Some ci \<and> basic_at tbl ci = Some t \<and> row_value row ci = Some v)"

lemma basic_at_Some: "basic_at tbl ci = Some b \<longleftrightarrow> (\<exists>c. col_at tbl ci = Some c \<and> col_type c = TBasic b)"
proof (cases "col_at tbl ci")
  case (Some c)
  then show ?thesis by (cases "col_type c") (simp_all add: basic_at_def)
qed (simp add: basic_at_def)

lemma row_hasE:
  assumes "row_has ctx name t v"
  obtains tbl ci c where "ctx_table ctx = Some tbl" "find_column tbl name = Some ci"
    "col_at tbl ci = Some c" "col_type c = TBasic t" "lookup_column_value ctx name = Some (ECol v)"
  using assms
  by (auto simp: row_has_def basic_at_Some lookup_column_value_def)

lemma evaluate_eq_literal:
  assumes "row_has ctx name t v" "v \<noteq> CNull" "resolve_literal_scalar (fpu_of env) lit (TBasic t) = Some x" "x \<noteq> CNull"
  shows "evaluate_column_relation env ctx name OpEq (Lit lit) w =
    map_option (\<lambda>c. (c = 0, w)) (compare_column_value v x t)"
  using assms(1)
proof (rule row_hasE)
  fix tbl ci c
  assume "ctx_table ctx = Some tbl" "find_column tbl name = Some ci" "col_at tbl ci = Some c"
    "col_type c = TBasic t" "lookup_column_value ctx name = Some (ECol v)"
  then show ?thesis
    using assms(2-4)
    by (cases "compare_column_value v x t")
      (simp_all add: evaluate_column_relation_def compare_relation_def basic_of_def typed_rhs_def apply_operator_def)
qed

lemma evaluate_in_literals:
  assumes "lookup_column_value ctx name = Some lhs"
  shows "evaluate_column_relation env ctx name OpIn (TupleLit (map Lit lits)) w =
    Some (\<exists>l \<in> set lits. compare_evaluated (fpu_of env) lhs (ELit l) = Some 0, w)"
proof -
  have "in_list env ctx lhs (map Lit lits) w =
    Some (\<exists>l \<in> set lits. compare_evaluated (fpu_of env) lhs (ELit l) = Some 0, w)"
    by (induction lits) auto
  then show ?thesis using assms by (simp add: evaluate_column_relation_def)
qed

lemma sint_widen:
  fixes x :: "'a::len word"
  assumes "LENGTH('a) \<le> LENGTH('b)"
  shows "sint (scast x :: 'b::len word) = sint x"
proof -
  have "(2 :: int) ^ (LENGTH('a) - 1) \<le> 2 ^ (LENGTH('b) - 1)"
    using assms by (intro power_increasing) auto
  moreover have "- (2 ^ (LENGTH('a) - 1)) \<le> sint x" "sint x < 2 ^ (LENGTH('a) - 1)"
    by (rule sint_ge, rule sint_lt)
  ultimately have "- (2 ^ (LENGTH('b) - 1)) \<le> sint x" "sint x < 2 ^ (LENGTH('b) - 1)" by linarith+
  then have "sint (word_of_int (sint x) :: 'b word) = sint x"
    by (simp add: sint_sbintrunc' signed_take_bit_int_eq_self del: of_int_sint)
  then show ?thesis by simp
qed

lemma three_way_0: "(if a < b then -1 else if b < a then 1 else 0 :: int) = 0 \<longleftrightarrow> a = b" for a b :: int
  by auto

lemma compare_scalar_0: "compare_scalar a b = 0 \<longleftrightarrow> a = b"
  by (auto simp: compare_scalar_def)

lemma plain_literal_compare:
  assumes "exact v t" "plain_literal t lit"
  shows "\<exists>x c. resolve_literal_scalar fp lit (TBasic t) = Some x \<and> x \<noteq> CNull \<and>
    compare_column_value v x t = Some c \<and> (c = 0 \<longleftrightarrow> compare_evaluated fp (ECol v) (ELit lit) = Some 0)"
proof -
  have narrow: "sint n = sint (ucast n :: 'a::len word)" if "scast (ucast n :: 'a word) = (n :: u64)" "LENGTH('a) \<le> 64" for n
    using sint_widen [of "ucast n :: 'a word", where ?'b = 64] that by simp
  note defs = resolve_literal_scalar_def narrow_s64_literal_def is_literal_integer_family_def
    compare_evaluated_def eval_is_null_def as_s64_def as_f64_def as_text_def three_way_0 compare_scalar_0
    compare_defs exact_cases
  show ?thesis
  proof (cases lit)
    case (LInt n)
    then consider "t \<in> {BBigint, BTimestamp, BCounter, BTime}"
      | "t \<in> {BInt, BDate}" "scast (ucast n :: u32) = n" | "t = BSmallint" "scast (ucast n :: u16) = n"
      using assms(2) by auto
    then show ?thesis
    proof cases
      case 1
      then show ?thesis using assms(1) LInt by (auto simp: defs)
    next
      case 2
      then show ?thesis using assms(1) LInt narrow [OF 2(2)] by (auto simp: defs sint_widen)
    next
      case 3
      then show ?thesis using assms(1) LInt narrow [OF 3(2)] by (auto simp: defs sint_widen)
    qed
  next
    case (LText s)
    then show ?thesis using assms by (auto simp: defs text_cmp_0 compare_bytes_lexico)
  next
    case (LBool b)
    then obtain x where "t = BBoolean" "v = CU8 x" using assms by (auto simp: exact_cases)
    moreover have "ucast (ucast x :: u64) = x" by (simp add: narrow_widen)
    then have "sint (ucast x :: u64) = sint (1 :: u64) \<longleftrightarrow> x = 1" "sint (ucast x :: u64) = sint (0 :: u64) \<longleftrightarrow> x = 0"
      by (metis signed_word_eqI ucast_0 ucast_1)+
    ultimately show ?thesis using LBool by (auto simp: defs)
  qed (use assms in auto)
qed

section \<open>Markers and their values\<close>

text \<open>The identifiers of the markers of a term that numbering visits, from left to right.\<close>

fun markers :: "trm \<Rightarrow> bytes list" where
  "markers (Bind identifier) = [identifier]"
| "markers (Arith l op r) = markers l @ markers r"
| "markers (UnaryMinus t) = markers t"
| "markers (FunctionCall f args) = concat (map markers args)"
| "markers (TypeHint ty t) = markers t"
| "markers t = []"

definition markers_of :: "trm list \<Rightarrow> bytes list" where
  "markers_of ts = concat (map markers ts)"

definition anonymous :: "bytes list \<Rightarrow> bool" where
  "anonymous ms \<longleftrightarrow> (\<forall>m \<in> set ms. m = [])"

definition numbers :: "u64 \<Rightarrow> nat \<Rightarrow> bytes list" where
  "numbers i n = map (\<lambda>k. to_str_unsigned (i + word_of_nat k)) [0..<n]"

lemma numbers_append: "numbers i m @ numbers (i + word_of_nat m) n = numbers i (m + n)"
proof -
  have "[m..<m + n] = map (\<lambda>k. m + k) [0..<n]" by (simp add: map_add_upt add.commute)
  then have "numbers i (m + n) = numbers i m @ map (\<lambda>k. to_str_unsigned (i + word_of_nat (m + k))) [0..<n]"
    unfolding numbers_def upt_add_eq_append [OF le0, of m n, simplified] by (simp add: o_def)
  then show ?thesis by (simp add: numbers_def add.assoc)
qed

lemma number_markers:
  "anonymous (markers t) \<Longrightarrow>
     markers (fst (number_bind_markers_in_term t i)) = numbers i (length (markers t)) \<and>
     snd (number_bind_markers_in_term t i) = i + word_of_nat (length (markers t))"
  "anonymous (markers_of ts) \<Longrightarrow>
     markers_of (fst (number_bind_markers_in_terms ts i)) = numbers i (length (markers_of ts)) \<and>
     snd (number_bind_markers_in_terms ts i) = i + word_of_nat (length (markers_of ts))"
proof (induction t i and ts i rule: number_bind_markers_in_term_number_bind_markers_in_terms.induct)
  case (2 l op r i)
  obtain l' i1 where l: "number_bind_markers_in_term l i = (l', i1)" by fastforce
  obtain r' i2 where r: "number_bind_markers_in_term r i1 = (r', i2)" by fastforce
  have a: "anonymous (markers l)" "anonymous (markers r)" using 2(3) by (auto simp: anonymous_def)
  have "markers l' = numbers i (length (markers l))" "i1 = i + word_of_nat (length (markers l))"
    using 2(1) [OF a(1)] by (simp_all add: l)
  moreover have "markers r' = numbers i1 (length (markers r))" "i2 = i1 + word_of_nat (length (markers r))"
    using 2(2) [OF l [symmetric] refl a(2)] by (simp_all add: r)
  ultimately show ?case using r by (simp add: l numbers_append [symmetric] add.assoc)
next
  case (8 t ts i)
  obtain t' i1 where t: "number_bind_markers_in_term t i = (t', i1)" by fastforce
  obtain ts' i2 where ts: "number_bind_markers_in_terms ts i1 = (ts', i2)" by fastforce
  have a: "anonymous (markers t)" "anonymous (markers_of ts)"
    using 8(3) by (auto simp: anonymous_def markers_of_def)
  have "markers t' = numbers i (length (markers t))" "i1 = i + word_of_nat (length (markers t))"
    using 8(1) [OF a(1)] by (simp_all add: t)
  moreover have "markers_of ts' = numbers i1 (length (markers_of ts))" "i2 = i1 + word_of_nat (length (markers_of ts))"
    using 8(2) [OF t [symmetric] refl a(2)] by (simp_all add: ts)
  ultimately show ?case using ts
    by (simp add: t markers_of_def numbers_append [symmetric] add.assoc)
qed (auto simp: anonymous_def markers_of_def split_def Let_def numbers_def)

lemma index_digits_value:
  "(\<forall>c \<in> set ds. is_digit c) \<Longrightarrow>
   index_digits (word_of_nat a) ds = Some (word_of_nat (foldl (\<lambda>a c. a * 10 + digit_val c) a ds))"
proof (induction ds arbitrary: a)
  case (Cons c ds)
  then show ?case using digit_step(2) [of c] digit_step(1) [of c a] Cons.IH [of "a * 10 + digit_val c"] by simp
qed simp

lemma index_digits_to_str: "index_digits 0 (to_str_unsigned (i :: u64)) = Some i"
proof -
  have "index_digits 0 (dec_str (unat i)) = Some (word_of_nat (unat i))"
    using index_digits_value [of "dec_str (unat i)" 0] dec_str_digits [of _ "unat i"] dec_nat_dec_str [of "unat i"]
    by (simp add: dec_nat_def)
  then show ?thesis by (simp add: to_str_unsigned_def)
qed

lemma evaluate_numbered:
  fixes i :: u64
  assumes "unat i < length (positional_bindings ctx)"
  shows "evaluate_bind ctx (to_str_unsigned i) = ELit (positional_bindings ctx ! unat i)"
proof -
  obtain c cs where c: "to_str_unsigned i = c # cs" by (cases "to_str_unsigned i") (auto simp: to_str_unsigned_def)
  then have "is_digit c" using dec_str_digits [of c "unat i"] by (simp add: to_str_unsigned_def)
  then have "c \<noteq> chr CHR '':''" by (auto simp: is_digit_def chr_def word_le_nat_alt)
  then show ?thesis
    using assms index_digits_to_str [of i] c by (simp add: evaluate_bind_def lookup_positional_binding_def)
qed

section \<open>Properties\<close>

text \<open>C21 The values of \<open>now()\<close> that a process hands out are strictly increasing in the order of
  time-based UUIDs, whatever the clock reads from call to call, set back included.\<close>

theorem now_strictly_increasing:
  assumes "unat (last_ts_100ns w) + n < 2 ^ 60"
    and "\<forall>k. unat (unix_ms_to_uuid_timestamp_100ns (unix_ms_now env k)) + n < 2 ^ 60"
  shows "sorted_wrt (\<lambda>u v. compare_timeuuid u v < 0) (fst (now_sequence n env w))"
proof -
  have "sorted_wrt (\<lambda>u v. timeuuid_timestamp u < timeuuid_timestamp v) (fst (now_sequence n env w))"
    using now_sequence_increases [OF assms] by (simp add: sorted_wrt_map)
  then show ?thesis
    by (rule sorted_wrt_mono_rel [rotated]) (auto simp: compare_timeuuid_def compare_scalar_def Let_def)
qed

text \<open>An environment for the examples: a clock that stands still at the epoch.\<close>

definition example_env :: env where
  "example_env = \<lparr>fpu_of = example_fpu, unix_ms_now = (\<lambda>_. 0), ns_since_midnight = (\<lambda>_. 0),
     random_bytes = (\<lambda>_ n. replicate n 0), node_id = replicate 6 1\<rparr>"

definition example_world :: world where
  "example_world = \<lparr>reads = 0, last_ts_100ns = 0\<rparr>"

theorem now_strictly_increasing_witness:
  "sorted_wrt (\<lambda>u v. compare_timeuuid u v < 0)
     (fst (now_sequence 3 example_env example_world))"
  by (rule now_strictly_increasing)
    (simp_all add: example_env_def example_world_def unix_ms_to_uuid_timestamp_100ns_def UUID_EPOCH_OFFSET_100NS_def)


text \<open>The row of the example table with the given values.\<close>

definition example_ctx :: "cv list \<Rightarrow> eval_context" where
  "example_ctx row = \<lparr>positional_bindings = [], named_bindings = [], ctx_table = Some example_table,
     row_values = Some row\<rparr>"

lemma example_row:
  "row_has (example_ctx [CS64 a, CS32 b, CU8 c]) [105] BInt (CS32 b)"
  "row_has (example_ctx [CS64 a, CS32 b, CU8 c]) [116] BTinyint (CU8 c)"
  by (simp_all add: row_has_def example_ctx_def find_column_def example_table_indices row_value_def)


text \<open>A negative \<open>tinyint\<close> is equal to its literal and yet not a member of a list of it: the
  untyped comparison reads the byte without its sign.\<close>

theorem negative_tinyint_not_member:
  assumes "row_has ctx name BTinyint (CU8 x)" "sint x < 0"
  shows "evaluate_column_relation env ctx name OpEq (Lit (LInt (scast x))) w = Some (True, w) \<and>
    evaluate_column_relation env ctx name OpIn (TupleLit (map Lit [LInt (scast x)])) w = Some (False, w)"
proof -
  have "resolve_literal_scalar (fpu_of env) (LInt (scast x)) (TBasic BTinyint) = Some (CU8 x)"
    by (simp add: resolve_literal_scalar_def narrow_s64_literal_def is_literal_integer_family_def narrow_widen)
  then have eq: "evaluate_column_relation env ctx name OpEq (Lit (LInt (scast x))) w = Some (True, w)"
    using evaluate_eq_literal [OF assms(1)] by (simp add: compare_defs)
  have "uint (ucast x :: u64) < 256"
    using unsigned_less [of x, where ?'a = int] by (simp add: unsigned_ucast_eq take_bit_int_eq_self)
  moreover have "- (2 ^ 63) \<le> uint (ucast x :: u64)"
    by (rule order_trans [OF _ unsigned_greater_eq]) simp
  ultimately have "sint (ucast x :: u64) = uint (ucast x :: u64)"
    unfolding sint_uint by (intro signed_take_bit_int_eq_self) simp_all
  moreover have "sint (scast x :: u64) = sint x" by (rule sint_widen) simp
  ultimately have "sint (scast x :: u64) \<noteq> sint (ucast x :: u64)"
    using assms(2) unsigned_greater_eq [of "ucast x :: u64", where ?'a = int]
    by linarith
  then have "compare_evaluated (fpu_of env) (ECol (CU8 x)) (ELit (LInt (scast x))) \<noteq> Some 0"
    by (auto simp: compare_evaluated_def eval_is_null_def as_s64_def)
  moreover obtain tbl where "lookup_column_value ctx name = Some (ECol (CU8 x))" using assms(1) by (rule row_hasE)
  ultimately show ?thesis using eq by (simp add: evaluate_in_literals del: list.map)
qed

theorem negative_tinyint_not_member_witness:
  "evaluate_column_relation example_env (example_ctx [CS64 1, CS32 5, CU8 255]) [116] OpEq (Lit (LInt (- 1))) example_world
     = Some (True, example_world) \<and>
   evaluate_column_relation example_env (example_ctx [CS64 1, CS32 5, CU8 255]) [116] OpIn
     (TupleLit (map Lit [LInt (- 1)])) example_world = Some (False, example_world)"
proof -
  have "sint (255 :: u8) < 0" "(scast (255 :: u8) :: u64) = - 1" by simp_all
  then show ?thesis
    using negative_tinyint_not_member [OF example_row(2) [of 1 5 255], of example_env example_world] by simp
qed

text \<open>The anonymous markers of the values of an \<open>INSERT\<close>, wherever they stand in arithmetic,
  casts and arguments of functions, are bound to the positional values in the order in which they
  are written.\<close>

theorem markers_bound_in_order:
  assumes "anonymous (markers_of ts)" "length (markers_of ts) \<le> length (positional_bindings ctx)"
    and "length (positional_bindings ctx) < 2 ^ 64"
  shows "map (evaluate_bind ctx) (markers_of (number_bind_markers ts)) =
    map ELit (take (length (markers_of ts)) (positional_bindings ctx))"
proof -
  have "markers_of (number_bind_markers ts) = numbers 0 (length (markers_of ts))"
    using number_markers(2) [OF assms(1)] by (simp add: number_bind_markers_def)
  moreover have "evaluate_bind ctx (to_str_unsigned (word_of_nat k :: u64)) = ELit (positional_bindings ctx ! k)"
    if "k < length (markers_of ts)" for k
  proof -
    have "unat (word_of_nat k :: u64) = k" using that assms(2,3) by (simp add: unat_of_nat)
    then show ?thesis using evaluate_numbered [of "word_of_nat k" ctx] that assms(2) by simp
  qed
  ultimately show ?thesis using assms(2) by (auto simp: numbers_def intro!: nth_equalityI)
qed

theorem markers_bound_in_order_witness:
  "map (evaluate_bind (example_ctx []\<lparr>positional_bindings := [LInt 7, LText [65]]\<rparr>))
     (markers_of (number_bind_markers [Arith (Bind []) Plus (Lit (LInt 1)), Bind []])) = map ELit [LInt 7, LText [65]]"
  using markers_bound_in_order [of "[Arith (Bind []) Plus (Lit (LInt 1)), Bind []]"
      "example_ctx []\<lparr>positional_bindings := [LInt 7, LText [65]]\<rparr>"]
  by (simp add: anonymous_def markers_of_def)

text \<open>A marker inside a collection literal keeps its empty name and evaluates to null.\<close>

lemma nested_marker_is_null:
  "number_bind_markers [ListLit [Bind []]] = [ListLit [Bind []]] \<and>
   evaluate_term env ctx (Bind []) w = Some (null, w)"
  by (simp add: number_bind_markers_def evaluate_bind_def lookup_positional_binding_def lookup_named_binding_def)

end
