(* ===== verification/IoEvaluator.thy ===== *)
theory IoEvaluator
  imports Evaluator
begin

text \<open>
  Evaluated terms as column values (\<open>cql/engine/io.evaluator.cpp\<close>): what an \<open>INSERT\<close> or \<open>UPDATE\<close>
  stores for a literal, a collection or a user-defined type against the type of its column, and the
  writer behind it. The elements of a collection are terms of their own and are evaluated on the way,
  from left to right.

  The outer \<open>option\<close> is the trap of the evaluation, the inner one the missing value of the code: a term
  that does not fit the type.
\<close>

type_synonym resolver = "evaluated \<Rightarrow> world \<Rightarrow> (cv option \<times> world) option"

section \<open>Elements\<close>

definition resolve_term :: "env \<Rightarrow> eval_context \<Rightarrow> resolver \<Rightarrow> trm \<Rightarrow> world \<Rightarrow> (cv option \<times> world) option" where
  "resolve_term env ctx r tm w = do { (v, w) \<leftarrow> evaluate_term env ctx tm w; r v w }"

fun resolve_elements ::
    "(trm \<Rightarrow> world \<Rightarrow> (cv option \<times> world) option) \<Rightarrow> trm list \<Rightarrow> world \<Rightarrow> (cv list option \<times> world) option" where
  "resolve_elements f [] w = Some (Some [], w)"
| "resolve_elements f (t # ts) w = do {
     (v, w) \<leftarrow> f t w;
     case v of
       None \<Rightarrow> Some (None, w)
     | Some v \<Rightarrow> do { (vs, w) \<leftarrow> resolve_elements f ts w; Some (map_option (\<lambda>vs. v # vs) vs, w) } }"

fun resolve_pairs ::
    "(trm \<Rightarrow> world \<Rightarrow> (cv option \<times> world) option) \<Rightarrow> (trm \<Rightarrow> world \<Rightarrow> (cv option \<times> world) option) \<Rightarrow>
     (trm \<times> trm) list \<Rightarrow> world \<Rightarrow> ((cv \<times> cv) list option \<times> world) option" where
  "resolve_pairs f g [] w = Some (Some [], w)"
| "resolve_pairs f g ((a, b) # ts) w = do {
     (k, w) \<leftarrow> f a w;
     (v, w) \<leftarrow> g b w;
     case (k, v) of
       (Some k, Some v) \<Rightarrow> do { (kvs, w) \<leftarrow> resolve_pairs f g ts w; Some (map_option (\<lambda>kvs. (k, v) # kvs) kvs, w) }
     | _ \<Rightarrow> Some (None, w) }"

text \<open>The fields of a tuple or a user-defined type; a field without a term is null.\<close>

fun resolve_fields ::
    "((trm \<Rightarrow> world \<Rightarrow> (cv option \<times> world) option) \<times> trm option) list \<Rightarrow> world \<Rightarrow> (cv list option \<times> world) option" where
  "resolve_fields [] w = Some (Some [], w)"
| "resolve_fields ((f, t) # fs) w = (case t of
       None \<Rightarrow> do { (vs, w) \<leftarrow> resolve_fields fs w; Some (map_option (\<lambda>vs. CNull # vs) vs, w) }
     | Some t \<Rightarrow> do {
         (v, w) \<leftarrow> f t w;
         case v of
           None \<Rightarrow> Some (None, w)
         | Some v \<Rightarrow> do { (vs, w) \<leftarrow> resolve_fields fs w; Some (map_option (\<lambda>vs. v # vs) vs, w) } })"

definition tuple_terms :: "trm list \<Rightarrow> nat \<Rightarrow> trm option list" where
  "tuple_terms es n = map (\<lambda>i. if i < length es then Some (es ! i) else None) [0..<n]"

definition udt_terms :: "(bytes \<times> trm) list \<Rightarrow> bytes list \<Rightarrow> nat \<Rightarrow> trm option list" where
  "udt_terms fs names n =
     map (\<lambda>j. if fs = [] then None else map_option snd (find (\<lambda>f. str_eq (fst f) (names ! j)) fs)) [0..<n]"

section \<open>Resolution\<close>

text \<open>The name of a field is read for every field when the literal names any; the index is checked.\<close>

fun resolve_evaluated :: "env \<Rightarrow> eval_context \<Rightarrow> ctype \<Rightarrow> evaluated \<Rightarrow> world \<Rightarrow> (cv option \<times> world) option" where
  "resolve_evaluated env ctx t (ECol v) w = Some (Some v, w)"
| "resolve_evaluated env ctx t (ELit l) w = Some (resolve_literal_scalar (fpu_of env) l t, w)"
| "resolve_evaluated env ctx t (EList es) w = (case t of
       TList e _ \<Rightarrow> do {
         (vs, w) \<leftarrow> resolve_elements (resolve_term env ctx (resolve_evaluated env ctx e)) es w;
         Some (map_option CArray vs, w) }
     | TVector e _ _ \<Rightarrow> do {
         (vs, w) \<leftarrow> resolve_elements (resolve_term env ctx (resolve_evaluated env ctx e)) es w;
         Some (map_option CArray vs, w) }
     | _ \<Rightarrow> Some (None, w))"
| "resolve_evaluated env ctx t (ESet ks) w = (case t of
       TSet e _ \<Rightarrow> do {
         (vs, w) \<leftarrow> resolve_elements (resolve_term env ctx (resolve_evaluated env ctx e)) ks w;
         Some (map_option set_of_list vs, w) }
     | _ \<Rightarrow> Some (None, w))"
| "resolve_evaluated env ctx t (EMap kvs) w = (case t of
       TMap k v _ \<Rightarrow> do {
         (es, w) \<leftarrow> resolve_pairs (resolve_term env ctx (resolve_evaluated env ctx k))
                      (resolve_term env ctx (resolve_evaluated env ctx v)) kvs w;
         Some (map_option map_of_list es, w) }
     | _ \<Rightarrow> Some (None, w))"
| "resolve_evaluated env ctx t (ETuple es) w = (case t of
       TTuple ts _ \<Rightarrow> do {
         (vs, w) \<leftarrow> resolve_fields (zip (map (\<lambda>t. resolve_term env ctx (resolve_evaluated env ctx t)) ts)
                      (tuple_terms es (length ts))) w;
         Some (map_option CArray vs, w) }
     | _ \<Rightarrow> Some (None, w))"
| "resolve_evaluated env ctx t (EUdt fs) w = (case t of
       TUdt _ _ names ts \<Rightarrow> do {
         assert_true (fs = [] \<or> length ts \<le> length names);
         (vs, w) \<leftarrow> resolve_fields (zip (map (\<lambda>t. resolve_term env ctx (resolve_evaluated env ctx t)) ts)
                      (udt_terms fs names (length ts))) w;
         Some (map_option CArray vs, w) }
     | _ \<Rightarrow> Some (None, w))"

definition can_write_evaluated_as_column_value ::
    "env \<Rightarrow> eval_context \<Rightarrow> evaluated \<Rightarrow> ctype \<Rightarrow> world \<Rightarrow> (bool \<times> world) option" where
  "can_write_evaluated_as_column_value env ctx ev t w = do {
     (v, w) \<leftarrow> resolve_evaluated env ctx t ev w;
     Some (v \<noteq> None, w) }"

definition write_evaluated_as_column_value ::
    "env \<Rightarrow> eval_context \<Rightarrow> evaluated \<Rightarrow> ctype \<Rightarrow> world \<Rightarrow> (bytes \<times> world) option" where
  "write_evaluated_as_column_value env ctx ev t w = do {
     (v, w) \<leftarrow> resolve_evaluated env ctx t ev w;
     v \<leftarrow> v;
     out \<leftarrow> write_value t v;
     Some (out, w) }"

section \<open>What resolves can be written\<close>

text \<open>Terms that are written out: literals, markers, and collections of them.\<close>

fun literal_term :: "trm \<Rightarrow> bool" where
  "literal_term (Lit _) \<longleftrightarrow> True"
| "literal_term (Bind _) \<longleftrightarrow> True"
| "literal_term (MapLit kvs) \<longleftrightarrow> list_all (\<lambda>e. literal_term (fst e) \<and> literal_term (snd e)) kvs"
| "literal_term (SetLit ks) \<longleftrightarrow> list_all literal_term ks"
| "literal_term (ListLit es) \<longleftrightarrow> list_all literal_term es"
| "literal_term (UdtLit fs) \<longleftrightarrow> list_all (\<lambda>f. literal_term (snd f)) fs"
| "literal_term (TupleLit es) \<longleftrightarrow> list_all literal_term es"
| "literal_term (TypeHint _ t) \<longleftrightarrow> literal_term t"
| "literal_term _ \<longleftrightarrow> False"

fun literal_value :: "evaluated \<Rightarrow> bool" where
  "literal_value (ELit _) \<longleftrightarrow> True"
| "literal_value (EMap kvs) \<longleftrightarrow> list_all (\<lambda>e. literal_term (fst e) \<and> literal_term (snd e)) kvs"
| "literal_value (ESet ks) \<longleftrightarrow> list_all literal_term ks"
| "literal_value (EList es) \<longleftrightarrow> list_all literal_term es"
| "literal_value (EUdt fs) \<longleftrightarrow> list_all (\<lambda>f. literal_term (snd f)) fs"
| "literal_value (ETuple es) \<longleftrightarrow> list_all literal_term es"
| "literal_value (ECol _) \<longleftrightarrow> False"

lemma literal_bind: "literal_value (evaluate_bind ctx identifier)"
  by (auto simp: evaluate_bind_def Let_def split: option.splits)

lemma literal_evaluate: "literal_term tm \<Longrightarrow> evaluate_term env ctx tm w = Some (v, w') \<Longrightarrow> literal_value v"
  by (induction tm arbitrary: v w') (auto simp: literal_bind)

text \<open>Values of a type, with nulls anywhere and any number of elements in a vector.\<close>

fun storable :: "ctype \<Rightarrow> cv \<Rightarrow> bool" where
  "storable (TBasic b) = (\<lambda>v. v = CNull \<or> exact v b)"
| "storable (TList e _) = (\<lambda>v. v = CNull \<or> (\<exists>vs. v = CArray vs \<and> list_all (storable e) vs))"
| "storable (TVector e n _) = (\<lambda>v. v = CNull \<or> (\<exists>vs. v = CArray vs \<and> list_all (storable e) vs))"
| "storable (TSet e _) = (\<lambda>v. v = CNull \<or> (\<exists>s. v = CSet s \<and> list_all (storable e) (concat s)))"
| "storable (TMap k w _) =
     (\<lambda>v. v = CNull \<or> (\<exists>m. v = CMap m \<and> list_all (\<lambda>e. storable k (fst e) \<and> storable w (snd e)) (concat m)))"
| "storable (TTuple ts _) = (\<lambda>v. v = CNull \<or> (\<exists>vs. v = CArray vs \<and> list_all2 (\<lambda>p v. p v) (map storable ts) vs))"
| "storable (TUdt _ _ _ ts) = (\<lambda>v. v = CNull \<or> (\<exists>vs. v = CArray vs \<and> list_all2 (\<lambda>p v. p v) (map storable ts) vs))"

lemma storable_null: "storable t CNull"
  by (cases t) simp_all

lemma resolve_elements_all:
  assumes "resolve_elements f ts w = Some (Some vs, w')"
    and "\<And>t w v w'. t \<in> set ts \<Longrightarrow> f t w = Some (Some v, w') \<Longrightarrow> P v"
  shows "list_all P vs"
  using assms
proof (induction ts arbitrary: w vs)
  case (Cons t ts)
  from Cons.prems(1) obtain v w1 vs' where v: "f t w = Some (Some v, w1)"
      "resolve_elements f ts w1 = Some (Some vs', w')" "vs = v # vs'"
    by (auto simp: bind_eq_Some_conv split: option.splits)
  have "list_all P vs'" by (rule Cons.IH [OF v(2)]) (use Cons.prems(2) in auto)
  with v Cons.prems(2) [of t w v w1] show ?case by simp
qed simp

lemma resolve_pairs_all:
  assumes "resolve_pairs f g ts w = Some (Some es, w')"
    and "\<And>t w v w'. t \<in> set ts \<Longrightarrow> f (fst t) w = Some (Some v, w') \<Longrightarrow> P v"
    and "\<And>t w v w'. t \<in> set ts \<Longrightarrow> g (snd t) w = Some (Some v, w') \<Longrightarrow> Q v"
  shows "list_all (\<lambda>e. P (fst e) \<and> Q (snd e)) es"
  using assms
proof (induction ts arbitrary: w es)
  case (Cons t ts)
  obtain a b where t: "t = (a, b)" by (cases t)
  from Cons.prems(1) t obtain ko w1 vo w2 where r: "f a w = Some (ko, w1)" "g b w1 = Some (vo, w2)"
    by (auto simp: bind_eq_Some_conv)
  with Cons.prems(1) t obtain k v es' where v: "f a w = Some (Some k, w1)" "g b w1 = Some (Some v, w2)"
      "resolve_pairs f g ts w2 = Some (Some es', w')" "es = (k, v) # es'"
    by (cases ko; cases vo) (auto simp: bind_eq_Some_conv)
  have "list_all (\<lambda>e. P (fst e) \<and> Q (snd e)) es'" by (rule Cons.IH [OF v(3)]) (rule Cons.prems(2,3), rule list.set_intros(2), assumption+)+
  with v t Cons.prems(2) [of t w k w1] Cons.prems(3) [of t w1 v w2] show ?case by simp
qed simp

lemma resolve_fields_all:
  assumes "resolve_fields (zip fs tms) w = Some (Some vs, w')" "length fs = length tms"
    and "\<And>i t w v w'. i < length fs \<Longrightarrow> tms ! i = Some t \<Longrightarrow> (fs ! i) t w = Some (Some v, w') \<Longrightarrow> (ps ! i) v"
    and "\<And>i. i < length fs \<Longrightarrow> (ps ! i) CNull" "length ps = length fs"
  shows "list_all2 (\<lambda>p v. p v) ps vs"
  using assms(2,1,3-)
proof (induction fs tms arbitrary: w vs ps rule: list_induct2)
  case (Cons f fs t tms)
  from Cons.prems(4) obtain p ps' where ps: "ps = p # ps'" "length ps' = length fs"
    by (cases ps) auto
  have rest: "list_all2 (\<lambda>p v. p v) ps' vs'" if "resolve_fields (zip fs tms) w1 = Some (Some vs', w')" for w1 vs'
  proof (rule Cons.IH [OF that _ _ ps(2)])
    show "(ps' ! i) v" if "i < length fs" "tms ! i = Some t'" "(fs ! i) t' w = Some (Some v, w'')" for i t' w v w''
      using Cons.prems(2) [of "Suc i" t' w v w''] that ps by simp
    show "(ps' ! i) CNull" if "i < length fs" for i
      using Cons.prems(3) [of "Suc i"] that ps by simp
  qed
  show ?case
  proof (cases t)
    case None
    with Cons.prems(1) obtain vs' where "resolve_fields (zip fs tms) w = Some (Some vs', w')" "vs = CNull # vs'"
      by (auto simp: bind_eq_Some_conv)
    with rest Cons.prems(3) [of 0] ps show ?thesis by simp
  next
    case (Some t')
    with Cons.prems(1) obtain v w1 vs' where "f t' w = Some (Some v, w1)"
        "resolve_fields (zip fs tms) w1 = Some (Some vs', w')" "vs = v # vs'"
      by (auto simp: bind_eq_Some_conv split: option.splits)
    with rest Cons.prems(2) [of 0 t' w v w1] Some ps show ?thesis by simp
  qed
qed simp

lemma entries_list_all: "list_all P (concat s) \<longleftrightarrow> (\<forall>e \<in># entries s. P e)"
  by (simp add: entries_def list_all_iff)

lemma set_insert_placed:
  assumes "placed h id s" "\<forall>e \<in># entries s. P e" "P v"
  shows "placed h id (set_insert h eq v s) \<and> (\<forall>e \<in># entries (set_insert h eq v s). P e)"
  unfolding set_insert_def using assms add_entry_props [OF assms(1), of v] by (simp split: if_split)

lemma set_of_list_all: "list_all P vs \<Longrightarrow> \<exists>s. set_of_list vs = CSet s \<and> list_all P (concat s)"
proof -
  assume vs: "list_all P vs"
  have "placed hash_cv id s \<Longrightarrow> \<forall>e \<in># entries s. P e \<Longrightarrow>
      \<forall>e \<in># entries (fold (set_insert hash_cv cv_eq) vs s). P e" for s
    using vs
  proof (induction vs arbitrary: s)
    case (Cons v vs)
    have "P v" "list_all P vs" using Cons.prems(3) by simp_all
    from set_insert_placed [OF Cons.prems(1,2) this(1), of cv_eq]
    have "placed hash_cv id (set_insert hash_cv cv_eq v s)" "\<forall>e \<in># entries (set_insert hash_cv cv_eq v s). P e"
      by (rule conjunct1, rule conjunct2)
    from Cons.IH [OF this \<open>list_all P vs\<close>] show ?case unfolding fold_Cons o_apply .
  qed simp
  from this [of "[]"] show ?thesis
    by (simp add: set_of_list_def entries_list_all) (simp add: placed_def entries_def)
qed

lemma map_insert_placed:
  assumes "placed h fst m" "\<forall>e \<in># entries m. P (fst e) \<and> Q (snd e)" "P k" "Q v"
  shows "placed h fst (map_insert h eq k v m) \<and> (\<forall>e \<in># entries (map_insert h eq k v m). P (fst e) \<and> Q (snd e))"
proof (cases "find_slot h eq fst m k")
  case None
  then show ?thesis using assms add_entry_props [OF assms(1), of "(k, v)"] by (auto simp: map_insert_def)
next
  case (Some r)
  then obtain s i where r: "find_slot h eq fst m k = Some (s, i)" by (cases r) auto
  then have si: "s < length m" "i < length (m ! s)"
    by (auto simp: find_slot_def Let_def slot_of_def find_Some_iff split: if_splits)
  let ?b = "(m ! s)[i := (fst (m ! s ! i), v)]"
  have mem: "m ! s ! i \<in># entries m" using si by (auto simp: in_entries)
  have sub: "e \<in> set ?b \<Longrightarrow> e = (fst (m ! s ! i), v) \<or> e \<in> set (m ! s)" for e
    using set_update_subset_insert [of "m ! s" i "(fst (m ! s ! i), v)"] by auto
  have "placed h fst (m[s := ?b])"
    using assms(1) si sub unfolding placed_def by (force simp: nth_list_update split: if_splits)
  moreover have "\<forall>e \<in># entries (m[s := ?b]). P (fst e) \<and> Q (snd e)"
  proof
    fix e assume "e \<in># entries (m[s := ?b])"
    then obtain t where t: "t < length m" "e \<in> set (m[s := ?b] ! t)" by (auto simp: in_entries)
    then consider "e = (fst (m ! s ! i), v)" | "e \<in># entries m"
      using sub [of e] si by (cases "t = s") (auto simp: in_entries simp del: split_paired_All)
    then show "P (fst e) \<and> Q (snd e)" using mem assms(2,4) by cases auto
  qed
  ultimately show ?thesis by (simp add: map_insert_def r)
qed

lemma map_of_list_all:
  assumes "list_all (\<lambda>e. P (fst e) \<and> Q (snd e)) es"
  shows "\<exists>m. map_of_list es = CMap m \<and> list_all (\<lambda>e. P (fst e) \<and> Q (snd e)) (concat m)"
proof -
  have "placed hash_cv fst m \<Longrightarrow> \<forall>e \<in># entries m. P (fst e) \<and> Q (snd e) \<Longrightarrow>
      \<forall>e \<in># entries (fold (\<lambda>(k, v). map_insert hash_cv cv_eq k v) es m). P (fst e) \<and> Q (snd e)" for m
    using assms
  proof (induction es arbitrary: m)
    case (Cons e es)
    have "P (fst e)" "Q (snd e)" "list_all (\<lambda>e. P (fst e) \<and> Q (snd e)) es" using Cons.prems(3) by simp_all
    with map_insert_placed [OF Cons.prems(1,2), of "fst e" "snd e" cv_eq] Cons.IH
    have "\<forall>a \<in># entries (fold (\<lambda>(k, v). map_insert hash_cv cv_eq k v) es (map_insert hash_cv cv_eq (fst e) (snd e) m)).
        P (fst a) \<and> Q (snd a)" by blast
    then show ?case by (simp add: split_def)
  qed simp
  from this [of "[]"] show ?thesis
    by (simp add: map_of_list_def entries_list_all) (simp add: placed_def entries_def)
qed

lemma resolve_storable:
  assumes "literal_value ev" "resolve_evaluated env ctx t ev w = Some (Some v, w')"
  shows "storable t v"
proof -
  have terms: "P v'" if "\<And>ev w v w'. literal_value ev \<Longrightarrow> resolve_evaluated env ctx e ev w = Some (Some v, w') \<Longrightarrow> P v"
      "literal_term tm" "resolve_term env ctx (resolve_evaluated env ctx e) tm w1 = Some (Some v', w2)" for P e tm w1 v' w2
    using that literal_evaluate [of tm env ctx w1] by (auto simp: resolve_term_def bind_eq_Some_conv)
  show ?thesis
    using assms
  proof (induction t arbitrary: ev w v w')
    case (TBasic b)
    then show ?case using resolve_literal_exact by (cases ev) auto
  next
    case (TList e f)
    note all = terms [where P = "storable e", OF TList.IH]
    from TList.prems obtain es vs w1 where e: "ev = EList es" "v = CArray vs" "list_all literal_term es"
        "resolve_elements (resolve_term env ctx (resolve_evaluated env ctx e)) es w = Some (Some vs, w1)"
      by (cases ev) (auto simp: bind_eq_Some_conv resolve_literal_scalar_def)
    have "list_all (storable e) vs"
      by (rule resolve_elements_all [OF e(4)]) (use all e(3) in \<open>auto simp: list_all_iff\<close>)
    with e show ?case by simp
  next
    case (TVector e n f)
    note all = terms [where P = "storable e", OF TVector.IH]
    from TVector.prems obtain es vs w1 where e: "ev = EList es" "v = CArray vs" "list_all literal_term es"
        "resolve_elements (resolve_term env ctx (resolve_evaluated env ctx e)) es w = Some (Some vs, w1)"
      by (cases ev) (auto simp: bind_eq_Some_conv resolve_literal_scalar_def)
    have "list_all (storable e) vs"
      by (rule resolve_elements_all [OF e(4)]) (use all e(3) in \<open>auto simp: list_all_iff\<close>)
    with e show ?case by simp
  next
    case (TSet e f)
    note all = terms [where P = "storable e", OF TSet.IH]
    from TSet.prems obtain es vs w1 where e: "ev = ESet es" "v = set_of_list vs" "list_all literal_term es"
        "resolve_elements (resolve_term env ctx (resolve_evaluated env ctx e)) es w = Some (Some vs, w1)"
      by (cases ev) (auto simp: bind_eq_Some_conv resolve_literal_scalar_def)
    have "list_all (storable e) vs"
      by (rule resolve_elements_all [OF e(4)]) (use all e(3) in \<open>auto simp: list_all_iff\<close>)
    from set_of_list_all [OF this] e show ?case by auto
  next
    case (TMap k u f)
    note ks = terms [where P = "storable k", OF TMap.IH(1)] and us = terms [where P = "storable u", OF TMap.IH(2)]
    from TMap.prems obtain kvs es w1 where e: "ev = EMap kvs" "v = map_of_list es"
        "list_all (\<lambda>e. literal_term (fst e) \<and> literal_term (snd e)) kvs"
        "resolve_pairs (resolve_term env ctx (resolve_evaluated env ctx k))
           (resolve_term env ctx (resolve_evaluated env ctx u)) kvs w = Some (Some es, w1)"
      by (cases ev) (auto simp: bind_eq_Some_conv resolve_literal_scalar_def)
    have "list_all (\<lambda>e. storable k (fst e) \<and> storable u (snd e)) es"
      by (rule resolve_pairs_all [OF e(4)]) (use ks us e(3) in \<open>auto simp: list_all_iff\<close>)
    from map_of_list_all [OF this] e show ?case by auto
  next
    case (TTuple ts f)
    from TTuple.prems obtain es vs w1 where e: "ev = ETuple es" "v = CArray vs" "list_all literal_term es"
        "resolve_fields (zip (map (\<lambda>t. resolve_term env ctx (resolve_evaluated env ctx t)) ts)
           (tuple_terms es (length ts))) w = Some (Some vs, w1)"
      by (cases ev) (auto simp: bind_eq_Some_conv resolve_literal_scalar_def)
    have "list_all2 (\<lambda>p v. p v) (map storable ts) vs"
    proof (rule resolve_fields_all [OF e(4)])
      fix i tm w v w'
      assume i: "i < length (map (\<lambda>t. resolve_term env ctx (resolve_evaluated env ctx t)) ts)"
        and tm: "tuple_terms es (length ts) ! i = Some tm"
        and r: "(map (\<lambda>t. resolve_term env ctx (resolve_evaluated env ctx t)) ts ! i) tm w = Some (Some v, w')"
      have "literal_term tm" using i tm e(3) by (auto simp: tuple_terms_def list_all_iff split: if_splits)
      moreover have "resolve_term env ctx (resolve_evaluated env ctx (ts ! i)) tm w = Some (Some v, w')"
        using i r by simp
      ultimately have "storable (ts ! i) v"
        using terms [where P = "storable (ts ! i)", OF TTuple.IH [of "ts ! i"]] i by simp
      then show "(map storable ts ! i) v" using i by simp
    qed (simp_all add: tuple_terms_def storable_null)
    with e show ?case by simp
  next
    case (TUdt ks n ns ts)
    from TUdt.prems obtain fs vs w1 where e: "ev = EUdt fs" "v = CArray vs" "list_all (\<lambda>f. literal_term (snd f)) fs"
        "resolve_fields (zip (map (\<lambda>t. resolve_term env ctx (resolve_evaluated env ctx t)) ts)
           (udt_terms fs ns (length ts))) w = Some (Some vs, w1)"
      by (cases ev) (auto simp: bind_eq_Some_conv resolve_literal_scalar_def split: if_split_asm)
    have "list_all2 (\<lambda>p v. p v) (map storable ts) vs"
    proof (rule resolve_fields_all [OF e(4)])
      fix i tm w v w'
      assume i: "i < length (map (\<lambda>t. resolve_term env ctx (resolve_evaluated env ctx t)) ts)"
        and tm: "udt_terms fs ns (length ts) ! i = Some tm"
        and r: "(map (\<lambda>t. resolve_term env ctx (resolve_evaluated env ctx t)) ts ! i) tm w = Some (Some v, w')"
      have "literal_term tm" using i tm e(3)
        by (auto simp: udt_terms_def list_all_iff find_Some_iff split: if_splits) (metis nth_mem snd_conv)
      moreover have "resolve_term env ctx (resolve_evaluated env ctx (ts ! i)) tm w = Some (Some v, w')"
        using i r by simp
      ultimately have "storable (ts ! i) v"
        using terms [where P = "storable (ts ! i)", OF TUdt.IH [of "ts ! i"]] i by simp
      then show "(map storable ts ! i) v" using i by simp
    qed (simp_all add: udt_terms_def storable_null)
    with e show ?case by simp
  qed
qed

lemma map_opt_defined: "(\<And>x. x \<in> set xs \<Longrightarrow> \<exists>y. f x = Some y) \<Longrightarrow> \<exists>ys. map_opt f xs = Some ys"
proof (induction xs)
  case (Cons x xs)
  then obtain y ys where "f x = Some y" "map_opt f xs = Some ys" by (metis list.set_intros)
  then show ?case by simp
qed simp

lemma masked_total:
  assumes "list_all2 (\<lambda>p v. p v) (map storable ts) vs"
    and "\<And>t v. t \<in> set ts \<Longrightarrow> storable t v \<Longrightarrow> \<exists>out. write_value t v = Some out"
  shows "\<exists>out. write_masked_payloads (map write_value ts) vs (length ts) = Some out"
proof -
  have "\<exists>ys. map_opt (\<lambda>i. if mask_bit (null_mask vs (length ts)) i then (map write_value ts ! i) (vs ! i) else Some [])
      [0..<min (length vs) (length ts)] = Some ys"
    by (rule map_opt_defined) (use assms in \<open>auto simp: list_all2_conv_all_nth\<close>)
  then show ?thesis by (auto simp: write_masked_payloads_def Let_def)
qed

lemma storable_writes: "storable t v \<Longrightarrow> \<exists>out. write_value t v = Some out"
proof (induction t arbitrary: v)
  case (TBasic b)
  then have "v = CNull \<or> can_write_basic v b \<and> is_basic v"
    using exact_can_write exact_is_basic by auto
  then show ?case by (auto simp: checked_def can_write_value_def split: cv.splits)
next
  case (TList e f)
  have "list_all (storable e) vs \<Longrightarrow> \<exists>ys. map_opt (write_value e) vs = Some ys" for vs
    by (rule map_opt_defined) (use TList.IH in \<open>auto simp: list_all_iff\<close>)
  then show ?case using TList.prems by (auto simp: checked_def can_write_value_def write_all_def)
next
  case (TVector e n f)
  have "list_all (storable e) vs \<Longrightarrow> \<exists>ys. map_opt (write_value e) vs = Some ys" for vs
    by (rule map_opt_defined) (use TVector.IH in \<open>auto simp: list_all_iff\<close>)
  then show ?case using TVector.prems by (auto simp: checked_def can_write_value_def write_all_def)
next
  case (TSet e f)
  have "list_all (storable e) vs \<Longrightarrow> \<exists>ys. map_opt (write_value e) vs = Some ys" for vs
    by (rule map_opt_defined) (use TSet.IH in \<open>auto simp: list_all_iff\<close>)
  then show ?case using TSet.prems by (auto simp: checked_def can_write_value_def write_all_def)
next
  case (TMap k w f)
  have "list_all (\<lambda>e. storable k (fst e) \<and> storable w (snd e)) es \<Longrightarrow>
      \<exists>ys. map_opt (\<lambda>e. do { a \<leftarrow> write_value k (fst e); b \<leftarrow> write_value w (snd e); Some (a @ b) }) es = Some ys" for es
    by (rule map_opt_defined) (use TMap.IH in \<open>fastforce simp: list_all_iff\<close>)
  note total = this
  from TMap.prems consider "v = CNull"
    | m where "v = CMap m" "list_all (\<lambda>e. storable k (fst e) \<and> storable w (snd e)) (concat m)"
    by auto
  then show ?case
  proof cases
    case (2 m)
    with total [of "concat m"] show ?thesis by (auto simp: checked_def can_write_value_def)
  qed (simp add: checked_def can_write_value_def)
next
  case (TTuple ts f)
  then show ?case using masked_total [of ts] by (auto simp: checked_def can_write_value_def)
next
  case (TUdt ks n ns ts)
  then show ?case using masked_total [of ts] by (auto simp: checked_def can_write_value_def)
qed

text \<open>C31 A literal, a collection of literals or a marker that the check lets through can be written: once
  \<open>can_write_evaluated_as_column_value\<close> says yes, the writer finds nothing to trap on, at every type
  and however deep the collections nest.\<close>

theorem checked_terms_are_written:
  assumes "literal_value ev" "can_write_evaluated_as_column_value env ctx ev t w = Some (True, w')"
  shows "\<exists>out. write_evaluated_as_column_value env ctx ev t w = Some (out, w')"
proof -
  from assms(2) obtain v where v: "resolve_evaluated env ctx t ev w = Some (Some v, w')"
    by (auto simp: can_write_evaluated_as_column_value_def bind_eq_Some_conv)
  with resolve_storable [OF assms(1)] have "storable t v" by blast
  with storable_writes v show ?thesis by (force simp: write_evaluated_as_column_value_def)
qed

theorem checked_terms_are_written_witness:
  "\<exists>out. write_evaluated_as_column_value example_env (example_ctx []) (EList [Lit (LInt 1), Lit LNull])
     (TList (TBasic BInt) False) example_world = Some (out, example_world)"
  by (rule checked_terms_are_written)
    (simp_all add: can_write_evaluated_as_column_value_def resolve_term_def resolve_literal_scalar_def
      is_literal_integer_family_def)

text \<open>
  The number of elements of a vector literal is not compared with the type: two elements are accepted
  and written for a column of three, and the reader takes the third from the bytes that follow.
\<close>

theorem short_vector_accepted:
  "\<exists>out. write_evaluated_as_column_value example_env (example_ctx []) (EList [Lit (LInt 1), Lit (LInt 2)])
      (TVector (TBasic BInt) 3 False) example_world = Some (out, example_world) \<and>
    read_value (TVector (TBasic BInt) 3 False) (out @ put_word (7 :: u32)) = Some (CArray [CS32 1, CS32 2, CS32 7], [])"
proof -
  have three: "unat (3 :: u64) = Suc (Suc (Suc 0))" by simp
  have "write_evaluated_as_column_value example_env (example_ctx []) (EList [Lit (LInt 1), Lit (LInt 2)])
      (TVector (TBasic BInt) 3 False) example_world = Some (put_word (1 :: u32) @ put_word (2 :: u32), example_world)"
    by (simp add: write_evaluated_as_column_value_def resolve_term_def resolve_literal_scalar_def
        is_literal_integer_family_def narrow_s64_literal_def checked_def can_write_value_def write_all_def)
  moreover have "read_value (TVector (TBasic BInt) 3 False) (put_word (1 :: u32) @ put_word (2 :: u32) @ put_word (7 :: u32) @ [])
      = Some (CArray [CS32 1, CS32 2, CS32 7], [])"
    unfolding read_value.simps counted_def three read_n.simps
    by (simp add: read_basic_def got_def del: append_Nil2)
  ultimately show ?thesis by simp
qed

end
