(* ===== verification/Crc.thy ===== *)
theory Crc
  imports Bytes
begin

text \<open>
  The checksums of the frames of the native protocol (\<open>cql/crc/crc.cppm\<close>): CRC-24 over the
  header and CRC-32 over the payload, both driven by tables of 256 entries. Each table step is
  shown to be eight steps of the shift register, and a changed byte to change the checksum.
\<close>

section \<open>The tables and the loops over the bytes\<close>

definition crc24_shift :: "u32 \<Rightarrow> u32" where
  "crc24_shift c =
     (let c = push_bit 1 c in if c AND 0x1000000 \<noteq> 0 then c XOR 0x1974F0B else c)"

definition CRC24_TABLE :: "u32 list" where
  "CRC24_TABLE = map (\<lambda>i. (crc24_shift ^^ 8) (push_bit 16 (word_of_nat i)) AND 0xFFFFFF) [0..<256]"

definition crc32_shift :: "u32 \<Rightarrow> u32" where
  "crc32_shift c = (if c AND 1 \<noteq> 0 then drop_bit 1 c XOR 0xEDB88320 else drop_bit 1 c)"

definition CRC32_TABLE :: "u32 list" where
  "CRC32_TABLE = map (\<lambda>i. (crc32_shift ^^ 8) (word_of_nat i)) [0..<256]"

definition crc24_step :: "u32 \<Rightarrow> u8 \<Rightarrow> u32" where
  "crc24_step c b =
     CRC24_TABLE ! unat ((drop_bit 16 c XOR ucast b) AND 0xFF) XOR (push_bit 8 c AND 0xFFFFFF)"

definition crc24 :: "u32 \<Rightarrow> bytes \<Rightarrow> u32" where
  "crc24 init data = foldl crc24_step init data"

definition crc32_step :: "u32 \<Rightarrow> u8 \<Rightarrow> u32" where
  "crc32_step c b = CRC32_TABLE ! unat ((c XOR ucast b) AND 0xFF) XOR drop_bit 8 c"

definition crc32 :: "u32 \<Rightarrow> bytes \<Rightarrow> u32" where
  "crc32 init data = foldl crc32_step init data XOR 0xFFFFFFFF"

definition CRC24_INIT :: u32 where "CRC24_INIT = 0x875060"

definition CRC32_CQL_V5_INIT :: u32 where "CRC32_CQL_V5_INIT = 0xBB88812C"

section \<open>The tables hold eight steps of the register\<close>

lemma word_and_1_iff: "(c AND 1 :: 'a::len word) \<noteq> 0 \<longleftrightarrow> bit c 0"
  by (simp add: and_one_eq bit_0 odd_iff_mod_2_eq_one)

lemma crc32_shift_bit: "crc32_shift c = (if bit c 0 then drop_bit 1 c XOR 0xEDB88320 else drop_bit 1 c)"
  by (simp add: crc32_shift_def word_and_1_iff)

lemma crc32_shift_xor: "crc32_shift (a XOR b) = crc32_shift a XOR crc32_shift b"
  by (cases "bit a 0"; cases "bit b 0")
    (simp_all add: crc32_shift_bit bit_xor_iff drop_bit_xor xor.assoc xor.commute xor.left_commute)

lemma funpow_xor:
  fixes f :: "u32 \<Rightarrow> u32"
  assumes "\<And>a b. f (a XOR b) = f a XOR f b"
  shows "(f ^^ n) (a XOR b) = (f ^^ n) a XOR (f ^^ n) b"
proof (induction n)
  case (Suc n)
  then show ?case by (simp add: assms)
qed simp

lemma crc32_shifts_low_zero:
  "(\<And>i. i < n \<Longrightarrow> \<not> bit c i) \<Longrightarrow> (crc32_shift ^^ n) c = drop_bit n c"
proof (induction n)
  case (Suc n)
  then have "\<not> bit (drop_bit n c) 0" by (simp add: bit_simps)
  with Suc show ?case by (simp add: crc32_shift_bit)
qed simp

lemma unat_and_FF_less: "unat ((x :: u32) AND 0xFF) < 256"
proof -
  have "(0xFF :: u32) = mask 8" by (simp add: mask_numeral)
  then have "unat (x AND 0xFF) = unat x mod 2 ^ 8"
    by (simp only: take_bit_eq_mask [symmetric] unsigned_take_bit_eq) (simp add: take_bit_eq_mod)
  then show ?thesis by simp
qed

lemma crc32_step_register: "crc32_step c b = (crc32_shift ^^ 8) (c XOR ucast b)"
proof -
  let ?x = "c XOR ucast b"
  let ?lo = "?x AND 0xFF" and ?hi = "?x AND NOT 0xFF"
  have m: "(0xFF :: u32) = mask 8" by (simp add: mask_numeral)
  have x: "?x = ?lo XOR ?hi" by (rule bit_word_eqI) (auto simp: bit_simps)
  have hi: "(crc32_shift ^^ 8) ?hi = drop_bit 8 ?hi"
    by (rule crc32_shifts_low_zero) (simp only: m, auto simp: bit_simps)
  also have "drop_bit 8 ?hi = drop_bit 8 c"
    unfolding m by (rule bit_word_eqI) (auto simp: bit_simps dest: bit_imp_le_length)
  finally have "(crc32_shift ^^ 8) ?x = (crc32_shift ^^ 8) ?lo XOR drop_bit 8 c"
    using funpow_xor [OF crc32_shift_xor, of 8 ?lo ?hi] x by simp
  moreover have "CRC32_TABLE ! unat ?lo = (crc32_shift ^^ 8) ?lo"
    using unat_and_FF_less [of ?x] by (simp add: CRC32_TABLE_def del: funpow.simps)
  ultimately show ?thesis by (simp add: crc32_step_def del: funpow.simps)
qed

lemma crc32_shift_0_iff: "crc32_shift d = 0 \<longleftrightarrow> d = 0"
proof
  assume z: "crc32_shift d = 0"
  have low: "\<not> bit d 0"
  proof
    assume "bit d 0"
    moreover have "\<not> bit d 32" using bit_imp_le_length [of d 32] by auto
    ultimately have "bit (crc32_shift d) 31" by (simp add: crc32_shift_bit bit_simps)
    with z show False by simp
  qed
  then have "drop_bit 1 d = 0" using z by (simp add: crc32_shift_bit)
  then have "\<not> bit (drop_bit 1 d) n" for n by simp
  then have up: "\<not> bit d (Suc n)" for n by (simp add: bit_drop_bit_eq)
  have "\<not> bit d n" for n using low up by (cases n) auto
  then show "d = 0" by (simp add: bit_eq_iff)
qed (simp add: crc32_shift_bit)

lemma xor_eq_0_iff: "a XOR b = 0 \<longleftrightarrow> a = (b :: u32)"
  by (auto simp: bit_eq_iff bit_simps)

text \<open>A linear register that sends only zero to zero, on the states it keeps, loses nothing.\<close>

lemma linear_inj:
  fixes f :: "u32 \<Rightarrow> u32"
  assumes linear: "\<And>a b. f (a XOR b) = f a XOR f b"
    and keeps: "\<And>d. P d \<Longrightarrow> P (f d)" and zero: "\<And>d. P d \<Longrightarrow> f d = 0 \<Longrightarrow> d = 0"
    and "P (a XOR b)"
  shows "(f ^^ n) a = (f ^^ n) b \<longleftrightarrow> a = b"
proof -
  have "P d \<Longrightarrow> P ((f ^^ n) d)" for d n by (induction n) (simp_all add: keeps)
  then have "P d \<Longrightarrow> (f ^^ n) d = 0 \<Longrightarrow> d = 0" for d
    by (induction n) (auto dest: zero)
  from this [of "a XOR b"] show ?thesis using assms(4)
    by (auto simp: funpow_xor [of f n a b, OF linear] xor_eq_0_iff)
qed

lemma xor_cancel:
  "a XOR x = b XOR x \<longleftrightarrow> a = (b :: u32)" "x XOR a = x XOR b \<longleftrightarrow> a = (b :: u32)"
  by (auto simp: bit_eq_iff bit_simps)

lemma byte_ucast_inj: "(ucast b :: u32) = ucast b' \<longleftrightarrow> b = (b' :: u8)"
  by (metis unat_ucast_up(1) word_unat_eq_iff)

lemma crc32_step_inj:
  "crc32_step c b = crc32_step d b \<longleftrightarrow> c = d"
  "crc32_step c b = crc32_step c b' \<longleftrightarrow> b = b'"
proof -
  have inj: "crc32_step c b = crc32_step d b' \<longleftrightarrow> c XOR ucast b = d XOR ucast b'" for c d b b'
    unfolding crc32_step_register
    by (rule linear_inj [where P = "\<lambda>_. True"]) (auto simp: crc32_shift_xor crc32_shift_0_iff)
  show "crc32_step c b = crc32_step d b \<longleftrightarrow> c = d"
    by (simp add: inj xor_cancel)
  show "crc32_step c b = crc32_step c b' \<longleftrightarrow> b = b'"
    by (simp add: inj xor_cancel byte_ucast_inj)
qed

section \<open>CRC-24: the same with the register shifted up\<close>

definition low24 :: "u32 \<Rightarrow> bool" where
  "low24 c \<longleftrightarrow> c AND 0xFFFFFF = c"

lemma low24_bits: "low24 c \<longleftrightarrow> (\<forall>n. bit c n \<longrightarrow> n < 24)"
proof -
  have "(0xFFFFFF :: u32) = mask 24" by (simp add: mask_numeral)
  then have "low24 c \<longleftrightarrow> take_bit 24 c = c" by (simp add: low24_def take_bit_eq_mask)
  then show ?thesis using bit_imp_le_length [of c] by (auto simp: bit_eq_iff bit_simps)
qed

lemma crc24_shift_bit: "crc24_shift c = push_bit 1 c XOR (if bit c 23 then 0x1974F0B else 0)"
proof -
  have "(push_bit 1 c AND 0x1000000 \<noteq> 0) \<longleftrightarrow> bit (push_bit 1 c) 24"
    using and_exp_eq_0_iff_not_bit [of "push_bit 1 c" 24] by simp
  also have "\<dots> \<longleftrightarrow> bit c 23" by (simp add: bit_push_bit_iff del: push_bit_Suc)
  finally show ?thesis by (simp only: crc24_shift_def Let_def split: if_splits) simp
qed

lemma crc24_shift_xor: "crc24_shift (a XOR b) = crc24_shift a XOR crc24_shift b"
  by (cases "bit a 23"; cases "bit b 23")
    (simp_all only: crc24_shift_bit bit_xor_iff push_bit_xor if_True if_False xor.assoc xor.commute
      xor.left_commute simp_thms xor_self_eq xor.right_neutral xor.left_neutral)

lemma poly24_bits: "bit (0x1974F0B :: u32) 24" "bit (0x1974F0B :: u32) 0" "24 < n \<Longrightarrow> \<not> bit (0x1974F0B :: u32) n"
proof -
  show "bit (0x1974F0B :: u32) 24" "bit (0x1974F0B :: u32) 0" by simp_all
  show "\<not> bit (0x1974F0B :: u32) n" if "24 < n"
  proof -
    have "(0x1974F0B :: u32) = take_bit 25 0x1974F0B" by simp
    moreover have "\<not> bit (take_bit 25 (0x1974F0B :: u32)) n" using that by (simp only: bit_take_bit_iff) simp
    ultimately show ?thesis by metis
  qed
qed

lemma low24_shift: "low24 c \<Longrightarrow> low24 (crc24_shift c)"
  unfolding low24_bits crc24_shift_bit
proof (intro allI impI, rule ccontr)
  fix n
  assume c: "\<forall>n. bit c n \<longrightarrow> n < 24" and b: "bit (push_bit 1 c XOR (if bit c 23 then 0x1974F0B else 0)) n"
    and n: "\<not> n < 24"
  show False
  proof (cases "n = 24")
    case True
    with b show False by (simp add: bit_xor_iff bit_push_bit_iff poly24_bits(1) del: push_bit_Suc split: if_splits)
  next
    case False
    with n have "24 < n" by simp
    moreover have "\<not> bit c (n - 1)" using c [rule_format, of "n - 1"] \<open>24 < n\<close> by auto
    ultimately show False using b poly24_bits(3) [OF \<open>24 < n\<close>]
      by (auto simp: bit_xor_iff bit_push_bit_iff simp del: push_bit_Suc split: if_splits)
  qed
qed

lemma crc24_shift_0: "low24 d \<Longrightarrow> crc24_shift d = 0 \<Longrightarrow> d = 0"
proof -
  assume low: "low24 d" and z: "crc24_shift d = 0"
  have top: "\<not> bit d 23"
  proof
    assume "bit d 23"
    then have "bit (crc24_shift d) 0"
      by (simp add: crc24_shift_bit bit_xor_iff bit_push_bit_iff poly24_bits(2) del: push_bit_Suc)
    with z show False by simp
  qed
  have "\<not> bit d n" for n
  proof
    assume d: "bit d n"
    with low top have "n < 24" by (simp add: low24_bits)
    with d have "bit (push_bit 1 d) (Suc n)" by (simp add: bit_push_bit_iff del: push_bit_Suc)
    with z top show False by (simp add: crc24_shift_bit)
  qed
  then show "d = 0" by (simp add: bit_eq_iff)
qed

lemma crc24_shifts_high_zero:
  "(\<And>i. 24 - n \<le> i \<Longrightarrow> \<not> bit c i) \<Longrightarrow> n \<le> 24 \<Longrightarrow> (crc24_shift ^^ n) c = push_bit n c"
proof (induction n)
  case (Suc n)
  have "\<not> bit (push_bit n c) 23" using Suc.prems by (simp add: bit_push_bit_iff)
  moreover have "(crc24_shift ^^ n) c = push_bit n c" using Suc by simp
  ultimately have "(crc24_shift ^^ Suc n) c = push_bit 1 (push_bit n c)"
    by (simp only: funpow.simps o_apply crc24_shift_bit [of "push_bit n c"] if_False xor.right_neutral)
  then show ?case by (simp only: push_bit_push_bit plus_1_eq_Suc)
qed simp

lemma low24_funpow: "low24 c \<Longrightarrow> low24 ((crc24_shift ^^ n) c)"
  by (induction n) (simp_all add: low24_shift)

lemma crc24_step_register:
  assumes "low24 c"
  shows "crc24_step c b = (crc24_shift ^^ 8) (c XOR push_bit 16 (ucast b))"
proof -
  let ?i = "(drop_bit 16 c XOR ucast b) AND 0xFF"
  let ?lo = "c AND mask 16"
  have m: "(0xFF :: u32) = mask 8" "(0xFFFFFF :: u32) = mask 24" by (simp_all add: mask_numeral)
  have x: "c XOR push_bit 16 (ucast b) = push_bit 16 ?i XOR ?lo"
    unfolding m
  proof (rule bit_word_eqI)
    fix n assume "n < LENGTH(32)"
    then show "bit (c XOR push_bit 16 (ucast b)) n = bit (push_bit 16 ((drop_bit 16 c XOR ucast b) AND mask 8) XOR ?lo) n"
      using assms bit_imp_le_length [of b "n - 16"] by (auto simp: low24_bits bit_simps)
  qed
  have lo: "(crc24_shift ^^ 8) ?lo = push_bit 8 c AND 0xFFFFFF"
    by (subst crc24_shifts_high_zero) (simp add: bit_simps, simp, unfold m, rule bit_word_eqI, auto simp: bit_simps)
  have "low24 (push_bit 16 ?i)"
    unfolding m low24_bits by (auto simp: bit_simps)
  then have "(crc24_shift ^^ 8) (push_bit 16 ?i) AND 0xFFFFFF = (crc24_shift ^^ 8) (push_bit 16 ?i)"
    using low24_funpow low24_def by metis
  then have "CRC24_TABLE ! unat ?i = (crc24_shift ^^ 8) (push_bit 16 ?i)"
    using unat_and_FF_less [of "drop_bit 16 c XOR ucast b"] by (simp add: CRC24_TABLE_def del: funpow.simps)
  then show ?thesis
    by (simp add: crc24_step_def x funpow_xor [OF crc24_shift_xor] lo del: funpow.simps)
qed

lemma low24_xor: "low24 a \<Longrightarrow> low24 b \<Longrightarrow> low24 (a XOR b)"
  by (auto simp: low24_bits bit_simps)

lemma low24_byte: "low24 (push_bit 16 (ucast (b :: u8)))"
proof (unfold low24_bits, intro allI impI)
  fix n assume "bit (push_bit 16 (ucast b :: u32)) n"
  then have "16 \<le> n" "bit b (n - 16)" by (simp_all add: bit_simps)
  then show "n < 24" using bit_imp_le_length [of b "n - 16"] by auto
qed

lemma low24_step: "low24 c \<Longrightarrow> low24 (crc24_step c b)"
  by (simp add: crc24_step_register low24_funpow low24_xor low24_byte del: funpow.simps)

lemma crc24_step_inj:
  assumes "low24 c" "low24 d"
  shows "crc24_step c b = crc24_step d b \<longleftrightarrow> c = d"
    and "crc24_step c b = crc24_step c b' \<longleftrightarrow> b = b'"
proof -
  have inj: "crc24_step c b = crc24_step d b' \<longleftrightarrow> c XOR push_bit 16 (ucast b) = d XOR push_bit 16 (ucast b')"
    if "low24 c" "low24 d" for c d b b'
    unfolding crc24_step_register [OF that(1)] crc24_step_register [OF that(2)]
  proof (rule linear_inj [where P = low24])
    show "low24 ((c XOR push_bit 16 (ucast b)) XOR (d XOR push_bit 16 (ucast b')))"
      using that by (simp add: low24_xor low24_byte)
  qed (auto simp: crc24_shift_xor low24_shift crc24_shift_0)
  show "crc24_step c b = crc24_step d b \<longleftrightarrow> c = d"
    by (simp add: inj assms xor_cancel)
  have "push_bit 16 (ucast b :: u32) = push_bit 16 (ucast b') \<longleftrightarrow> b = b'"
  proof
    assume e: "push_bit 16 (ucast b :: u32) = push_bit 16 (ucast b')"
    have "bit b n = bit b' n" if "n < 8" for n
    proof -
      have "bit (push_bit 16 (ucast b :: u32)) (n + 16) = bit (push_bit 16 (ucast b' :: u32)) (n + 16)"
        by (simp only: e)
      then show ?thesis using that by (simp add: bit_simps)
    qed
    then show "b = b'" by (simp add: bit_eq_iff)
  qed simp
  then show "crc24_step c b = crc24_step c b' \<longleftrightarrow> b = b'"
    by (simp add: inj assms xor_cancel)
qed

section \<open>A changed byte changes the checksum\<close>

lemma crc32_inj: "crc32 c bs = crc32 d bs \<longleftrightarrow> c = d"
proof -
  have "foldl crc32_step c bs = foldl crc32_step d bs \<longleftrightarrow> c = d"
    by (induction bs arbitrary: c d) (simp_all add: crc32_step_inj)
  then show ?thesis by (simp add: crc32_def xor_cancel)
qed

lemma crc32_append: "crc32 c (xs @ ys) = crc32 (crc32 c xs XOR 0xFFFFFFFF) ys"
  by (simp add: crc32_def xor.assoc)

theorem crc32_changed_byte:
  "crc32 c (xs @ b # ys) = crc32 c (xs @ b' # ys) \<longleftrightarrow> b = b'"
proof -
  have "crc32 c (xs @ b # ys) = crc32 (crc32_step (crc32 c xs XOR 0xFFFFFFFF) b) ys" for b
    by (simp add: crc32_def xor.assoc)
  then show ?thesis by (simp add: crc32_inj crc32_step_inj)
qed

lemma crc24_inj: "low24 c \<Longrightarrow> low24 d \<Longrightarrow> crc24 c bs = crc24 d bs \<longleftrightarrow> c = d"
proof (induction bs arbitrary: c d)
  case (Cons b bs)
  then show ?case by (simp add: crc24_def low24_step crc24_step_inj)
qed (simp add: crc24_def)

lemma low24_crc24: "low24 c \<Longrightarrow> low24 (crc24 c bs)"
  by (induction bs arbitrary: c) (simp_all add: crc24_def low24_step)

theorem crc24_changed_byte:
  assumes "low24 c"
  shows "crc24 c (xs @ b # ys) = crc24 c (xs @ b' # ys) \<longleftrightarrow> b = b'"
proof -
  let ?d = "crc24 c xs"
  have d: "low24 ?d" using assms by (rule low24_crc24)
  have "crc24 c (xs @ b # ys) = crc24 (crc24_step ?d b) ys" for b by (simp add: crc24_def)
  then show ?thesis using d by (simp add: crc24_inj low24_step crc24_step_inj)
qed

lemma low24_INIT: "low24 CRC24_INIT"
  by (simp add: low24_def CRC24_INIT_def)

end
