(* ===== verification/Framing.thy ===== *)
theory Framing
  imports Crc
begin

text \<open>
  The framing of the native protocol (\<open>cql/native/native.cppm\<close>, \<open>cql/native/native.cpp\<close>): how
  messages are cut out of the bytes of a connection after it was negotiated, and how replies are
  wrapped. In version 4 a message is an envelope, a header of nine bytes and a body. In version 5
  envelopes travel inside outer frames with checksums, optionally compressed.

  A connection is the list of the blocks its reads will return; when it is used up the peer has
  closed and \<open>try_append_tcp_read\<close> fails. What the server does with a message is left to
  \<open>frame_handler\<close>: a loop here returns the messages it handed over, in order, and \<open>None\<close> when it
  never ends.
\<close>

section \<open>Reading from a connection\<close>

definition read_be_u16 :: "bytes \<Rightarrow> u16" where
  "read_be_u16 p = word_of_nat (be_nat (take 2 p))"

definition read_be_s32 :: "bytes \<Rightarrow> u32" where
  "read_be_s32 p = word_of_nat (be_nat (take 4 p))"

definition read_be_s64 :: "bytes \<Rightarrow> u64" where
  "read_be_s64 p = word_of_nat (be_nat (take 8 p))"

fun fill_to :: "nat \<Rightarrow> bytes \<Rightarrow> bytes list \<Rightarrow> bytes \<times> bytes list" where
  "fill_to n buf [] = (buf, [])"
| "fill_to n buf (c # cs) = (if length buf < n then fill_to n (buf @ c) cs else (buf, c # cs))"

text \<open>The first bytes of the connection, taken off the buffer: \<open>fill_to\<close> and \<open>consume_front\<close>.\<close>

definition receive :: "nat \<Rightarrow> bytes \<Rightarrow> bytes list \<Rightarrow> (bytes \<times> bytes \<times> bytes list) option" where
  "receive n buf cs = (let (buf, cs) = fill_to n buf cs
     in if length buf < n then None else Some (take n buf, drop n buf, cs))"

text \<open>A loop that takes one message at a time and hands it over.\<close>

partial_function (option) serve ::
    "(bytes \<Rightarrow> bytes list \<Rightarrow> ('m \<times> bytes \<times> bytes list) option) \<Rightarrow> bytes \<Rightarrow> bytes list \<Rightarrow> 'm list option" where
  "serve step buf cs = (case step buf cs of
       None \<Rightarrow> Some []
     | Some (m, buf, cs) \<Rightarrow> do { ms \<leftarrow> serve step buf cs; Some (m # ms) })"

text \<open>
  The interface of such a loop with the connection: how the bytes are cut into blocks does not
  matter to a step.
\<close>

definition stream :: "'m \<times> bytes \<times> bytes list \<Rightarrow> 'm \<times> bytes" where
  "stream r = (case r of (m, buf, cs) \<Rightarrow> (m, buf @ concat cs))"

lemma stream_simp [simp]: "stream (m, buf, cs) = (m, buf @ concat cs)"
  by (simp add: stream_def)

locale transport =
  fixes step :: "bytes \<Rightarrow> bytes list \<Rightarrow> ('m \<times> bytes \<times> bytes list) option"
  assumes step_cut:
    "buf @ concat cs = buf' @ concat cs' \<Longrightarrow> map_option stream (step buf cs) = map_option stream (step buf' cs')"
begin

lemma serve_cut_Some:
  assumes "serve step buf cs = Some ms" "buf @ concat cs = buf' @ concat cs'"
  shows "serve step buf' cs' = Some ms"
proof -
  have "\<forall>buf' cs'. buf @ concat cs = buf' @ concat cs' \<longrightarrow> serve step buf' cs' = Some ms"
  proof (rule serve.raw_induct [where P = "\<lambda>st buf cs ms. st = step \<longrightarrow>
        (\<forall>buf' cs'. buf @ concat cs = buf' @ concat cs' \<longrightarrow> serve step buf' cs' = Some ms)",
        OF _ assms(1), THEN mp, OF _ refl], intro impI allI)
    fix sv st buf cs ms buf' cs'
    assume IH: "\<And>st buf cs ms. sv st buf cs = Some ms \<Longrightarrow> st = step \<longrightarrow>
        (\<forall>buf' cs'. buf @ concat cs = buf' @ concat cs' \<longrightarrow> serve step buf' cs' = Some ms)"
      and eq: "(case st buf cs of None \<Rightarrow> Some []
        | Some (m, buf, cs) \<Rightarrow> do { ms \<leftarrow> sv st buf cs; Some (m # ms) }) = Some ms"
      and st: "st = step" and cut: "buf @ concat cs = buf' @ concat cs'"
    show "serve step buf' cs' = Some ms"
    proof (cases "step buf cs")
      case None
      with eq st step_cut [OF cut] show ?thesis by (simp add: serve.simps)
    next
      case (Some r)
      then obtain m b c where r: "step buf cs = Some (m, b, c)" by (cases r) auto
      with step_cut [OF cut] obtain b' c' where r': "step buf' cs' = Some (m, b', c')"
          and bc: "b @ concat c = b' @ concat c'"
        by (cases "step buf' cs'") auto
      from eq st r obtain ms' where "sv step b c = Some ms'" "ms = m # ms'"
        by (auto simp: bind_eq_Some_conv)
      with IH [of step b c ms'] bc r' show ?thesis by (simp add: serve.simps [of step buf'])
    qed
  qed
  with assms(2) show ?thesis by simp
qed

lemma serve_cut:
  assumes "buf @ concat cs = buf' @ concat cs'"
  shows "serve step buf cs = serve step buf' cs'"
  using serve_cut_Some [OF _ assms] serve_cut_Some [OF _ assms [symmetric]]
  by (metis not_None_eq)

text \<open>A message at the front of the stream is the first one handed over.\<close>

lemma serve_next:
  assumes "map_option stream (step s []) = Some (m, s')"
  shows "serve step s [] = do { ms \<leftarrow> serve step s' []; Some (m # ms) }"
proof -
  from assms obtain b c where "step s [] = Some (m, b, c)" "s' = b @ concat c" by auto
  with serve_cut [of b c s' "[]"] show ?thesis by (simp add: serve.simps [of step s])
qed

lemma serve_stop: "step s [] = None \<Longrightarrow> serve step s [] = Some []"
  by (simp add: serve.simps)

lemma serve_all:
  assumes "\<And>m s'. m \<in> set ms \<Longrightarrow> map_option stream (step (put m @ s') []) = Some (m, s')"
    and "step tail [] = None"
  shows "serve step (concat (map put ms) @ tail) [] = Some ms"
  using assms(1)
proof (induction ms)
  case (Cons m ms)
  then have "map_option stream (step (put m @ concat (map put ms) @ tail) []) = Some (m, concat (map put ms) @ tail)"
    by simp
  from serve_next [OF this] Cons show ?case by simp
qed (simp add: serve_stop assms(2))

end

locale consuming = transport step
  for step :: "bytes \<Rightarrow> bytes list \<Rightarrow> ('m \<times> bytes \<times> bytes list) option" +
  assumes step_shrinks: "step buf cs = Some (m, buf', cs') \<Longrightarrow> length (buf' @ concat cs') < length (buf @ concat cs)"
begin

lemma serve_returns: "\<exists>ms. serve step buf cs = Some ms"
proof (induction "length (buf @ concat cs)" arbitrary: buf cs rule: less_induct)
  case less
  show ?case
  proof (cases "step buf cs")
    case None
    then show ?thesis by (simp add: serve.simps)
  next
    case (Some r)
    then obtain m b c where r: "step buf cs = Some (m, b, c)" by (cases r) auto
    from less [OF step_shrinks [OF r]] obtain ms where "serve step b c = Some ms" by blast
    with r show ?thesis by (simp add: serve.simps [of step buf])
  qed
qed

end

lemma fill_to_stream: "fill_to n buf cs = (b, c) \<Longrightarrow> b @ concat c = buf @ concat cs"
  by (induction n buf cs rule: fill_to.induct) (auto split: if_splits)

lemma fill_to_short: "fill_to n buf cs = (b, c) \<Longrightarrow> length b < n \<Longrightarrow> c = []"
  by (induction n buf cs rule: fill_to.induct) (auto split: if_splits)

lemma receive_stream: "map_option stream (receive n buf cs) = rd n (buf @ concat cs)"
proof -
  obtain b c where f: "fill_to n buf cs = (b, c)" by (cases "fill_to n buf cs") auto
  show ?thesis
  proof (cases "length b < n")
    case True
    with fill_to_stream [OF f] fill_to_short [OF f True] f show ?thesis
      by (simp add: receive_def rd_def)
  next
    case False
    then have "n \<le> length b" "n - length b = 0" by simp_all
    with f show ?thesis by (simp add: receive_def rd_def fill_to_stream [OF f, symmetric])
  qed
qed

section \<open>Version 4: plain envelopes\<close>

definition V4_FRAME_HEADER_BYTE_COUNT :: nat where "V4_FRAME_HEADER_BYTE_COUNT = 9"

text \<open>
  What \<open>frame_handler\<close> is called with: the header, the body and its length. When the length is
  negative the pointer to the end of the body lies before the body, which holds no bytes then.
\<close>

record envelope =
  env_header :: bytes
  env_body :: bytes
  env_length :: u32

definition envelope_at :: "bytes \<Rightarrow> u32 \<Rightarrow> envelope" where
  "envelope_at p len = \<lparr>env_header = take 9 p, env_body = take (nat (sint len)) (drop 9 p), env_length = len\<rparr>"

definition v4_step :: "bytes \<Rightarrow> bytes list \<Rightarrow> (envelope \<times> bytes \<times> bytes list) option" where
  "v4_step frame cs =
     (let (frame, cs) = fill_to V4_FRAME_HEADER_BYTE_COUNT frame cs
      in if length frame < V4_FRAME_HEADER_BYTE_COUNT then None
         else let body_byte_count = read_be_s32 (drop 5 frame);
                  frame_byte_count = unat (9 + scast body_byte_count :: u64);
                  (frame, cs) = fill_to frame_byte_count frame cs
              in if length frame < frame_byte_count then None
                 else Some (envelope_at frame body_byte_count, drop frame_byte_count frame, cs))"

definition post_startup_loop_v4 :: "bytes list \<Rightarrow> envelope list option" where
  "post_startup_loop_v4 cs = serve v4_step [] cs"

text \<open>The envelope of a reply (\<open>send_native_frame\<close>).\<close>

definition envelope_header :: "u8 \<Rightarrow> u8 \<Rightarrow> u16 \<Rightarrow> u8 \<Rightarrow> nat \<Rightarrow> bytes" where
  "envelope_header version flags str op len =
     [0x80 OR version, flags, ucast (drop_bit 8 str), ucast str, op] @ be_bytes 4 len"

definition resp_flags :: "u8 \<Rightarrow> u8" where
  "resp_flags version = (if 5 \<le> version then 0x10 else 0)"

definition native_envelope :: "u8 \<Rightarrow> u16 \<Rightarrow> u8 \<Rightarrow> bytes \<Rightarrow> bytes option" where
  "native_envelope version str op content = do {
     assert_true (length content < 2 ^ 32);
     Some (envelope_header version (resp_flags version) str op (length content) @ content) }"

section \<open>Version 5: outer frames\<close>

definition V5_MAX_PAYLOAD_BYTE_COUNT :: nat where "V5_MAX_PAYLOAD_BYTE_COUNT = 131071"
definition V5_UNCOMP_HDR_BYTE_COUNT :: nat where "V5_UNCOMP_HDR_BYTE_COUNT = 3"
definition V5_COMP_HDR_BYTE_COUNT :: nat where "V5_COMP_HDR_BYTE_COUNT = 5"
definition V5_HDR_CRC24_BYTE_COUNT :: nat where "V5_HDR_CRC24_BYTE_COUNT = 3"
definition V5_PAYLOAD_CRC32_BYTE_COUNT :: nat where "V5_PAYLOAD_CRC32_BYTE_COUNT = 4"

text \<open>
  The LZ4 library: the block it compresses a buffer to, empty when it fails, and what it
  decompresses a block to when there is room for so many bytes.
\<close>

record lz4 =
  lz4_compress :: "bytes \<Rightarrow> bytes"
  lz4_decompress :: "bytes \<Rightarrow> nat \<Rightarrow> bytes option"

definition le24 :: "u32 \<Rightarrow> bytes" where
  "le24 w = [ucast w, ucast (drop_bit 8 w), ucast (drop_bit 16 w)]"

definition le32 :: "u32 \<Rightarrow> bytes" where
  "le32 w = [ucast w, ucast (drop_bit 8 w), ucast (drop_bit 16 w), ucast (drop_bit 24 w)]"

definition at24 :: "bytes \<Rightarrow> u32" where
  "at24 b = ucast (b ! 0) OR push_bit 8 (ucast (b ! 1)) OR push_bit 16 (ucast (b ! 2))"

definition at32 :: "bytes \<Rightarrow> u32" where
  "at32 b = ucast (b ! 0) OR push_bit 8 (ucast (b ! 1)) OR push_bit 16 (ucast (b ! 2))
     OR push_bit 24 (ucast (b ! 3))"

definition header_bits :: "u32 \<Rightarrow> bool \<Rightarrow> bytes" where
  "header_bits pl self_contained =
     [ucast pl, ucast (drop_bit 8 pl),
      ucast (drop_bit 16 pl AND 1) OR push_bit 1 (if self_contained then 1 else 0)]"

definition header_bits_lz4 :: "u32 \<Rightarrow> u32 \<Rightarrow> bool \<Rightarrow> bytes" where
  "header_bits_lz4 c u self_contained =
     [ucast c, ucast (drop_bit 8 c),
      ucast (drop_bit 16 c AND 1) OR ucast (push_bit 1 (u AND 0x7F)),
      ucast (drop_bit 7 u),
      ucast (drop_bit 15 u AND 3) OR push_bit 2 (if self_contained then 1 else 0)]"

definition sealed :: "bytes \<Rightarrow> bytes \<Rightarrow> bytes" where
  "sealed bits payload =
     bits @ le24 (crc24 CRC24_INIT bits) @ payload @ le32 (crc32 CRC32_CQL_V5_INIT payload)"

definition outer_frame :: "lz4 option \<Rightarrow> bytes \<Rightarrow> bool \<Rightarrow> bytes option" where
  "outer_frame z data self_contained = (case z of
       Some l \<Rightarrow> do {
         let comp = lz4_compress l data;
         assert_true (comp \<noteq> []);
         Some (sealed (header_bits_lz4 (word_of_nat (length comp)) (word_of_nat (length data)) self_contained) comp) }
     | None \<Rightarrow> Some (sealed (header_bits (word_of_nat (length data)) self_contained) data))"

function send_v5_outer_frames :: "lz4 option \<Rightarrow> bytes \<Rightarrow> bytes option" where
  "send_v5_outer_frames z data =
     (let chunk = min (length data) V5_MAX_PAYLOAD_BYTE_COUNT;
          self_contained = (length data \<le> chunk)
      in do {
        f \<leftarrow> outer_frame z (take chunk data) self_contained;
        if chunk < length data
        then do { fs \<leftarrow> send_v5_outer_frames z (drop chunk data); Some (f @ fs) }
        else Some f })"
  by pat_completeness auto
termination by (relation "measure (\<lambda>(z, data). length data)") (auto simp: V5_MAX_PAYLOAD_BYTE_COUNT_def)

declare send_v5_outer_frames.simps [simp del]

definition send_native_frame :: "u8 \<Rightarrow> lz4 option \<Rightarrow> u16 \<Rightarrow> u8 \<Rightarrow> bytes \<Rightarrow> bytes option" where
  "send_native_frame version z str op content = do {
     env \<leftarrow> native_envelope version str op content;
     if version < 5 then Some env
     else do { assert_true (length env < 2 ^ 32); send_v5_outer_frames z env } }"

definition payload_len :: "bytes \<Rightarrow> nat" where
  "payload_len h = unat (ucast (h ! 0) OR push_bit 8 (ucast (h ! 1)) OR push_bit 16 (ucast (h ! 2) AND 1) :: u32)"

definition uncomp_len :: "bytes \<Rightarrow> nat" where
  "uncomp_len h = unat ((drop_bit 1 (ucast (h ! 2)) AND 0x7F) OR push_bit 7 (ucast (h ! 3))
     OR push_bit 15 (ucast (h ! 4) AND 3) :: u32)"

definition self_contained_bit :: "lz4 option \<Rightarrow> bytes \<Rightarrow> bool" where
  "self_contained_bit z h =
     (case z of Some _ \<Rightarrow> drop_bit 2 (h ! 4) AND 1 \<noteq> 0 | None \<Rightarrow> drop_bit 1 (h ! 2) AND 1 \<noteq> 0)"

definition opened :: "lz4 option \<Rightarrow> bytes \<Rightarrow> bytes \<Rightarrow> bytes option" where
  "opened z h payload = (case z of
       None \<Rightarrow> Some payload
     | Some l \<Rightarrow> (case lz4_decompress l payload (uncomp_len h) of
           Some data \<Rightarrow> if length data = uncomp_len h then Some data else None
         | None \<Rightarrow> None))"

definition read_outer_frame ::
    "lz4 option \<Rightarrow> bytes \<Rightarrow> bytes list \<Rightarrow> ((bytes \<times> bool) \<times> bytes \<times> bytes list) option" where
  "read_outer_frame z buf cs = (let hn = (case z of None \<Rightarrow> V5_UNCOMP_HDR_BYTE_COUNT | Some _ \<Rightarrow> V5_COMP_HDR_BYTE_COUNT) in do {
     (h, buf, cs) \<leftarrow> receive (hn + V5_HDR_CRC24_BYTE_COUNT) buf cs;
     if crc24 CRC24_INIT (take hn h) \<noteq> at24 (drop hn h) then None
     else do {
       (p, buf, cs) \<leftarrow> receive (payload_len h + V5_PAYLOAD_CRC32_BYTE_COUNT) buf cs;
       let payload = take (payload_len h) p;
       if crc32 CRC32_CQL_V5_INIT payload \<noteq> at32 (drop (payload_len h) p) then None
       else do { data \<leftarrow> opened z h payload; Some ((data, self_contained_bit z h), buf, cs) } } })"

text \<open>Outer frames are gathered until one is marked as self-contained.\<close>

lemma receive_length:
  "receive n buf cs = Some (h, b, c) \<Longrightarrow> length h = n \<and> n + length (b @ concat c) = length (buf @ concat cs)"
  using receive_stream [of n buf cs]
  by (auto simp: rd_def simp del: take_append drop_append split: if_splits dest: arg_cong [where f = length])

lemma read_outer_frame_shrinks:
  "read_outer_frame z buf cs = Some (r, b, c) \<Longrightarrow> length (b @ concat c) < length (buf @ concat cs)"
  by (auto simp: read_outer_frame_def Let_def V5_HDR_CRC24_BYTE_COUNT_def V5_PAYLOAD_CRC32_BYTE_COUNT_def
      bind_eq_Some_conv split: if_splits dest!: receive_length)

function gather :: "lz4 option \<Rightarrow> bytes \<Rightarrow> bytes \<Rightarrow> bytes list \<Rightarrow> (bytes \<times> bytes \<times> bytes list) option" where
  "gather z env buf cs = (case read_outer_frame z buf cs of
       None \<Rightarrow> None
     | Some ((data, self_contained), buf, cs) \<Rightarrow>
         if self_contained then Some (env @ data, buf, cs) else gather z (env @ data) buf cs)"
  by pat_completeness auto
termination
  by (relation "measure (\<lambda>(z, env, buf, cs). length (buf @ concat cs))") (auto dest: read_outer_frame_shrinks)

declare gather.simps [simp del]

function dispatch :: "bytes \<Rightarrow> envelope list" where
  "dispatch p =
     (if length p < V4_FRAME_HEADER_BYTE_COUNT then []
      else let inner_body_len = read_be_s32 (drop 5 p)
           in if sint inner_body_len < 0 \<or> length p < V4_FRAME_HEADER_BYTE_COUNT + nat (sint inner_body_len) then []
              else envelope_at p inner_body_len # dispatch (drop (V4_FRAME_HEADER_BYTE_COUNT + nat (sint inner_body_len)) p))"
  by pat_completeness auto
termination by (relation "measure length") (auto simp: V4_FRAME_HEADER_BYTE_COUNT_def)

declare dispatch.simps [simp del]

definition v5_step :: "lz4 option \<Rightarrow> bytes \<Rightarrow> bytes list \<Rightarrow> (envelope list \<times> bytes \<times> bytes list) option" where
  "v5_step z buf cs = map_option (\<lambda>(env, buf, cs). (dispatch env, buf, cs)) (gather z [] buf cs)"

definition post_startup_loop_v5 :: "lz4 option \<Rightarrow> bytes list \<Rightarrow> envelope list option" where
  "post_startup_loop_v5 z cs = map_option concat (serve (v5_step z) [] cs)"

section \<open>The loops as clients of the connection\<close>

lemma stream_Some_iff:
  "map_option stream r = Some (m, s) \<longleftrightarrow> (\<exists>b c. r = Some (m, b, c) \<and> s = b @ concat c)"
  by (auto simp: stream_def split: prod.splits)

definition v4_first :: "bytes \<Rightarrow> (envelope \<times> bytes) option" where
  "v4_first s = (if length s < 9 then None
     else let len = read_be_s32 (drop 5 s); n = unat (9 + scast len :: u64)
          in if length s < n then None else Some (envelope_at s len, drop n s))"

lemma fill_to_grows: "fill_to n buf cs = (b, c) \<Longrightarrow> length buf \<le> length b"
  by (induction n buf cs rule: fill_to.induct) (auto split: if_splits)

lemma read_be_prefix: "4 \<le> length p \<Longrightarrow> read_be_s32 (p @ q) = read_be_s32 p"
  by (simp add: read_be_s32_def)

lemma envelope_at_prefix:
  "9 + nat (sint len) \<le> length p \<Longrightarrow> envelope_at (p @ q) len = envelope_at p len"
  by (simp add: envelope_at_def)

lemma frame_byte_count:
  assumes "0 \<le> sint (len :: u32)"
  shows "unat (9 + scast len :: u64) = 9 + nat (sint len)"
proof -
  have "sint len < 2 ^ 31" using sint_lt [of len] by simp
  then have k: "nat (sint len) < 2 ^ 31" using assms by (simp add: nat_less_iff)
  have "(scast len :: u64) = word_of_int (sint len)" by (rule scast_eq)
  also have "\<dots> = word_of_nat (nat (sint len))" using assms by (metis int_nat_eq of_int_of_nat_eq)
  finally have "(9 + scast len :: u64) = word_of_nat (9 + nat (sint len))" by simp
  then show ?thesis using k by (simp only: unat_of_nat) simp
qed

lemma v4_step_stream: "map_option stream (v4_step buf cs) = v4_first (buf @ concat cs)"
proof -
  obtain f c where f: "fill_to 9 buf cs = (f, c)" by (cases "fill_to 9 buf cs") auto
  note fs = fill_to_stream [OF f]
  show ?thesis
  proof (cases "length f < 9")
    case True
    with fill_to_short [OF f True] fs f show ?thesis
      by (simp add: v4_step_def v4_first_def V4_FRAME_HEADER_BYTE_COUNT_def)
  next
    case False
    define len where "len = read_be_s32 (drop 5 f)"
    have len: "read_be_s32 (drop 5 (buf @ concat cs)) = len"
      using False by (simp add: fs [symmetric] len_def read_be_prefix del: drop_append) (simp add: read_be_prefix)
    define n where "n = unat (9 + scast len :: u64)"
    obtain g d where g: "fill_to n f c = (g, d)" by (cases "fill_to n f c") auto
    have gs: "g @ concat d = buf @ concat cs" using fill_to_stream [OF g] fs by simp
    have s9: "9 \<le> length (buf @ concat cs)" using False by (simp add: fs [symmetric])
    show ?thesis
    proof (cases "length g < n")
      case True
      with fill_to_short [OF g True] gs s9 len f g False show ?thesis
        by (simp add: v4_step_def v4_first_def V4_FRAME_HEADER_BYTE_COUNT_def len_def [symmetric]
            n_def [symmetric] Let_def del: length_append)
    next
      case n: False
      have "9 + nat (sint len) \<le> length g"
        using n fill_to_grows [OF g] False frame_byte_count [of len] by (cases "0 \<le> sint len") (auto simp: n_def)
      then have "envelope_at (buf @ concat cs) len = envelope_at g len"
        by (simp add: gs [symmetric] envelope_at_prefix)
      moreover have "drop n (buf @ concat cs) = drop n g @ concat d"
        using n by (simp add: gs [symmetric])
      moreover have "n \<le> length (buf @ concat cs)" using n by (simp add: gs [symmetric])
      ultimately show ?thesis using n s9 len f g False
        by (simp add: v4_step_def v4_first_def V4_FRAME_HEADER_BYTE_COUNT_def len_def [symmetric]
            n_def [symmetric] Let_def del: length_append drop_append)
    qed
  qed
qed

interpretation v4: transport v4_step
  by unfold_locales (simp add: v4_step_stream)

lemma v4_step_None_iff: "v4_step s [] = None \<longleftrightarrow> v4_first s = None"
  using arg_cong [OF v4_step_stream [of s "[]"], of "\<lambda>r. r = None"] by simp

text \<open>The envelopes that a client may send: the length in the header is the length of the body.\<close>

definition wf_envelope :: "envelope \<Rightarrow> bool" where
  "wf_envelope e \<longleftrightarrow> length (env_header e) = 9 \<and> length (env_body e) < 2 ^ 31 \<and>
     drop 5 (env_header e) = be_bytes 4 (length (env_body e)) \<and> env_length e = word_of_nat (length (env_body e))"

definition envelope_bytes :: "envelope \<Rightarrow> bytes" where
  "envelope_bytes e = env_header e @ env_body e"

lemma sint_small: "n < 2 ^ 31 \<Longrightarrow> sint (word_of_nat n :: u32) = int n"
  by (simp add: signed_of_nat signed_take_bit_int_eq_self)

lemma wf_envelope_read:
  assumes "wf_envelope e"
  shows "read_be_s32 (drop 5 (envelope_bytes e @ s)) = env_length e"
    and "envelope_at (envelope_bytes e @ s) (env_length e) = e"
    and "sint (env_length e) = int (length (env_body e))"
proof -
  note e = assms [unfolded wf_envelope_def]
  show s: "sint (env_length e) = int (length (env_body e))" using e by (simp add: sint_small)
  show "read_be_s32 (drop 5 (envelope_bytes e @ s)) = env_length e"
    using e by (simp add: read_be_s32_def envelope_bytes_def be_nat_be_bytes)
  show "envelope_at (envelope_bytes e @ s) (env_length e) = e"
    using e s by (simp add: envelope_at_def envelope_bytes_def)
qed

lemma v4_first_envelope:
  assumes "wf_envelope e"
  shows "v4_first (envelope_bytes e @ s) = Some (e, s)"
proof -
  have "unat (9 + scast (env_length e) :: u64) = 9 + length (env_body e)"
    using wf_envelope_read(3) [OF assms] by (simp add: frame_byte_count)
  moreover have "length (envelope_bytes e) = 9 + length (env_body e)"
    using assms by (simp add: wf_envelope_def envelope_bytes_def)
  ultimately show ?thesis
    using wf_envelope_read(1,2) [OF assms, of s] by (simp add: v4_first_def Let_def del: drop_append) simp
qed

text \<open>An outer frame at the front of the stream.\<close>

definition header_length :: "lz4 option \<Rightarrow> nat" where
  "header_length z = (case z of None \<Rightarrow> V5_UNCOMP_HDR_BYTE_COUNT | Some _ \<Rightarrow> V5_COMP_HDR_BYTE_COUNT)"

definition outer_first :: "lz4 option \<Rightarrow> bytes \<Rightarrow> ((bytes \<times> bool) \<times> bytes) option" where
  "outer_first z s = do {
     (h, s) \<leftarrow> rd (header_length z + 3) s;
     if crc24 CRC24_INIT (take (header_length z) h) \<noteq> at24 (drop (header_length z) h) then None
     else do {
       (p, s) \<leftarrow> rd (payload_len h + 4) s;
       if crc32 CRC32_CQL_V5_INIT (take (payload_len h) p) \<noteq> at32 (drop (payload_len h) p) then None
       else do { data \<leftarrow> opened z h (take (payload_len h) p); Some ((data, self_contained_bit z h), s) } } }"

lemma read_outer_frame_stream: "map_option stream (read_outer_frame z buf cs) = outer_first z (buf @ concat cs)"
proof (cases "receive (header_length z + 3) buf cs")
  case None
  with receive_stream [of "header_length z + 3" buf cs] show ?thesis
    by (simp add: read_outer_frame_def outer_first_def header_length_def V5_HDR_CRC24_BYTE_COUNT_def)
next
  case (Some r)
  then obtain h b c where h: "receive (header_length z + 3) buf cs = Some (h, b, c)" by (cases r) auto
  with receive_stream [of "header_length z + 3" buf cs]
  have rh: "rd (header_length z + 3) (buf @ concat cs) = Some (h, b @ concat c)" by simp
  show ?thesis
  proof (cases "receive (payload_len h + 4) b c")
    case None
    with receive_stream [of "payload_len h + 4" b c] h rh show ?thesis
      by (simp add: read_outer_frame_def outer_first_def header_length_def V5_HDR_CRC24_BYTE_COUNT_def
          V5_PAYLOAD_CRC32_BYTE_COUNT_def)
  next
    case (Some r)
    then obtain p b' c' where p: "receive (payload_len h + 4) b c = Some (p, b', c')" by (cases r) auto
    with receive_stream [of "payload_len h + 4" b c]
    have rp: "rd (payload_len h + 4) (b @ concat c) = Some (p, b' @ concat c')" by simp
    show ?thesis using h rh p rp
      by (cases "opened z h (take (payload_len h) p)")
        (simp_all add: read_outer_frame_def outer_first_def header_length_def V5_HDR_CRC24_BYTE_COUNT_def
          V5_PAYLOAD_CRC32_BYTE_COUNT_def)
  qed
qed

lemma gather_cut:
  "buf @ concat cs = buf' @ concat cs' \<Longrightarrow>
     map_option stream (gather z env buf cs) = map_option stream (gather z env buf' cs')"
proof (induction z env buf cs arbitrary: buf' cs' rule: gather.induct)
  case (1 z env buf cs)
  have eq: "map_option stream (read_outer_frame z buf cs) = map_option stream (read_outer_frame z buf' cs')"
    using 1(2) by (simp add: read_outer_frame_stream)
  show ?case
  proof (cases "read_outer_frame z buf cs")
    case None
    with eq show ?thesis by (simp add: gather.simps)
  next
    case (Some r)
    then obtain d sc b c where r: "read_outer_frame z buf cs = Some ((d, sc), b, c)" by (cases r) auto
    with eq obtain b' c' where r': "read_outer_frame z buf' cs' = Some ((d, sc), b', c')"
        and bc: "b @ concat c = b' @ concat c'"
      by (cases "read_outer_frame z buf' cs'") auto
    show ?thesis
    proof (cases sc)
      case True
      with r r' bc show ?thesis by (simp add: gather.simps [of z env buf] gather.simps [of z env buf'])
    next
      case False
      have "map_option stream (gather z (env @ d) b c) = map_option stream (gather z (env @ d) b' c')"
        by (rule 1(1) [OF r refl refl refl False bc])
      with False r r' show ?thesis by (simp add: gather.simps [of z env buf] gather.simps [of z env buf'])
    qed
  qed
qed

lemma gather_shrinks:
  "gather z env buf cs = Some (e, b, c) \<Longrightarrow> length (b @ concat c) < length (buf @ concat cs)"
proof (induction z env buf cs rule: gather.induct)
  case (1 z env buf cs)
  then show ?case
    by (subst (asm) (2) gather.simps)
      (fastforce split: option.splits prod.splits if_splits dest: read_outer_frame_shrinks)
qed

lemma v5_step_stream:
  "map_option stream (v5_step z buf cs) =
     map_option (\<lambda>(env, s). (dispatch env, s)) (map_option stream (gather z [] buf cs))"
  by (simp add: v5_step_def option.map_comp comp_def split_def stream_def)

interpretation v5: consuming "v5_step z" for z
proof unfold_locales
  show "map_option stream (v5_step z buf cs) = map_option stream (v5_step z buf' cs')"
    if "buf @ concat cs = buf' @ concat cs'" for buf cs buf' cs'
    by (simp only: v5_step_stream gather_cut [OF that])
  show "length (buf' @ concat cs') < length (buf @ concat cs)"
    if "v5_step z buf cs = Some (m, buf', cs')" for buf cs m buf' cs'
    using that gather_shrinks by (auto simp: v5_step_def)
qed

section \<open>What is sent is received\<close>

lemma word_lt_take_bit: "unat (w :: u32) < 2 ^ n \<Longrightarrow> take_bit n w = w"
  by (simp add: word_unat_eq_iff unsigned_take_bit_eq take_bit_nat_eq_self)

lemma bit_and_1: "bit (x AND 1 :: 'a::len word) n \<longleftrightarrow> n = 0 \<and> bit x 0"
  by (auto simp: bit_and_iff bit_1_iff)

lemma bit_flag: "bit (if b then 1 else 0 :: 'a::len word) n \<longleftrightarrow> b \<and> n = 0"
  by (simp add: bit_1_iff)

lemmas field_bits = bit_or_iff bit_push_bit_iff bit_drop_bit_eq bit_ucast_iff bit_and_1 bit_flag

lemma bytes_of_word:
  assumes "\<And>n. bit w n \<Longrightarrow> n < 24"
  shows "ucast (ucast w :: u8) OR push_bit 8 (ucast (ucast (drop_bit 8 w) :: u8))
    OR push_bit 16 (ucast (ucast (drop_bit 16 w) :: u8)) = (w :: u32)"
proof (rule bit_word_eqI)
  fix n assume "n < LENGTH(32)"
  consider "n < 8" | "8 \<le> n" "n < 16" | "16 \<le> n" "n < 24" | "24 \<le> n" by linarith
  then show "bit (ucast (ucast w :: u8) OR push_bit 8 (ucast (ucast (drop_bit 8 w) :: u8))
      OR push_bit 16 (ucast (ucast (drop_bit 16 w) :: u8)) :: u32) n = bit w n"
    using \<open>n < LENGTH(32)\<close> assms [of n] by cases (auto simp: field_bits)
qed

lemma at24_le24: "low24 w \<Longrightarrow> at24 (le24 w) = w"
  using bytes_of_word [of w] by (simp add: at24_def le24_def low24_bits)

lemma at32_le32: "at32 (le32 w) = w"
proof (rule bit_word_eqI)
  fix n assume "n < LENGTH(32)"
  consider "n < 8" | "8 \<le> n" "n < 16" | "16 \<le> n" "n < 24" | "24 \<le> n" by linarith
  then show "bit (at32 (le32 w)) n = bit w n"
    using \<open>n < LENGTH(32)\<close> by cases (auto simp: at32_def le32_def field_bits)
qed

lemma low_word_bits: "unat (w :: u32) < 2 ^ k \<Longrightarrow> bit w n \<Longrightarrow> n < k"
  using word_lt_take_bit [of w k] by (metis bit_take_bit_iff)

lemma payload_len_header_bits:
  assumes "unat pl < 2 ^ 17"
  shows "payload_len (header_bits pl sc @ x) = unat pl" "self_contained_bit None (header_bits pl sc @ x) = sc"
proof -
  have "ucast (ucast pl :: u8) OR push_bit 8 (ucast (ucast (drop_bit 8 pl) :: u8))
      OR push_bit 16 (ucast (ucast (drop_bit 16 pl AND 1) OR push_bit 1 (if sc then 1 else 0) :: u8) AND 1) = (pl :: u32)"
  proof (rule bit_word_eqI)
    fix n assume n: "n < LENGTH(32)"
    consider "n < 8" | "8 \<le> n" "n < 16" | "n = 16" | "16 < n" by linarith
    then show "bit (ucast (ucast pl :: u8) OR push_bit 8 (ucast (ucast (drop_bit 8 pl) :: u8))
      OR push_bit 16 (ucast (ucast (drop_bit 16 pl AND 1) OR push_bit 1 (if sc then 1 else 0) :: u8) AND 1) :: u32) n = bit pl n"
      using n low_word_bits [OF assms, of n] by cases (auto simp: field_bits simp del: push_bit_and)
  qed
  then show "payload_len (header_bits pl sc @ x) = unat pl"
    by (simp add: payload_len_def header_bits_def)
  show "self_contained_bit None (header_bits pl sc @ x) = sc"
    by (simp add: self_contained_bit_def header_bits_def word_and_1_iff field_bits)
qed

lemma header_bits_lz4_fields:
  assumes "unat c < 2 ^ 17" "unat u < 2 ^ 17"
  shows "payload_len (header_bits_lz4 c u sc @ x) = unat c" "uncomp_len (header_bits_lz4 c u sc @ x) = unat u"
    "self_contained_bit (Some l) (header_bits_lz4 c u sc @ x) = sc"
proof -
  have m: "(0x7F :: u32) = mask 7" "(3 :: u32) = mask 2" by (simp_all add: mask_numeral)
  have dbl: "bit (x * 2 :: u32) n \<longleftrightarrow> n \<noteq> 0 \<and> n < 32 \<and> bit x (n - 1)" for x n
    using bit_push_bit_iff [of 1 x n] by (auto simp: bit_0)
  note fields = field_bits bit_and_iff [where b = "mask k" for k] bit_mask_iff
  have "ucast (ucast c :: u8) OR push_bit 8 (ucast (ucast (drop_bit 8 c) :: u8))
      OR push_bit 16 (ucast (ucast (drop_bit 16 c AND 1) OR ucast (push_bit 1 (u AND mask 7)) :: u8) AND 1) = (c :: u32)"
  proof (rule bit_word_eqI)
    fix n assume n: "n < LENGTH(32)"
    consider "n < 8" | "8 \<le> n" "n < 16" | "n = 16" | "16 < n" by linarith
    then show "bit (ucast (ucast c :: u8) OR push_bit 8 (ucast (ucast (drop_bit 8 c) :: u8))
      OR push_bit 16 (ucast (ucast (drop_bit 16 c AND 1) OR ucast (push_bit 1 (u AND mask 7)) :: u8) AND 1) :: u32) n = bit c n"
      using n low_word_bits [OF assms(1), of n] by cases (auto simp: fields dbl simp del: push_bit_and)
  qed
  then show "payload_len (header_bits_lz4 c u sc @ x) = unat c"
    by (simp add: payload_len_def header_bits_lz4_def m)
  have "(drop_bit 1 (ucast (ucast (drop_bit 16 c AND 1) OR ucast (push_bit 1 (u AND mask 7)) :: u8)) AND mask 7)
      OR push_bit 7 (ucast (ucast (drop_bit 7 u) :: u8))
      OR push_bit 15 (ucast (ucast (drop_bit 15 u AND mask 2) OR push_bit 2 (if sc then 1 else 0) :: u8) AND mask 2) = (u :: u32)"
  proof (rule bit_word_eqI)
    fix n assume n: "n < LENGTH(32)"
    consider "n < 7" | "7 \<le> n" "n < 15" | "15 \<le> n" "n < 17" | "17 \<le> n" by linarith
    then show "bit ((drop_bit 1 (ucast (ucast (drop_bit 16 c AND 1) OR ucast (push_bit 1 (u AND mask 7)) :: u8)) AND mask 7)
      OR push_bit 7 (ucast (ucast (drop_bit 7 u) :: u8))
      OR push_bit 15 (ucast (ucast (drop_bit 15 u AND mask 2) OR push_bit 2 (if sc then 1 else 0) :: u8) AND mask 2) :: u32) n = bit u n"
      using n low_word_bits [OF assms(2), of n] by cases (auto simp: fields dbl simp del: push_bit_and)
  qed
  then show "uncomp_len (header_bits_lz4 c u sc @ x) = unat u"
    by (simp add: uncomp_len_def header_bits_lz4_def m)
  show "self_contained_bit (Some l) (header_bits_lz4 c u sc @ x) = sc"
    by (simp add: self_contained_bit_def header_bits_lz4_def word_and_1_iff field_bits m bit_and_iff bit_mask_iff)
qed

lemma rd_sealed:
  assumes "length bits = header_length z" "payload_len (bits @ le24 (crc24 CRC24_INIT bits)) = length payload"
  shows "outer_first z (sealed bits payload @ s) =
    map_option (\<lambda>data. ((data, self_contained_bit z (bits @ le24 (crc24 CRC24_INIT bits))), s))
      (opened z (bits @ le24 (crc24 CRC24_INIT bits)) payload)"
proof -
  let ?h = "bits @ le24 (crc24 CRC24_INIT bits)"
  have "rd (header_length z + 3) (?h @ payload @ le32 (crc32 CRC32_CQL_V5_INIT payload) @ s)
      = Some (?h, (payload @ le32 (crc32 CRC32_CQL_V5_INIT payload)) @ s)"
    using rd_append [of ?h "header_length z + 3" "(payload @ le32 (crc32 CRC32_CQL_V5_INIT payload)) @ s"] assms(1)
    by (simp add: le24_def)
  moreover have "rd (length payload + 4) ((payload @ le32 (crc32 CRC32_CQL_V5_INIT payload)) @ s)
      = Some (payload @ le32 (crc32 CRC32_CQL_V5_INIT payload), s)"
    by (rule rd_append) (simp add: le32_def)
  ultimately show ?thesis using assms low24_crc24 [OF low24_INIT, of bits]
    by (cases "opened z ?h payload")
      (simp_all add: outer_first_def sealed_def at24_le24 at32_le32 del: rd_append)
qed

text \<open>What the code relies on from LZ4: a block decompresses to what was compressed.\<close>

definition lz4_sound :: "lz4 \<Rightarrow> bool" where
  "lz4_sound l \<longleftrightarrow> (\<forall>x. lz4_decompress l (lz4_compress l x) (length x) = Some x)"

text \<open>The 17 bits of a header for the length of a block.\<close>

definition block_fits :: "lz4 option \<Rightarrow> bytes \<Rightarrow> bool" where
  "block_fits z x \<longleftrightarrow> (case z of None \<Rightarrow> True
     | Some l \<Rightarrow> lz4_compress l x \<noteq> [] \<and> length (lz4_compress l x) < 2 ^ 17)"

lemma outer_frame_read:
  assumes "length data \<le> V5_MAX_PAYLOAD_BYTE_COUNT" "pred_option lz4_sound z" "block_fits z data"
  shows "\<exists>f. outer_frame z data sc = Some f \<and> (\<forall>s. outer_first z (f @ s) = Some ((data, sc), s))"
proof -
  have n: "unat (word_of_nat (length data) :: u32) = length data" "length data < 2 ^ 17"
    using assms(1) by (simp_all add: V5_MAX_PAYLOAD_BYTE_COUNT_def unat_of_nat)
  show ?thesis
  proof (cases z)
    case None
    have "outer_first None (sealed (header_bits (word_of_nat (length data)) sc) data @ s) = Some ((data, sc), s)" for s
      using n by (subst rd_sealed)
        (simp_all add: header_length_def V5_UNCOMP_HDR_BYTE_COUNT_def payload_len_header_bits opened_def,
          simp add: header_bits_def)
    with None show ?thesis by (simp add: outer_frame_def)
  next
    case (Some l)
    let ?c = "lz4_compress l data"
    have c: "?c \<noteq> []" "length ?c < 2 ^ 17" "unat (word_of_nat (length ?c) :: u32) = length ?c"
      using assms(3) Some by (simp_all add: block_fits_def unat_of_nat)
    have "lz4_decompress l ?c (length data) = Some data"
      using assms(2) Some by (simp add: lz4_sound_def)
    then have "outer_first (Some l) (sealed (header_bits_lz4 (word_of_nat (length ?c)) (word_of_nat (length data)) sc) ?c @ s)
        = Some ((data, sc), s)" for s
      using n c by (subst rd_sealed)
        (simp_all add: header_length_def V5_COMP_HDR_BYTE_COUNT_def header_bits_lz4_fields opened_def,
          simp add: header_bits_lz4_def)
    with Some c show ?thesis by (simp add: outer_frame_def Let_def)
  qed
qed

lemma gather_outer:
  assumes "outer_first z s = Some ((data, sc), s')"
  shows "map_option stream (gather z env s []) =
    (if sc then Some (env @ data, s') else map_option stream (gather z (env @ data) s' []))"
proof -
  from assms read_outer_frame_stream [of z s "[]"]
  have "map_option stream (read_outer_frame z s []) = Some ((data, sc), s')" by simp
  then obtain b c where r: "read_outer_frame z s [] = Some ((data, sc), b, c)" "s' = b @ concat c"
    by (auto simp: stream_Some_iff)
  with gather_cut [of b c s' "[]"] show ?thesis by (simp add: gather.simps [of z env s])
qed

text \<open>The blocks a message is cut into.\<close>

function blocks :: "bytes \<Rightarrow> bytes list" where
  "blocks data = (if length data \<le> V5_MAX_PAYLOAD_BYTE_COUNT then [data]
     else take V5_MAX_PAYLOAD_BYTE_COUNT data # blocks (drop V5_MAX_PAYLOAD_BYTE_COUNT data))"
  by pat_completeness auto
termination by (relation "measure length") (auto simp: V5_MAX_PAYLOAD_BYTE_COUNT_def)

declare blocks.simps [simp del]

lemma send_v5_received:
  assumes "pred_option lz4_sound z" "\<And>x. x \<in> set (blocks data) \<Longrightarrow> block_fits z x"
  shows "\<exists>wire. send_v5_outer_frames z data = Some wire \<and>
    (\<forall>env s. map_option stream (gather z env (wire @ s) []) = Some (env @ data, s))"
  using assms
proof (induction z data rule: send_v5_outer_frames.induct)
  case (1 z data)
  let ?n = "V5_MAX_PAYLOAD_BYTE_COUNT"
  show ?case
  proof (cases "length data \<le> ?n")
    case True
    then have "blocks data = [data]" by (simp add: blocks.simps)
    with 1(3) have "block_fits z data" by simp
    from outer_frame_read [OF True 1(2) this, of True] obtain f where
      f: "outer_frame z data True = Some f" "\<And>s. outer_first z (f @ s) = Some ((data, True), s)" by blast
    have "map_option stream (gather z env (f @ s) []) = Some (env @ data, s)" for env s
      by (simp only: gather_outer [OF f(2)] if_True)
    moreover have "send_v5_outer_frames z data = Some f"
      using True f(1) by (subst send_v5_outer_frames.simps) simp
    ultimately show ?thesis by blast
  next
    case False
    then have b: "blocks data = take ?n data # blocks (drop ?n data)" by (subst blocks.simps) simp
    with 1(3) have "block_fits z (take ?n data)" by simp
    from outer_frame_read [OF _ 1(2) this, of False] obtain f where
      f: "outer_frame z (take ?n data) False = Some f"
        "\<And>s. outer_first z (f @ s) = Some ((take ?n data, False), s)" by auto
    have "min (length data) ?n = ?n" using False by simp
    with 1(1) [of ?n False f] 1(2,3) b False f(1) obtain wire where
      w: "send_v5_outer_frames z (drop ?n data) = Some wire"
        "\<And>env s. map_option stream (gather z env (wire @ s) []) = Some (env @ drop ?n data, s)"
      by auto
    have "map_option stream (gather z env ((f @ wire) @ s) []) = Some (env @ data, s)" for env s
      using gather_outer [OF f(2) [of "wire @ s"], of env] w(2) [of "env @ take ?n data" s]
      by (simp only: append_assoc append_take_drop_id if_False)
    moreover have "send_v5_outer_frames z data = Some (f @ wire)"
      using False f(1) w(1) \<open>min (length data) ?n = ?n\<close> by (subst send_v5_outer_frames.simps) simp
    ultimately show ?thesis by blast
  qed
qed

lemma dispatch_envelopes:
  assumes "list_all wf_envelope es"
  shows "dispatch (concat (map envelope_bytes es)) = es"
  using assms
proof (induction es)
  case Nil
  then show ?case by (simp add: dispatch.simps V4_FRAME_HEADER_BYTE_COUNT_def)
next
  case (Cons e es)
  then have e: "wf_envelope e" by simp
  have l: "length (envelope_bytes e) = 9 + length (env_body e)"
    using e by (simp add: wf_envelope_def envelope_bytes_def)
  show ?case
    using Cons wf_envelope_read(1,2) [OF e, of "concat (map envelope_bytes es)"] wf_envelope_read(3) [OF e] l
    by (subst dispatch.simps) (simp add: V4_FRAME_HEADER_BYTE_COUNT_def Let_def del: drop_append, simp)
qed

section \<open>A damaged frame is refused\<close>

lemma le24_at24: "le24 (at24 [a, b, c]) = [a, b, c]"
proof -
  have "ucast (at24 [a, b, c]) = a" "ucast (drop_bit 8 (at24 [a, b, c])) = b"
    "ucast (drop_bit 16 (at24 [a, b, c])) = c"
    by (rule bit_word_eqI; auto simp: at24_def field_bits dest: bit_imp_le_length)+
  then show ?thesis by (simp add: le24_def)
qed

lemma le32_at32: "le32 (at32 [a, b, c, d]) = [a, b, c, d]"
proof -
  have "ucast (at32 [a, b, c, d]) = a" "ucast (drop_bit 8 (at32 [a, b, c, d])) = b"
    "ucast (drop_bit 16 (at32 [a, b, c, d])) = c" "ucast (drop_bit 24 (at32 [a, b, c, d])) = d"
    by (rule bit_word_eqI; auto simp: at32_def field_bits dest: bit_imp_le_length)+
  then show ?thesis by (simp add: le32_def)
qed

lemma list_of_four: "length xs = 4 \<Longrightarrow> \<exists>x y z v. xs = [x, y, z, v]"
  by (auto simp: numeral_eq_Suc length_Suc_conv)

lemma at24_changed:
  assumes "i < 3" "b \<noteq> le24 w ! i"
  shows "at24 ((le24 w)[i := b]) \<noteq> w"
proof
  assume e: "at24 ((le24 w)[i := b]) = w"
  have "length ((le24 w)[i := b]) = 3" by (simp only: length_list_update) (simp add: le24_def)
  then obtain x y z where "(le24 w)[i := b] = [x, y, z]"
    by (metis (no_types, opaque_lifting) length_0_conv length_Suc_conv numeral_3_eq_3)
  with e have "le24 w = (le24 w)[i := b]" using le24_at24 [of x y z] by metis
  moreover have "(le24 w)[i := b] ! i = b"
    using assms(1) nth_list_update_eq [of i "le24 w" b] by (simp add: le24_def del: list_update.simps)
  ultimately show False using assms(2) by metis
qed

lemma at32_changed:
  assumes "i < 4" "b \<noteq> le32 w ! i"
  shows "at32 ((le32 w)[i := b]) \<noteq> w"
proof
  assume e: "at32 ((le32 w)[i := b]) = w"
  have "length ((le32 w)[i := b]) = 4" by (simp only: length_list_update) (simp add: le32_def)
  then obtain x y z v where "(le32 w)[i := b] = [x, y, z, v]"
    using list_of_four by blast
  with e have "le32 w = (le32 w)[i := b]" using le32_at32 [of x y z v] by metis
  moreover have "(le32 w)[i := b] ! i = b"
    using assms(1) nth_list_update_eq [of i "le32 w" b] by (simp add: le32_def del: list_update.simps)
  ultimately show False using assms(2) by metis
qed

lemma changed_at:
  "i < length xs \<Longrightarrow> xs = take i xs @ xs ! i # drop (Suc i) xs \<and> xs[i := b] = take i xs @ b # drop (Suc i) xs"
  by (simp add: id_take_nth_drop [symmetric] upd_conv_take_nth_drop)

lemma crc24_changed: "i < length xs \<Longrightarrow> b \<noteq> xs ! i \<Longrightarrow> crc24 CRC24_INIT (xs[i := b]) \<noteq> crc24 CRC24_INIT xs"
  using crc24_changed_byte [OF low24_INIT, of "take i xs" b "drop (Suc i) xs" "xs ! i"] changed_at [of i xs b] by metis

lemma crc32_changed: "i < length xs \<Longrightarrow> b \<noteq> xs ! i \<Longrightarrow> crc32 c (xs[i := b]) \<noteq> crc32 c xs"
  using crc32_changed_byte [of c "take i xs" b "drop (Suc i) xs" "xs ! i"] changed_at [of i xs b] by metis

lemma outer_first_frame:
  assumes "length h = header_length z + 3" "length p = payload_len h + 4"
  shows "outer_first z (h @ p @ s) =
    (if crc24 CRC24_INIT (take (header_length z) h) \<noteq> at24 (drop (header_length z) h) then None
     else if crc32 CRC32_CQL_V5_INIT (take (payload_len h) p) \<noteq> at32 (drop (payload_len h) p) then None
     else map_option (\<lambda>data. ((data, self_contained_bit z h), s)) (opened z h (take (payload_len h) p)))"
  using assms by (cases "opened z h (take (payload_len h) p)") (simp_all add: outer_first_def)

lemma damaged_sealed:
  assumes bits: "length bits = header_length z" and pl: "payload_len (bits @ le24 (crc24 CRC24_INIT bits)) = length payload"
    and i: "i < length (sealed bits payload)" and b: "b \<noteq> sealed bits payload ! i"
  shows "outer_first z ((sealed bits payload)[i := b] @ s) = None"
proof -
  let ?c = "le24 (crc24 CRC24_INIT bits)" and ?t = "le32 (crc32 CRC32_CQL_V5_INIT payload)"
  let ?n = "header_length z"
  have len: "length ?c = 3" "length ?t = 4" by (simp_all add: le24_def le32_def)
  have sealed: "sealed bits payload = (bits @ ?c) @ (payload @ ?t)" by (simp add: sealed_def)
  show ?thesis
  proof (cases "i < ?n + 3")
    case True
    then have "(sealed bits payload)[i := b] @ s = (bits @ ?c)[i := b] @ (payload @ ?t) @ s"
      using len bits by (simp add: sealed list_update_append1 del: append_assoc)
    moreover have "rd (?n + 3) ((bits @ ?c)[i := b] @ (payload @ ?t) @ s) = Some ((bits @ ?c)[i := b], (payload @ ?t) @ s)"
      by (rule rd_append) (simp add: len bits)
    moreover have "crc24 CRC24_INIT (take ?n ((bits @ ?c)[i := b])) \<noteq> at24 (drop ?n ((bits @ ?c)[i := b]))"
    proof (cases "i < ?n")
      case True
      then have "b \<noteq> bits ! i" using b bits by (simp add: sealed nth_append)
      with True show ?thesis using bits crc24_changed [of i bits b] low24_crc24 [OF low24_INIT]
        by (simp add: list_update_append at24_le24)
    next
      case False
      with \<open>i < ?n + 3\<close> b have "b \<noteq> ?c ! (i - ?n)" "i - ?n < 3"
        using bits len False by (auto simp: sealed nth_append simp del: append_assoc)
      with False show ?thesis using at24_changed [of "i - ?n" b "crc24 CRC24_INIT bits"] bits
        by (simp add: list_update_append)
    qed
    ultimately show ?thesis by (simp add: outer_first_def)
  next
    case False
    define j where "j = i - (?n + 3)"
    have j: "j < length payload + 4" "i = ?n + 3 + j"
      using False i len bits by (auto simp: j_def sealed)
    have e: "(sealed bits payload)[i := b] @ s = (bits @ ?c) @ (payload @ ?t)[j := b] @ s"
      using len bits j by (simp add: sealed list_update_append del: append_assoc)
    have bj: "b \<noteq> (payload @ ?t) ! j" using b len bits j by (simp add: sealed nth_append)
    have "crc32 CRC32_CQL_V5_INIT (take (length payload) ((payload @ ?t)[j := b]))
        \<noteq> at32 (drop (length payload) ((payload @ ?t)[j := b]))"
    proof (cases "j < length payload")
      case True
      with bj show ?thesis using crc32_changed [of j payload b]
        by (simp add: nth_append list_update_append at32_le32)
    next
      case False
      moreover have "j - length payload < 4" using j False by linarith
      ultimately show ?thesis using bj
        using at32_changed [of "j - length payload" b "crc32 CRC32_CQL_V5_INIT payload"]
        by (auto simp: nth_append list_update_append)
    qed
    then show ?thesis unfolding e using len bits pl
      by (subst outer_first_frame) simp_all
  qed
qed

section \<open>Properties\<close>

text \<open>C28 The messages a version 4 connection hands over, and whether its loop ends, depend on the
  bytes the client sent alone, not on the blocks in which TCP delivers them.\<close>

theorem v4_cut_independent:
  assumes "concat cs = concat cs'"
  shows "post_startup_loop_v4 cs = post_startup_loop_v4 cs'"
  unfolding post_startup_loop_v4_def by (rule v4.serve_cut) (simp add: assms)

theorem v4_cut_independent_witness:
  "post_startup_loop_v4 [[4, 0, 0, 1], [5, 0, 0, 0], [0]] = post_startup_loop_v4 [[4], [0, 0, 1, 5, 0, 0, 0, 0]]"
  by (rule v4_cut_independent) simp

text \<open>Version 4: every complete envelope the client sent is handed over once and in order, however
  the bytes are cut into blocks, and a last incomplete one is not.\<close>

theorem v4_envelopes_delivered:
  assumes "concat cs = concat (map envelope_bytes es) @ rest"
    and "list_all wf_envelope es" and "v4_first rest = None"
  shows "post_startup_loop_v4 cs = Some es"
proof -
  have "serve v4_step [] cs = serve v4_step (concat (map envelope_bytes es) @ rest) []"
    by (rule v4.serve_cut) (simp add: assms(1))
  also have "\<dots> = Some es"
    by (rule v4.serve_all)
      (use assms(2,3) in \<open>auto simp: v4_step_stream v4_step_None_iff list_all_iff v4_first_envelope\<close>)
  finally show ?thesis by (simp add: post_startup_loop_v4_def)
qed

definition example_envelope :: envelope where
  "example_envelope = \<lparr>env_header = [4, 0, 0, 1, 7, 0, 0, 0, 2], env_body = [1, 2], env_length = 2\<rparr>"

theorem v4_envelopes_delivered_witness:
  "post_startup_loop_v4 [[4, 0, 0, 1, 7, 0], [0, 0, 2, 1, 2, 4]] = Some [example_envelope]"
proof (rule v4_envelopes_delivered [where rest = "[4]"])
  have "be_bytes 4 2 = [0, 0, 0, 2]" by code_simp
  then show "list_all wf_envelope [example_envelope]"
    by (simp add: example_envelope_def wf_envelope_def del: One_nat_def) (simp add: numeral_2_eq_2)
qed (simp_all add: example_envelope_def envelope_bytes_def v4_first_def)

lemma v4_step_minus_nine:
  assumes "read_be_s32 (drop 5 buf) = - 9" "9 \<le> length buf"
  shows "v4_step buf cs = Some (envelope_at buf (- 9), buf, cs)"
proof -
  have "fill_to n buf cs = (buf, cs)" if "n \<le> 9" for n
    using that assms(2) by (cases cs) simp_all
  moreover have "unat (9 + scast (- 9 :: u32) :: u64) = 0" by simp
  ultimately show ?thesis using assms
    by (simp add: v4_step_def V4_FRAME_HEADER_BYTE_COUNT_def Let_def)
qed

text \<open>C29 An envelope whose length field is -9 makes the loop of version 4 consume nothing: it hands the
  same nine bytes over for ever and never looks at the connection again.\<close>

theorem v4_negative_length_never_returns:
  assumes "read_be_s32 (drop 5 buf) = - 9" "9 \<le> length buf"
  shows "post_startup_loop_v4 (buf # cs) = None"
proof -
  have never: False if r: "serve v4_step b cs = Some ms" and b: "read_be_s32 (drop 5 b) = - 9" "9 \<le> length b" for b ms
  proof -
    have "v4_step = v4_step \<longrightarrow> read_be_s32 (drop 5 b) = - 9 \<longrightarrow> 9 \<le> length b \<longrightarrow> False"
    proof (rule serve.raw_induct [where P = "\<lambda>st b cs ms. st = v4_step \<longrightarrow>
          read_be_s32 (drop 5 b) = - 9 \<longrightarrow> 9 \<le> length b \<longrightarrow> False", OF _ r], intro impI)
      fix sv st b cs ms
      assume IH: "\<And>st b cs ms. sv st b cs = Some ms \<Longrightarrow>
          st = v4_step \<longrightarrow> read_be_s32 (drop 5 b) = - 9 \<longrightarrow> 9 \<le> length b \<longrightarrow> False"
        and eq: "(case st b cs of None \<Rightarrow> Some []
          | Some (m, b, cs) \<Rightarrow> do { ms \<leftarrow> sv st b cs; Some (m # ms) }) = Some ms"
        and *: "st = v4_step" "read_be_s32 (drop 5 b) = - 9" "9 \<le> length b"
      from eq * v4_step_minus_nine [of b cs] obtain ms' where "sv v4_step b cs = Some ms'"
        by (auto simp: bind_eq_Some_conv)
      from IH [OF this] * show False by simp
    qed
    with b show False by simp
  qed
  have "serve v4_step [] (buf # cs) = serve v4_step buf cs"
    by (rule v4.serve_cut) simp
  moreover have "serve v4_step buf cs = None"
    using never [of buf] assms by (cases "serve v4_step buf cs") auto
  ultimately show ?thesis by (simp add: post_startup_loop_v4_def)
qed

theorem v4_negative_length_never_returns_witness:
  "post_startup_loop_v4 [[4, 0, 0, 1, 5, 0xFF, 0xFF, 0xFF, 0xF7]] = None"
  by (rule v4_negative_length_never_returns) (simp_all add: read_be_s32_def be_nat_def)


text \<open>C27 A frame of version 5 with one byte changed, wherever it is, is refused: the checksums catch
  it and the connection is dropped.\<close>

theorem damaged_frame_refused:
  assumes "pred_option lz4_sound z" "block_fits z data" "length data \<le> V5_MAX_PAYLOAD_BYTE_COUNT"
    and "outer_frame z data sc = Some f" "i < length f" "b \<noteq> f ! i"
    and "concat cs = f[i := b] @ s"
  shows "post_startup_loop_v5 z cs = Some []"
proof -
  have n: "unat (word_of_nat (length data) :: u32) = length data" "length data < 2 ^ 17"
    using assms(3) by (simp_all add: V5_MAX_PAYLOAD_BYTE_COUNT_def unat_of_nat)
  have "outer_first z (f[i := b] @ s) = None"
  proof (cases z)
    case None
    then have f: "f = sealed (header_bits (word_of_nat (length data)) sc) data"
      using assms(4) by (simp add: outer_frame_def)
    show ?thesis using assms(5,6) n unfolding f
      by (intro damaged_sealed)
        (simp_all add: None header_length_def V5_UNCOMP_HDR_BYTE_COUNT_def payload_len_header_bits, simp add: header_bits_def)
  next
    case (Some l)
    let ?c = "lz4_compress l data"
    have c: "?c \<noteq> []" "length ?c < 2 ^ 17" "unat (word_of_nat (length ?c) :: u32) = length ?c"
      using assms(2) Some by (simp_all add: block_fits_def unat_of_nat)
    have f: "f = sealed (header_bits_lz4 (word_of_nat (length ?c)) (word_of_nat (length data)) sc) ?c"
      using assms(4) Some c by (simp add: outer_frame_def Let_def)
    show ?thesis using assms(5,6) n c unfolding f
      by (intro damaged_sealed)
        (simp_all add: Some header_length_def V5_COMP_HDR_BYTE_COUNT_def header_bits_lz4_fields, simp add: header_bits_lz4_def)
  qed
  with assms(7) have "read_outer_frame z [] cs = None"
    using read_outer_frame_stream [of z "[]" cs] by simp
  then show ?thesis
    by (simp add: post_startup_loop_v5_def serve.simps v5_step_def gather.simps)
qed

lemma outer_frame_plain:
  "outer_frame None data sc = Some (sealed (header_bits (word_of_nat (length data)) sc) data)"
  by (simp add: outer_frame_def)

lemma be_bytes_2: "be_bytes 4 2 = [0, 0, 0, 2]"
  by code_simp

lemma example_envelope_wf: "wf_envelope example_envelope" "length (envelope_bytes example_envelope) = 11"
proof -
  have "(2 :: nat) < 2 ^ 31" by simp
  then show "wf_envelope example_envelope"
    using be_bytes_2 by (simp only: wf_envelope_def example_envelope_def envelope.simps) (simp add: numeral_2_eq_2)
qed (simp add: example_envelope_def envelope_bytes_def)


theorem damaged_frame_refused_witness:
  "post_startup_loop_v5 None [(the (outer_frame None [1, 2] True))[0 := 7]] = Some []"
  by (rule damaged_frame_refused [where data = "[1, 2]" and sc = True and f = "the (outer_frame None [1, 2] True)" and i = 0 and b = 7 and s = "[]"])
    (simp_all add: block_fits_def V5_MAX_PAYLOAD_BYTE_COUNT_def outer_frame_plain sealed_def header_bits_def)

text \<open>
  The library only promises that a compressed block is at most a little longer than what it
  compresses. A block of the greatest size that does not shrink needs more than the 17 bits of the
  header: its length is cut to zero and the receiver drops the connection.
\<close>

definition storing :: lz4 where
  "storing = \<lparr>lz4_compress = \<lambda>x. x @ [0], lz4_decompress = \<lambda>c n. Some (take n c)\<rparr>"

theorem incompressible_block_lost:
  assumes "data = replicate V5_MAX_PAYLOAD_BYTE_COUNT 0"
  shows "lz4_sound storing"
    and "post_startup_loop_v5 (Some storing) [the (outer_frame (Some storing) data True)] = Some []"
proof -
  show "lz4_sound storing" by (simp add: lz4_sound_def storing_def)
  define bits where "bits = header_bits_lz4 (word_of_nat (length data + 1)) (word_of_nat (length data)) True"
  define h where "h = bits @ le24 (crc24 CRC24_INIT bits)"
  have f: "outer_frame (Some storing) data True = Some (sealed bits (data @ [0]))"
    by (simp add: outer_frame_def storing_def bits_def)
  have len: "length data = 131071" by (simp add: assms V5_MAX_PAYLOAD_BYTE_COUNT_def)
  have pl: "payload_len h = 0"
    unfolding h_def bits_def len by (simp add: payload_len_def header_bits_lz4_def)
  have "replicate 4 (0 :: u8) = [0, 0, 0, 0]" by (simp add: numeral_eq_Suc)
  then have four: "data = [0, 0, 0, 0] @ replicate 131067 0"
    using replicate_add [of 4 131067 "0 :: u8"] by (simp add: assms V5_MAX_PAYLOAD_BYTE_COUNT_def)
  have "data @ [0] = [0, 0, 0, 0] @ drop 4 data @ [0]"
    by (simp only: four append_assoc) simp
  then have e: "sealed bits (data @ [0]) = h @ [0, 0, 0, 0] @
      (drop 4 data @ [0] @ le32 (crc32 CRC32_CQL_V5_INIT (data @ [0])))"
    unfolding sealed_def h_def by (metis append_assoc)
  have "outer_first (Some storing) (sealed bits (data @ [0])) = None"
    unfolding e by (subst outer_first_frame)
      (simp_all add: pl, simp_all add: h_def bits_def header_length_def V5_COMP_HDR_BYTE_COUNT_def
        header_bits_lz4_def le24_def crc32_def CRC32_CQL_V5_INIT_def at32_def)
  then have "read_outer_frame (Some storing) [] [sealed bits (data @ [0])] = None"
    using read_outer_frame_stream [of "Some storing" "[]" "[sealed bits (data @ [0])]"] by simp
  then show "post_startup_loop_v5 (Some storing) [the (outer_frame (Some storing) data True)] = Some []"
    by (simp add: f post_startup_loop_v5_def serve.simps v5_step_def gather.simps)
qed

end
