(* ===== verification/Wire.thy ===== *)
theory Wire
  imports IoEvaluator Framing
begin

text \<open>
  The values of the native protocol (\<open>cql/native/native.cpp\<close>, \<open>native.cppm\<close>): strings and bound values
  as they are read from a request, column values and type options as they are appended to a reply.

  A pointer into the body of a message is the rest of the body, a frame the bytes appended to it. The
  assertions on the length of a body are not input checks but traps: \<open>None\<close> ends the server. The
  value of a \<open>tinyint\<close> is read without a look at its length; behind an empty one at the end of the
  body this reads past the buffer, which is \<open>None\<close> too.
\<close>

section \<open>Strings\<close>

definition read_cql_long_string :: "bytes \<Rightarrow> (bytes \<times> bytes) option" where
  "read_cql_long_string p = do {
     assert_true (4 \<le> length p);
     let len = sint (read_be_s32 p);
     let p = drop 4 p;
     assert_true (0 \<le> len \<and> nat len \<le> length p);
     Some (take (nat len) p, drop (nat len) p) }"

definition read_cql_string :: "bytes \<Rightarrow> (bytes \<times> bytes) option" where
  "read_cql_string p = do {
     assert_true (2 \<le> length p);
     let len = unat (read_be_u16 p);
     let p = drop 2 p;
     assert_true (len \<le> length p);
     Some (take len p, drop len p) }"

definition read_cql_short_bytes :: "bytes \<Rightarrow> (bytes \<times> bytes) option" where
  "read_cql_short_bytes p = do {
     assert_true (2 \<le> length p);
     let len = unat (read_be_u16 p);
     let p = drop 2 p;
     assert_true (len \<le> length p);
     Some (take len p, drop len p) }"

definition append_be_u16 :: "nat \<Rightarrow> bytes" where
  "append_be_u16 n = be_bytes 2 n"

definition append_be_s32 :: "u32 \<Rightarrow> bytes" where
  "append_be_s32 v = be_bytes 4 (unat v)"

definition append_cql_string :: "bytes \<Rightarrow> bytes" where
  "append_cql_string s = append_be_u16 (length s) @ s"

definition append_cql_short_bytes :: "bytes \<Rightarrow> bytes" where
  "append_cql_short_bytes s = append_be_u16 (length s) @ s"

definition append_cql_bytes_raw :: "bytes \<Rightarrow> bytes" where
  "append_cql_bytes_raw data = (let n = word_of_nat (length data) :: u32
     in append_be_s32 n @ (if 0 < sint n then take (unat n) data else []))"

section \<open>Bound values\<close>

definition literal_of_value :: "fpu \<Rightarrow> basic \<Rightarrow> nat \<Rightarrow> bytes \<Rightarrow> literal option" where
  "literal_of_value fp dtype len val = (case dtype of
       BText \<Rightarrow> Some (LText (take len val)) | BAscii \<Rightarrow> Some (LText (take len val))
     | BVarchar \<Rightarrow> Some (LText (take len val))
     | BInt \<Rightarrow> do { assert_true (len = 4); Some (LInt (scast (read_be_s32 val))) }
     | BBigint \<Rightarrow> do { assert_true (len = 8); Some (LInt (read_be_s64 val)) }
     | BTimestamp \<Rightarrow> do { assert_true (len = 8); Some (LInt (read_be_s64 val)) }
     | BCounter \<Rightarrow> do { assert_true (len = 8); Some (LInt (read_be_s64 val)) }
     | BTime \<Rightarrow> do { assert_true (len = 8); Some (LInt (read_be_s64 val)) }
     | BSmallint \<Rightarrow> do { assert_true (len = 2); Some (LInt (scast (read_be_u16 val))) }
     | BDouble \<Rightarrow> do { assert_true (len = 8); Some (LFloat (read_be_s64 val)) }
     | BFloat \<Rightarrow> do { assert_true (len = 4); Some (LFloat (f_widen fp (read_be_s32 val))) }
     | BBoolean \<Rightarrow> do { assert_true (len = 1); Some (LBool (hd val \<noteq> 0)) }
     | BUuid \<Rightarrow> do { assert_true (len = 16); Some (LUuid (take 16 val)) }
     | BTimeuuid \<Rightarrow> do { assert_true (len = 16); Some (LUuid (take 16 val)) }
     | BTinyint \<Rightarrow> do { assert_true (val \<noteq> []); Some (LInt (scast (hd val))) }
     | BDate \<Rightarrow> do { assert_true (len = 4); Some (LInt (scast (read_be_s32 val))) }
     | BBlob \<Rightarrow> Some (LBlob (take len val))
     | BDecimal \<Rightarrow> Some (LText (take len val)) | BDuration \<Rightarrow> Some (LText (take len val))
     | BInet \<Rightarrow> Some (LText (take len val)) | BVarint \<Rightarrow> Some (LText (take len val))
     | BHex \<Rightarrow> Some (LText (take len val))
     | BCOUNT \<Rightarrow> None)"

definition read_cql_value_as_constant :: "fpu \<Rightarrow> basic \<Rightarrow> bytes \<Rightarrow> (literal \<times> bytes) option" where
  "read_cql_value_as_constant fp dtype p = do {
     assert_true (4 \<le> length p);
     let len = sint (read_be_s32 p);
     let p = drop 4 p;
     if len = - 2 then Some (LUnset, p)
     else if len < 0 then Some (LNull, p)
     else do {
       assert_true (nat len \<le> length p);
       l \<leftarrow> literal_of_value fp dtype (nat len) p;
       Some (l, drop (nat len) p) } }"

text \<open>The elements of a collection: as many as the count says, but none behind the end of its body.\<close>

fun read_while :: "(bytes \<Rightarrow> ('a \<times> bytes) option) \<Rightarrow> nat \<Rightarrow> bytes \<Rightarrow> 'a list option" where
  "read_while r 0 p = Some []"
| "read_while r (Suc n) p = (if p = [] then Some [] else do { (x, p) \<leftarrow> r p; xs \<leftarrow> read_while r n p; Some (x # xs) })"

fun read_each :: "(bytes \<Rightarrow> ('a \<times> bytes) option) list \<Rightarrow> bytes \<Rightarrow> 'a list option" where
  "read_each [] p = Some []"
| "read_each (r # rs) p = (if p = [] then Some [] else do { (x, p) \<leftarrow> r p; xs \<leftarrow> read_each rs p; Some (x # xs) })"

text \<open>The length of the body of a collection, which null and unset values give as well.\<close>

definition read_body :: "(bytes \<Rightarrow> trm option) \<Rightarrow> bytes \<Rightarrow> (trm \<times> bytes) option" where
  "read_body f p = do {
     assert_true (4 \<le> length p);
     let outer_len = sint (read_be_s32 p);
     let p = drop 4 p;
     if outer_len = - 2 then Some (Lit LUnset, p)
     else if outer_len < 0 then Some (Lit LNull, p)
     else do {
       assert_true (nat outer_len \<le> length p);
       t \<leftarrow> f (take (nat outer_len) p);
       Some (t, drop (nat outer_len) p) } }"

definition read_counted :: "(nat \<Rightarrow> bytes \<Rightarrow> trm option) \<Rightarrow> bytes \<Rightarrow> trm option" where
  "read_counted f p = do {
     assert_true (4 \<le> length p);
     f (nat (sint (read_be_s32 p))) (drop 4 p) }"

fun read_cql_value_as_term :: "fpu \<Rightarrow> ctype \<Rightarrow> bytes \<Rightarrow> (trm \<times> bytes) option" where
  "read_cql_value_as_term fp (TBasic b) =
     (\<lambda>p. do { (l, p) \<leftarrow> read_cql_value_as_constant fp b p; Some (Lit l, p) })"
| "read_cql_value_as_term fp (TList e _) = read_body (read_counted (\<lambda>n p.
     map_option ListLit (read_while (read_cql_value_as_term fp e) n p)))"
| "read_cql_value_as_term fp (TSet e _) = read_body (read_counted (\<lambda>n p.
     map_option SetLit (read_while (read_cql_value_as_term fp e) n p)))"
| "read_cql_value_as_term fp (TMap k v _) = read_body (read_counted (\<lambda>n p.
     map_option MapLit (read_while (\<lambda>p. do {
       (a, p) \<leftarrow> read_cql_value_as_term fp k p;
       (b, p) \<leftarrow> read_cql_value_as_term fp v p;
       Some ((a, b), p) }) n p)))"
| "read_cql_value_as_term fp (TTuple ts _) = read_body (\<lambda>p.
     map_option TupleLit (read_each (map (read_cql_value_as_term fp) ts) p))"
| "read_cql_value_as_term fp (TVector _ _ _) = (\<lambda>p. None)"
| "read_cql_value_as_term fp (TUdt _ _ _ _) = (\<lambda>p. None)"

section \<open>Values and types of a reply\<close>

text \<open>The type codes; \<open>hex\<close> has none and traps.\<close>

definition basic_type_to_type_code :: "basic \<Rightarrow> nat option" where
  "basic_type_to_type_code t = (case t of
       BAscii \<Rightarrow> Some 0x01 | BBigint \<Rightarrow> Some 0x02 | BBlob \<Rightarrow> Some 0x03 | BBoolean \<Rightarrow> Some 0x04
     | BCounter \<Rightarrow> Some 0x05 | BDecimal \<Rightarrow> Some 0x06 | BDouble \<Rightarrow> Some 0x07 | BFloat \<Rightarrow> Some 0x08
     | BInt \<Rightarrow> Some 0x09 | BTimestamp \<Rightarrow> Some 0x0B | BUuid \<Rightarrow> Some 0x0C | BText \<Rightarrow> Some 0x0D
     | BVarchar \<Rightarrow> Some 0x0D | BVarint \<Rightarrow> Some 0x0E | BTimeuuid \<Rightarrow> Some 0x0F | BInet \<Rightarrow> Some 0x10
     | BDate \<Rightarrow> Some 0x11 | BTime \<Rightarrow> Some 0x12 | BSmallint \<Rightarrow> Some 0x13 | BTinyint \<Rightarrow> Some 0x14
     | BDuration \<Rightarrow> Some 0x15 | BHex \<Rightarrow> None | BCOUNT \<Rightarrow> None)"

definition type_code :: "basic \<Rightarrow> bytes option" where
  "type_code t = map_option append_be_u16 (basic_type_to_type_code t)"

text \<open>\<open>get<type::Basic>\<close>: the assertion on the tag of an element type.\<close>

definition get_basic :: "ctype \<Rightarrow> basic option" where
  "get_basic t = (case t of TBasic b \<Rightarrow> Some b | _ \<Rightarrow> None)"

text \<open>A user-defined type matches no branch and appends nothing.\<close>

fun append_type_codes_option :: "ctype \<Rightarrow> bytes option" where
  "append_type_codes_option (TBasic b) = type_code b"
| "append_type_codes_option (TList e _) = do {
     b \<leftarrow> get_basic e; c \<leftarrow> type_code b; Some (append_be_u16 0x20 @ c) }"
| "append_type_codes_option (TSet e _) = do {
     b \<leftarrow> get_basic e; c \<leftarrow> type_code b; Some (append_be_u16 0x22 @ c) }"
| "append_type_codes_option (TMap k v _) = do {
     kb \<leftarrow> get_basic k; kc \<leftarrow> type_code kb; vb \<leftarrow> get_basic v; vc \<leftarrow> type_code vb;
     Some (append_be_u16 0x21 @ kc @ vc) }"
| "append_type_codes_option (TTuple ts _) = do {
     cs \<leftarrow> map_opt append_type_codes_option ts;
     Some (append_be_u16 0x31 @ append_be_u16 (length ts) @ concat cs) }"
| "append_type_codes_option (TVector _ _ _) = None"
| "append_type_codes_option (TUdt _ _ _ _) = Some []"

fun element_data :: "basic \<Rightarrow> cv \<Rightarrow> bytes option" where
  "element_data t (CText s) = do { assert_true (t = BAscii \<or> t = BText \<or> t = BVarchar); Some s }"
| "element_data t (CUuid u) = do { assert_true (t = BUuid \<or> t = BTimeuuid); Some u }"
| "element_data t (CS64 v) = do {
     assert_true (t = BBigint \<or> t = BCounter \<or> t = BTimestamp \<or> t = BTime); Some (be_bytes 8 (unat v)) }"
| "element_data t (CS32 v) = do { assert_true (t = BInt \<or> t = BDate); Some (be_bytes 4 (unat v)) }"
| "element_data t (CS16 v) = do { assert_true (t = BSmallint); Some (be_bytes 2 (unat v)) }"
| "element_data t (CU8 v) = do { assert_true (t = BBoolean \<or> t = BTinyint); Some [v] }"
| "element_data t (CF32 v) = do { assert_true (t = BFloat); Some (be_bytes 4 (unat v)) }"
| "element_data t (CF64 v) = do { assert_true (t = BDouble); Some (be_bytes 8 (unat v)) }"
| "element_data t (CBlob s) = do {
     assert_true (t = BBlob \<or> t = BInet \<or> t = BVarint \<or> t = BDecimal \<or> t = BDuration \<or> t = BHex); Some s }"
| "element_data t (CInet v6 a) = do { assert_true (t = BInet); Some a }"
| "element_data t _ = None"

definition append_cql_basic_element :: "basic \<Rightarrow> cv \<Rightarrow> bytes option" where
  "append_cql_basic_element t v = map_option append_cql_bytes_raw (element_data t v)"

definition basic_element_byte_size :: "basic \<Rightarrow> cv \<Rightarrow> u32 option" where
  "basic_element_byte_size t v = map_option (\<lambda>d. word_of_nat (length d)) (element_data t v)"

text \<open>The size of the body is summed up before anything is appended.\<close>

definition append_elements :: "(basic \<times> cv) list \<Rightarrow> nat \<Rightarrow> bytes option" where
  "append_elements es n = do {
     sizes \<leftarrow> map_opt (\<lambda>(t, v). basic_element_byte_size t v) es;
     out \<leftarrow> map_opt (\<lambda>(t, v). append_cql_basic_element t v) es;
     Some (append_be_s32 (4 + sum_list (map (\<lambda>s. 4 + s) sizes)) @ append_be_s32 (word_of_nat n) @ concat out) }"

definition append_cql_value :: "cv \<Rightarrow> ctype \<Rightarrow> bytes option" where
  "append_cql_value value t = (case value of
       CNull \<Rightarrow> Some (append_be_s32 (- 1))
     | CMap m \<Rightarrow> (case t of
           TMap k v _ \<Rightarrow> (if concat m = [] then append_elements [] 0 else do {
             kb \<leftarrow> get_basic k; vb \<leftarrow> get_basic v;
             append_elements (concat (map (\<lambda>e. [(kb, fst e), (vb, snd e)]) (concat m))) (length (concat m)) })
         | _ \<Rightarrow> None)
     | CSet s \<Rightarrow> (case t of
           TSet e _ \<Rightarrow> do { b \<leftarrow> get_basic e; append_elements (map (Pair b) (concat s)) (length (concat s)) }
         | _ \<Rightarrow> None)
     | CArray vs \<Rightarrow> (case t of
           TList e _ \<Rightarrow> do { b \<leftarrow> get_basic e; append_elements (map (Pair b) vs) (length vs) }
         | TVector e n _ \<Rightarrow> do {
             b \<leftarrow> get_basic e;
             assert_true (unat n \<le> length vs);
             append_elements (map (Pair b) (take (unat n) vs)) (unat n) }
         | _ \<Rightarrow> None)
     | _ \<Rightarrow> do { b \<leftarrow> get_basic t; append_cql_basic_element b value })"

section \<open>What is read back\<close>

lemma sint_length32: "n < 2 ^ 31 \<Longrightarrow> sint (word_of_nat n :: u32) = int n \<and> unat (word_of_nat n :: u32) = n"
  by (simp add: signed_of_nat signed_take_bit_int_eq_self unat_of_nat)

lemma read_append_s32: "read_be_s32 (append_be_s32 v @ s) = v"
proof -
  have "unat v < 256 ^ 4" using unsigned_less [of v, where ?'a = nat] by simp
  then show ?thesis by (simp add: read_be_s32_def append_be_s32_def be_nat_be_bytes)
qed

lemma length_append_s32 [simp]: "length (append_be_s32 v) = 4"
  by (simp add: append_be_s32_def)

lemma read_append_u16: "n < 2 ^ 16 \<Longrightarrow> unat (read_be_u16 (append_be_u16 n @ s)) = n"
  by (simp add: read_be_u16_def append_be_u16_def be_nat_be_bytes unat_of_nat)

lemma raw_bytes:
  assumes "length d < 2 ^ 31"
  shows "append_cql_bytes_raw d = append_be_s32 (word_of_nat (length d)) @ d"
  using sint_length32 [OF assms] by (cases d) (auto simp: append_cql_bytes_raw_def Let_def)

text \<open>A string appended to a reply is read back by the reader of strings, with the cursor behind it.\<close>

theorem string_roundtrip:
  assumes "length x < 2 ^ 16"
  shows "read_cql_string (append_cql_string x @ s) = Some (x, s)"
proof -
  have "length (append_be_u16 (length x)) = 2" by (simp add: append_be_u16_def)
  then show ?thesis using assms read_append_u16 [OF assms, of "x @ s"]
    by (simp add: read_cql_string_def append_cql_string_def)
qed

definition bindable :: "basic \<Rightarrow> bool" where
  "bindable t \<longleftrightarrow> t \<notin> {BDecimal, BDuration, BInet, BVarint, BHex, BCOUNT}"

text \<open>A boolean is a byte; only the bytes zero and one are values of the type.\<close>

definition plain_value :: "basic \<Rightarrow> cv \<Rightarrow> bool" where
  "plain_value t v \<longleftrightarrow> bindable t \<and> exact v t \<and> wf_basic v \<and> (t = BBoolean \<longrightarrow> v = CU8 0 \<or> v = CU8 1)"

lemma read_be_bytes:
  "read_be_u16 (be_bytes 2 (unat (a :: u16)) @ s) = a" "read_be_s32 (be_bytes 4 (unat (b :: u32)) @ s) = b"
  "read_be_s64 (be_bytes 8 (unat (c :: u64)) @ s) = c"
proof -
  have "unat a < 256 ^ 2" "unat b < 256 ^ 4" "unat c < 256 ^ 8"
    using unsigned_less [of a, where ?'a = nat] unsigned_less [of b, where ?'a = nat]
      unsigned_less [of c, where ?'a = nat] by simp_all
  then show "read_be_u16 (be_bytes 2 (unat a) @ s) = a" "read_be_s32 (be_bytes 4 (unat b) @ s) = b"
    "read_be_s64 (be_bytes 8 (unat c) @ s) = c"
    by (simp_all add: read_be_u16_def read_be_s32_def read_be_s64_def be_nat_be_bytes)
qed

lemma narrow_scast:
  "ucast (scast (a :: u32) :: u64) = a" "ucast (scast (b :: u16) :: u64) = b" "ucast (scast (c :: u8) :: u64) = c"
  by (rule bit_word_eqI; auto simp: bit_simps)+

text \<open>The literal that stands for a value on the wire.\<close>

fun wire_literal :: "fpu \<Rightarrow> basic \<Rightarrow> cv \<Rightarrow> literal" where
  "wire_literal fp t (CText s) = LText s"
| "wire_literal fp t (CS64 v) = LInt v"
| "wire_literal fp t (CS32 v) = LInt (scast v)"
| "wire_literal fp t (CS16 v) = LInt (scast v)"
| "wire_literal fp t (CU8 v) = (if t = BBoolean then LBool (v \<noteq> 0) else LInt (scast v))"
| "wire_literal fp t (CF64 v) = LFloat v"
| "wire_literal fp t (CF32 v) = LFloat (f_widen fp v)"
| "wire_literal fp t (CBlob s) = LBlob s"
| "wire_literal fp t (CUuid u) = LUuid u"
| "wire_literal fp t _ = LNull"

lemma ucast_back: "ucast (ucast (a :: u32) :: u64) = a"
  by (rule bit_word_eqI) (auto simp: bit_simps)

lemma constant_roundtrip:
  assumes "plain_value t v" "element_data t v = Some d" "length d < 2 ^ 31" "\<And>x. f_narrow fp (f_widen fp x) = x"
  shows "read_cql_value_as_constant fp t (append_cql_bytes_raw d @ s) = Some (wire_literal fp t v, s)"
    "resolve_literal_scalar fp (wire_literal fp t v) (TBasic t) = Some v"
proof -
  have "literal_of_value fp t (length d) (d @ s) = Some (wire_literal fp t v)"
    using assms(1,2)
    by (cases v; cases t) (auto simp: plain_value_def bindable_def literal_of_value_def read_be_bytes)
  then show "read_cql_value_as_constant fp t (append_cql_bytes_raw d @ s) = Some (wire_literal fp t v, s)"
    using sint_length32 [OF assms(3)]
    by (simp add: read_cql_value_as_constant_def raw_bytes [OF assms(3)] read_append_s32)
  show "resolve_literal_scalar fp (wire_literal fp t v) (TBasic t) = Some v"
    using assms(1,2)
    by (cases v; cases t)
      (auto simp: plain_value_def bindable_def resolve_literal_scalar_def narrow_s64_literal_def
        narrow_f64_literal_def narrow_scast is_literal_integer_family_def is_literal_float_family_def assms(4))
qed

section \<open>Lists\<close>

lemma length_raw: "length d < 2 ^ 31 \<Longrightarrow> length (append_cql_bytes_raw d) = 4 + length d"
  by (simp add: raw_bytes)

lemma append_elements_list:
  assumes "map_opt (element_data b) vs = Some ds" "\<forall>d \<in> set ds. length d < 2 ^ 31"
  shows "append_elements (map (Pair b) vs) n =
    Some (append_be_s32 (word_of_nat (4 + length (concat (map append_cql_bytes_raw ds)))) @
      append_be_s32 (word_of_nat n) @ concat (map append_cql_bytes_raw ds))"
proof -
  have "map_opt (\<lambda>(t, v). basic_element_byte_size t v) (map (Pair b) vs) = Some (map (\<lambda>d. word_of_nat (length d)) ds)"
    "map_opt (\<lambda>(t, v). append_cql_basic_element t v) (map (Pair b) vs) = Some (map append_cql_bytes_raw ds)"
    using assms(1) by (auto simp: map_opt_Some_iff list_all2_map1 list_all2_map2 basic_element_byte_size_def
        append_cql_basic_element_def elim!: list_all2_mono)
  moreover have "sum_list (map (\<lambda>s. 4 + s) (map (\<lambda>d. word_of_nat (length d)) ds)) =
      (word_of_nat (length (concat (map append_cql_bytes_raw ds))) :: u32)"
    using assms(2) by (induction ds) (simp_all add: length_raw)
  ultimately show ?thesis by (simp add: append_elements_def)
qed

lemma read_body_append:
  assumes "length content < 2 ^ 31"
  shows "read_body f (append_be_s32 (word_of_nat (length content)) @ content @ s) = map_option (\<lambda>t. (t, s)) (f content)"
  using sint_length32 [OF assms]
  by (cases "f content") (simp_all add: read_body_def read_append_s32 Let_def)

lemma read_counted_append:
  "n < 2 ^ 31 \<Longrightarrow> read_counted f (append_be_s32 (word_of_nat n) @ p) = f n p"
  using sint_length32 [of n] by (simp add: read_counted_def read_append_s32)

lemma read_while_raw:
  assumes "list_all2 (\<lambda>d x. \<forall>s. r (append_cql_bytes_raw d @ s) = Some (x, s)) ds xs"
    and "\<forall>d \<in> set ds. length d < 2 ^ 31"
  shows "read_while r (length ds) (concat (map append_cql_bytes_raw ds)) = Some xs"
  using assms
proof (induction ds xs rule: list_all2_induct)
  case (Cons d ds x xs)
  have "append_cql_bytes_raw d @ concat (map append_cql_bytes_raw ds) \<noteq> []"
    using length_raw [of d] Cons.prems by auto
  with Cons show ?case by simp
qed simp

lemma element_lengths:
  "d \<in> set ds \<Longrightarrow> length (append_cql_bytes_raw d) \<le> length (concat (map append_cql_bytes_raw ds))"
  by (induction ds) auto

lemma raw_at_least: "length d < 2 ^ 32 \<Longrightarrow> 4 \<le> length (append_cql_bytes_raw d)"
  by (simp add: append_cql_bytes_raw_def Let_def)

definition wire_element :: "basic \<Rightarrow> cv \<Rightarrow> bool" where
  "wire_element b v \<longleftrightarrow> plain_value b v \<and> (\<forall>d. element_data b v = Some d \<longrightarrow> length d < 2 ^ 31)"

definition wire_value :: "ctype \<Rightarrow> cv \<Rightarrow> bool" where
  "wire_value t v = (case t of
       TBasic b \<Rightarrow> wire_element b v
     | TList (TBasic b) _ \<Rightarrow> (\<exists>vs. v = CArray vs \<and> length vs < 2 ^ 31 \<and> (\<forall>v \<in> set vs. wire_element b v))
     | _ \<Rightarrow> False)"

lemma literal_list:
  assumes "\<forall>v \<in> set vs. wire_element b v" "map_opt (element_data b) vs = Some ds"
    and "\<And>x. f_narrow fp (f_widen fp x) = x"
  shows "list_all2 (\<lambda>d l. \<forall>s. read_cql_value_as_constant fp b (append_cql_bytes_raw d @ s) = Some (l, s)) ds
      (map (wire_literal fp b) vs)"
    and "list_all2 (\<lambda>l v. resolve_literal_scalar fp l (TBasic b) = Some v) (map (wire_literal fp b) vs) vs"
proof -
  have "list_all2 (\<lambda>v d. wire_element b v \<and> element_data b v = Some d) vs ds"
    using assms(1,2) by (auto simp: map_opt_Some_iff list_all2_conv_all_nth)
  then have "list_all2 (\<lambda>v d. (\<forall>s. read_cql_value_as_constant fp b (append_cql_bytes_raw d @ s) = Some (wire_literal fp b v, s)) \<and>
      resolve_literal_scalar fp (wire_literal fp b v) (TBasic b) = Some v) vs ds"
    by (rule list_all2_mono) (auto simp: wire_element_def constant_roundtrip assms(3))
  then show "list_all2 (\<lambda>d l. \<forall>s. read_cql_value_as_constant fp b (append_cql_bytes_raw d @ s) = Some (l, s)) ds
      (map (wire_literal fp b) vs)"
    "list_all2 (\<lambda>l v. resolve_literal_scalar fp l (TBasic b) = Some v) (map (wire_literal fp b) vs) vs"
    by (auto simp: list_all2_conv_all_nth)
qed

lemma resolve_literals:
  "list_all2 (\<lambda>l v. resolve_literal_scalar (fpu_of env) l t = Some v) ls vs \<Longrightarrow>
    resolve_elements (resolve_term env ctx (resolve_evaluated env ctx t)) (map Lit ls) w = Some (Some vs, w)"
  by (induction ls vs rule: list_all2_induct) (simp_all add: resolve_term_def)



text \<open>A row with a value in a column of a tuple, a user-defined or a nested collection type cannot be sent:
  the server traps while it encodes the reply.\<close>

theorem tuple_column_traps:
  "append_cql_value (CArray vs) (TTuple ts f) = None \<and> append_cql_value (CArray vs) (TUdt ks n ns us) = None \<and>
   append_cql_value (CArray vs) (TList (TTuple ts f) g) = None"
  by (simp add: append_cql_value_def get_basic_def)

text \<open>A value bound to an address column is taken for a text and then refused by the column.\<close>

theorem inet_cannot_be_bound:
  assumes "read_cql_value_as_constant fp BInet p = Some (l, s)" "l \<noteq> LUnset" "l \<noteq> LNull"
  shows "resolve_literal_scalar fp l (TBasic BInet) = None"
  using assms
  by (auto simp: read_cql_value_as_constant_def literal_of_value_def resolve_literal_scalar_def Let_def
      bind_eq_Some_conv split: if_splits)

end
