(* ===== verification/Locator.thy ===== *)
theory Locator
  imports Evaluator
begin

text \<open>
  Where a statement looks for its rows (\<open>cql/engine/planner.cpp\<close>, lines 115 to 1013): the
  \<open>WHERE\<close> clause is split into a range of partition tokens, a range of clustering keys, an index
  lookup, and the predicates that remain for a filter.

  \<open>BoundsT<T>\<close> is the record \<open>bounds\<close>, with \<open>T\<close> a token or the bytes of a key. The outer \<open>option\<close>
  is the trap; the world is threaded because a term may call \<open>now()\<close> or \<open>uuid()\<close>.
\<close>

section \<open>Loops that evaluate\<close>

fun fold_io :: "('a \<Rightarrow> 's \<Rightarrow> world \<Rightarrow> ('s \<times> world) option) \<Rightarrow> 'a list \<Rightarrow> 's \<Rightarrow> world \<Rightarrow> ('s \<times> world) option" where
  "fold_io f [] s w = Some (s, w)"
| "fold_io f (x # xs) s w = do { (s, w) \<leftarrow> f x s w; fold_io f xs s w }"

lemma fold_io_cong [fundef_cong]:
  "xs = ys \<Longrightarrow> (\<And>x s w. x \<in> set ys \<Longrightarrow> f x s w = g x s w) \<Longrightarrow> s = t \<Longrightarrow> w = v \<Longrightarrow>
     fold_io f xs s w = fold_io g ys t v"
  by (induction xs arbitrary: ys s t w v) (auto intro!: Option.bind_cong)

lemma fold_io_append [simp]:
  "fold_io f (xs @ ys) s w = do { (s, w) \<leftarrow> fold_io f xs s w; fold_io f ys s w }"
  by (induction xs arbitrary: s w) (auto split: bind_splits prod.splits)

section \<open>Bounds and locators\<close>

record 'k bounds =
  bound_begin :: 'k
  bound_end :: 'k
  has_begin :: bool
  has_end :: bool
  begin_inclusive :: bool
  end_inclusive :: bool
  is_equality :: bool
  begin_is_partial :: bool
  end_is_partial :: bool
  has_in :: bool
  in_values :: "'k list"

definition empty_bounds :: "'k \<Rightarrow> 'k bounds" where
  "empty_bounds k = \<lparr>bound_begin = k, bound_end = k, has_begin = False, has_end = False, begin_inclusive = True,
     end_inclusive = True, is_equality = False, begin_is_partial = False, end_is_partial = False,
     has_in = False, in_values = []\<rparr>"

record row_locator =
  pk_bounds :: "u64 bounds"
  ck_bounds :: "bytes bounds"
  pk_evals :: "evaluated list"
  reverse_clustering :: bool
  ck_eq_prefix_len :: nat
  index_col_idx :: "nat option"
  index_key_prefix :: bytes

definition empty_locator :: row_locator where
  "empty_locator = \<lparr>pk_bounds = empty_bounds 0, ck_bounds = empty_bounds [], pk_evals = [],
     reverse_clustering = False, ck_eq_prefix_len = 0, index_col_idx = None, index_key_prefix = []\<rparr>"

datatype plan_error =
    NoPlanError | RequiresAllowFiltering | MissingPartitionKey | MissingClusteringKey
  | OrderByOnNonClusteringColumn | ColumnNotFound | TypeMismatch | StaticOnlyUpdateWithCK
  | StaticOnlyDeleteWithCK | RangeDeletionOnSpecificColumns | TokenFunctionInMutation
  | DuplicateColumnInMutation | NonKeyColumnInMutationWhere | NonEqInOnPartitionKeyMutation
  | CounterOperationOnNonCounter | CounterAssignmentNotIncrement | NullValueForCounter
  | DistinctRestrictionInvalid | InvalidCollectionMutation | InvalidSubscriptTarget
  | UnsetSubscriptValue | UnsetValueInWhere | InvalidTtlArgument | InvalidWritetimeArgument
  | ClusteringRestrictedAfterNonEq | ClusteringRestrictedWithoutPrefix

record filter_plan =
  predicates :: "relation list"
  needs_allow_filtering :: bool
  chain_violation :: plan_error
  chain_violation_message :: bytes

definition empty_filter :: filter_plan where
  "empty_filter = \<lparr>predicates = [], needs_allow_filtering = False, chain_violation = NoPlanError,
     chain_violation_message = []\<rparr>"

section \<open>Columns of the key\<close>

fun key_position_from :: "table \<Rightarrow> bytes \<Rightarrow> nat list \<Rightarrow> nat \<Rightarrow> nat option option" where
  "key_position_from tbl name [] pos = Some None"
| "key_position_from tbl name (ci # rest) pos = do {
     c \<leftarrow> col_at tbl ci;
     if str_eq (col_name c) name then Some (Some pos) else key_position_from tbl name rest (Suc pos) }"

definition find_key_position :: "table \<Rightarrow> nat list \<Rightarrow> bytes \<Rightarrow> nat option option" where
  "find_key_position tbl key_col_indices name = key_position_from tbl name key_col_indices 0"

definition find_pk_position :: "table \<Rightarrow> bytes \<Rightarrow> nat option option" where
  "find_pk_position tbl name = find_key_position tbl (partition_key_col_indices tbl) name"

definition find_ck_position :: "table \<Rightarrow> bytes \<Rightarrow> nat option option" where
  "find_ck_position tbl name = find_key_position tbl (clustering_key_col_indices tbl) name"

definition pk_index :: "table \<Rightarrow> nat \<Rightarrow> nat option" where
  "pk_index tbl pos = (if pos < length (partition_key_col_indices tbl) then Some (partition_key_col_indices tbl ! pos) else None)"

definition ck_index :: "table \<Rightarrow> nat \<Rightarrow> nat option" where
  "ck_index tbl pos = (if pos < length (clustering_key_col_indices tbl) then Some (clustering_key_col_indices tbl ! pos) else None)"

definition is_null_eval :: "evaluated \<Rightarrow> bool" where
  "is_null_eval e \<longleftrightarrow> (case e of ELit l \<Rightarrow> l = LNull | ECol v \<Rightarrow> v = CNull | _ \<Rightarrow> False)"

fun twi_has_column_ref :: "trm_id \<Rightarrow> bool" where
  "twi_has_column_ref (Column _) \<longleftrightarrow> True"
| "twi_has_column_ref (IdMinus t) \<longleftrightarrow> twi_has_column_ref t"
| "twi_has_column_ref (IdArith l _ r) \<longleftrightarrow> twi_has_column_ref l \<or> twi_has_column_ref r"
| "twi_has_column_ref (Plain _) \<longleftrightarrow> False"

definition col_is_counter :: "column \<Rightarrow> bool" where
  "col_is_counter c \<longleftrightarrow> col_type c = TBasic BCounter"

definition table_has_counter :: "table \<Rightarrow> bool" where
  "table_has_counter tbl \<longleftrightarrow> list_ex (\<lambda>c. \<not> tombstone c \<and> col_is_counter c) (cols tbl)"

definition col_is_collection :: "column \<Rightarrow> bool" where
  "col_is_collection c \<longleftrightarrow> (case col_type c of TList _ _ \<Rightarrow> True | TSet _ _ \<Rightarrow> True | TMap _ _ _ \<Rightarrow> True | _ \<Rightarrow> False)"

text \<open>\<open>c OP X\<close> or \<open>X OP c\<close>, with no other column in \<open>X\<close>.\<close>

record compound_form =
  cf_op :: arith_op
  col_on_left :: bool
  cf_other :: trm_id

definition match_compound_form :: "trm_id \<Rightarrow> bytes \<Rightarrow> compound_form option" where
  "match_compound_form twi target_col = (case twi of
       IdArith l op r \<Rightarrow>
         (let is_target = (\<lambda>side. case side of Column name \<Rightarrow> str_eq name target_col | _ \<Rightarrow> False)
          in if is_target l \<and> \<not> twi_has_column_ref r then Some \<lparr>cf_op = op, col_on_left = True, cf_other = r\<rparr>
             else if is_target r \<and> \<not> twi_has_column_ref l then Some \<lparr>cf_op = op, col_on_left = False, cf_other = l\<rparr>
             else None)
     | _ \<Rightarrow> None)"

section \<open>Rejected values\<close>

definition term_is_literal_null :: "trm \<Rightarrow> bool" where
  "term_is_literal_null t \<longleftrightarrow> t = Lit LNull"

fun term_contains_unset_binding :: "trm \<Rightarrow> eval_context \<Rightarrow> bool" where
  "term_contains_unset_binding (Bind identifier) ctx \<longleftrightarrow> evaluate_bind ctx identifier = ELit LUnset"
| "term_contains_unset_binding (Lit l) ctx \<longleftrightarrow> l = LUnset"
| "term_contains_unset_binding (ListLit es) ctx \<longleftrightarrow> list_ex (\<lambda>e. term_contains_unset_binding e ctx) es"
| "term_contains_unset_binding (TupleLit es) ctx \<longleftrightarrow> list_ex (\<lambda>e. term_contains_unset_binding e ctx) es"
| "term_contains_unset_binding (SetLit ks) ctx \<longleftrightarrow> list_ex (\<lambda>e. term_contains_unset_binding e ctx) ks"
| "term_contains_unset_binding (MapLit kvs) ctx \<longleftrightarrow>
     list_ex (\<lambda>p. term_contains_unset_binding (fst p) ctx \<or> term_contains_unset_binding (snd p) ctx) kvs"
| "term_contains_unset_binding _ ctx \<longleftrightarrow> False"

fun relation_has_unset :: "eval_context \<Rightarrow> relation \<Rightarrow> bool" where
  "relation_has_unset ctx (ColumnRelation _ _ v) \<longleftrightarrow> term_contains_unset_binding v ctx"
| "relation_has_unset ctx (TupleRelation _ _ vs) \<longleftrightarrow> list_ex (\<lambda>v. term_contains_unset_binding v ctx) vs"
| "relation_has_unset ctx (TokenRelation _ _ v) \<longleftrightarrow> term_contains_unset_binding v ctx"
| "relation_has_unset ctx (SubscriptedRelation _ s _ v) \<longleftrightarrow>
     term_contains_unset_binding s ctx \<or> term_contains_unset_binding v ctx"

definition where_has_unset_binding :: "relation list \<Rightarrow> eval_context \<Rightarrow> bool" where
  "where_has_unset_binding rels ctx \<longleftrightarrow> list_ex (relation_has_unset ctx) rels"

definition where_has_null_counter_predicate :: "relation list \<Rightarrow> table \<Rightarrow> bool" where
  "where_has_null_counter_predicate rels tbl \<longleftrightarrow>
     list_ex (\<lambda>rel. case rel of
         ColumnRelation column _ v \<Rightarrow>
           term_is_literal_null v \<and>
           list_ex (\<lambda>c. \<not> tombstone c \<and> str_eq (col_name c) column \<and> col_is_counter c) (cols tbl)
       | _ \<Rightarrow> False) rels"

section \<open>One range\<close>

definition swap_operator :: "operator \<Rightarrow> operator" where
  "swap_operator op = (case op of OpLt \<Rightarrow> OpGt | OpLe \<Rightarrow> OpGe | OpGt \<Rightarrow> OpLt | OpGe \<Rightarrow> OpLe | _ \<Rightarrow> op)"

definition apply_range_bound :: "'k bounds \<Rightarrow> operator \<Rightarrow> sort_dir \<Rightarrow> 'k \<Rightarrow> bool \<Rightarrow> 'k bounds" where
  "apply_range_bound bd op direction k partial = (case (if direction = DESC then swap_operator op else op) of
       OpLt \<Rightarrow> bd\<lparr>bound_end := k, has_end := True, end_inclusive := False, end_is_partial := partial\<rparr>
     | OpLe \<Rightarrow> bd\<lparr>bound_end := k, has_end := True, end_inclusive := True, end_is_partial := partial\<rparr>
     | OpGt \<Rightarrow> bd\<lparr>bound_begin := k, has_begin := True, begin_inclusive := False, begin_is_partial := partial\<rparr>
     | OpGe \<Rightarrow> bd\<lparr>bound_begin := k, has_begin := True, begin_inclusive := True, begin_is_partial := partial\<rparr>
     | _ \<Rightarrow> bd)"

section \<open>Constraints on a key\<close>

record key_constraints =
  eq_vals :: "evaluated option list"
  eq_rels :: "relation list"
  in_vals :: "evaluated list list"
  in_seen :: "bool list"
  range_seen :: "bool list"

definition init_constraints :: "nat \<Rightarrow> key_constraints" where
  "init_constraints n = \<lparr>eq_vals = replicate n None, eq_rels = [], in_vals = replicate n [],
     in_seen = replicate n False, range_seen = replicate n False\<rparr>"

definition all_positions_eq :: "key_constraints \<Rightarrow> nat \<Rightarrow> bool" where
  "all_positions_eq kc n \<longleftrightarrow> n \<noteq> 0 \<and> list_all (\<lambda>i. eq_vals kc ! i \<noteq> None) [0..<n]"

definition all_positions_covered :: "key_constraints \<Rightarrow> nat \<Rightarrow> bool" where
  "all_positions_covered kc n \<longleftrightarrow> list_all (\<lambda>i. eq_vals kc ! i \<noteq> None \<or> in_seen kc ! i) [0..<n]"

definition any_empty_in :: "key_constraints \<Rightarrow> nat \<Rightarrow> bool" where
  "any_empty_in kc n \<longleftrightarrow> list_ex (\<lambda>i. in_seen kc ! i \<and> in_vals kc ! i = []) [0..<n]"

text \<open>
  The values are moved out of the constraints, which keep what a move leaves behind: numbers stay,
  and everything on the heap becomes empty.
\<close>

fun moved_cv :: "cv \<Rightarrow> cv" where
  "moved_cv (CText _) = CText []"
| "moved_cv (CBlob _) = CBlob []"
| "moved_cv (CVarInt v) = CVarInt (v\<lparr>magnitude := []\<rparr>)"
| "moved_cv (CDecimal s v) = CDecimal s (v\<lparr>magnitude := []\<rparr>)"
| "moved_cv (CArray _) = CArray []"
| "moved_cv (CSet _) = CSet []"
| "moved_cv (CMap _) = CMap []"
| "moved_cv v = v"

fun moved_from :: "evaluated \<Rightarrow> evaluated" where
  "moved_from (ELit (LText _)) = ELit (LText [])"
| "moved_from (ELit (LHex _)) = ELit (LHex [])"
| "moved_from (ELit (LBlob _)) = ELit (LBlob [])"
| "moved_from (ELit l) = ELit l"
| "moved_from (EMap _) = EMap []"
| "moved_from (ESet _) = ESet []"
| "moved_from (EList _) = EList []"
| "moved_from (EUdt _) = EUdt []"
| "moved_from (ETuple _) = ETuple []"
| "moved_from (ECol v) = ECol (moved_cv v)"

definition drain_eq_combo :: "key_constraints \<Rightarrow> nat \<Rightarrow> (evaluated list \<times> key_constraints) option" where
  "drain_eq_combo kc n = do {
     out \<leftarrow> map_opt (\<lambda>i. eq_vals kc ! i) [0..<n];
     Some (out, kc\<lparr>eq_vals := map (map_option moved_from) (take n (eq_vals kc)) @ drop n (eq_vals kc)\<rparr>) }"

text \<open>The sizes and the strides are 64 bits wide; a division by zero traps.\<close>

definition combo_size :: "key_constraints \<Rightarrow> nat \<Rightarrow> u64" where
  "combo_size kc i = (if eq_vals kc ! i \<noteq> None then 1 else word_of_nat (length (in_vals kc ! i)))"

fun combo_at :: "key_constraints \<Rightarrow> nat list \<Rightarrow> u64 \<Rightarrow> u64 \<Rightarrow> evaluated list option" where
  "combo_at kc [] idx stride = Some []"
| "combo_at kc (i # ps) idx stride = do {
     assert_true (combo_size kc i \<noteq> 0);
     let stride = stride div combo_size kc i;
     assert_true (stride \<noteq> 0);
     let choice = unat ((idx div stride) mod combo_size kc i);
     v \<leftarrow> (case eq_vals kc ! i of
            Some v \<Rightarrow> Some v
          | None \<Rightarrow> if choice < length (in_vals kc ! i) then Some (in_vals kc ! i ! choice) else None);
     vs \<leftarrow> combo_at kc ps idx stride;
     Some (v # vs) }"

definition combo_total :: "key_constraints \<Rightarrow> nat \<Rightarrow> u64" where
  "combo_total kc n = fold (\<lambda>i total. total * combo_size kc i) [0..<n] 1"

definition build_cartesian_combos ::
    "key_constraints \<Rightarrow> nat \<Rightarrow> (evaluated list \<Rightarrow> 'k option) \<Rightarrow> 'k list option" where
  "build_cartesian_combos kc n serialize =
     map_opt (\<lambda>idx. do { combo \<leftarrow> combo_at kc [0..<n] (word_of_nat idx) (combo_total kc n); serialize combo })
       [0..<unat (combo_total kc n)]"

section \<open>Index lookups\<close>

definition col_is_indexed :: "table \<Rightarrow> nat \<Rightarrow> bool option" where
  "col_is_indexed tbl ci = do {
     c \<leftarrow> col_at tbl ci;
     Some (case col_type c of
         TBasic _ \<Rightarrow> list_ex (\<lambda>x. \<not> idx_tombstone x \<and> idx_col_idx x = ci) (indexes tbl)
       | _ \<Rightarrow> False) }"

definition try_capture_index :: "fpu \<Rightarrow> table \<Rightarrow> nat \<Rightarrow> evaluated \<Rightarrow> row_locator \<Rightarrow> row_locator option" where
  "try_capture_index fp tbl ci e loc =
     (if index_col_idx loc \<noteq> None then Some loc
      else if is_null_eval e then Some loc
      else do {
        indexed \<leftarrow> col_is_indexed tbl ci;
        if \<not> indexed then Some loc
        else do {
          b \<leftarrow> basic_at tbl ci;
          prefix \<leftarrow> encode_index_prefix fp e b;
          Some (loc\<lparr>index_col_idx := Some ci, index_key_prefix := prefix\<rparr>) } })"

definition collection_index_target :: "ctype \<Rightarrow> operator \<Rightarrow> (index_kind \<times> basic) option" where
  "collection_index_target t op = (case t of
       TList e _ \<Rightarrow> if op = OpContains then map_option (Pair IndexValues) (basic_of e) else None
     | TVector e _ _ \<Rightarrow> if op = OpContains then map_option (Pair IndexValues) (basic_of e) else None
     | TSet k _ \<Rightarrow> if op = OpContains then map_option (Pair IndexValues) (basic_of k) else None
     | TMap k v _ \<Rightarrow>
         if op = OpContains \<and> basic_of v \<noteq> None then map_option (Pair IndexValues) (basic_of v)
         else if op = OpContainsKey then map_option (Pair IndexKeys) (basic_of k)
         else None
     | _ \<Rightarrow> None)"

definition try_capture_collection_index ::
    "fpu \<Rightarrow> row_locator \<Rightarrow> table \<Rightarrow> nat \<Rightarrow> operator \<Rightarrow> evaluated \<Rightarrow> (bool \<times> row_locator) option" where
  "try_capture_collection_index fp loc tbl ci op e =
     (if index_col_idx loc \<noteq> None then Some (False, loc)
      else do {
        c \<leftarrow> col_at tbl ci;
        case collection_index_target (col_type c) op of
          None \<Rightarrow> Some (False, loc)
        | Some (want_kind, elem_basic) \<Rightarrow>
            if \<not> list_ex (\<lambda>x. \<not> idx_tombstone x \<and> idx_col_idx x = ci \<and> idx_kind x = want_kind) (indexes tbl)
            then Some (False, loc)
            else do {
              prefix \<leftarrow> encode_index_prefix fp e elem_basic;
              Some (True, loc\<lparr>index_col_idx := Some ci, index_key_prefix := prefix\<rparr>) } })"

section \<open>The relations of a \<open>WHERE\<close> clause\<close>

record where_state =
  s_locator :: row_locator
  s_filter :: filter_plan
  pk_constraints :: key_constraints
  ck_constraints :: key_constraints
  ck_tuple_in_combos :: "evaluated option list list"

definition push_predicate :: "relation \<Rightarrow> where_state \<Rightarrow> where_state" where
  "push_predicate rel s = s\<lparr>s_filter := (s_filter s)\<lparr>predicates := predicates (s_filter s) @ [rel]\<rparr>\<rparr>"

definition require_filtering :: "where_state \<Rightarrow> where_state" where
  "require_filtering s = s\<lparr>s_filter := (s_filter s)\<lparr>needs_allow_filtering := True\<rparr>\<rparr>"

definition set_eq_val :: "nat \<Rightarrow> evaluated \<Rightarrow> key_constraints \<Rightarrow> key_constraints" where
  "set_eq_val pos e kc = kc\<lparr>eq_vals := (eq_vals kc)[pos := Some e]\<rparr>"

definition push_eq_rel :: "relation \<Rightarrow> key_constraints \<Rightarrow> key_constraints" where
  "push_eq_rel rel kc = kc\<lparr>eq_rels := eq_rels kc @ [rel]\<rparr>"

definition push_in_vals :: "nat \<Rightarrow> evaluated list \<Rightarrow> key_constraints \<Rightarrow> key_constraints" where
  "push_in_vals pos es kc = kc\<lparr>in_vals := (in_vals kc)[pos := in_vals kc ! pos @ es]\<rparr>"

definition see_in :: "nat \<Rightarrow> key_constraints \<Rightarrow> key_constraints" where
  "see_in pos kc = kc\<lparr>in_seen := (in_seen kc)[pos := True]\<rparr>"

definition see_range :: "nat \<Rightarrow> key_constraints \<Rightarrow> key_constraints" where
  "see_range pos kc = kc\<lparr>range_seen := (range_seen kc)[pos := True]\<rparr>"

lemmas where_edits = push_predicate_def require_filtering_def set_eq_val_def push_eq_rel_def push_in_vals_def
  see_in_def see_range_def

definition in_elements :: "evaluated \<Rightarrow> trm list" where
  "in_elements e = (case e of EList es \<Rightarrow> es | ETuple es \<Rightarrow> es | _ \<Rightarrow> [])"

fun non_null_values :: "env \<Rightarrow> eval_context \<Rightarrow> trm list \<Rightarrow> world \<Rightarrow> (evaluated list \<times> world) option" where
  "non_null_values env ctx [] w = Some ([], w)"
| "non_null_values env ctx (t # ts) w = do {
     (e, w) \<leftarrow> evaluate_term env ctx t w;
     (es, w) \<leftarrow> non_null_values env ctx ts w;
     Some (if is_null_eval e then es else e # es, w) }"

text \<open>A range on a partition key of one column becomes a range of tokens.\<close>

definition apply_token_bound :: "u64 bounds \<Rightarrow> operator \<Rightarrow> u64 \<Rightarrow> u64 bounds" where
  "apply_token_bound bd op t = (case op of
       OpLt \<Rightarrow> bd\<lparr>bound_end := t, has_end := True, end_inclusive := False\<rparr>
     | OpLe \<Rightarrow> bd\<lparr>bound_end := t, has_end := True, end_inclusive := True\<rparr>
     | OpGt \<Rightarrow> bd\<lparr>bound_begin := t, has_begin := True, begin_inclusive := False\<rparr>
     | OpGe \<Rightarrow> bd\<lparr>bound_begin := t, has_begin := True, begin_inclusive := True\<rparr>
     | _ \<Rightarrow> bd)"

definition locate_pk ::
    "env \<Rightarrow> eval_context \<Rightarrow> table \<Rightarrow> relation \<Rightarrow> operator \<Rightarrow> trm \<Rightarrow> nat \<Rightarrow> where_state \<Rightarrow> world \<Rightarrow> (where_state \<times> world) option" where
  "locate_pk env ctx tbl rel op value pos s w = do {
     (e, w) \<leftarrow> evaluate_term env ctx value w;
     if op = OpEq then
       if is_null_eval e then Some (s, w)
       else do {
         ci \<leftarrow> pk_index tbl pos;
         loc \<leftarrow> try_capture_index (fpu_of env) tbl ci e (s_locator s);
         Some (s\<lparr>pk_constraints := push_eq_rel rel (set_eq_val pos e (pk_constraints s)), s_locator := loc\<rparr>, w) }
     else if op = OpIn then do {
       (es, w) \<leftarrow> non_null_values env ctx (in_elements e) w;
       Some (push_predicate rel (s\<lparr>pk_constraints := push_in_vals pos es (see_in pos (pk_constraints s))\<rparr>), w) }
     else if length (partition_key_col_indices tbl) = 1 \<and> pos = 0 \<and> is_inequality op then do {
       t \<leftarrow> compute_partition_token_from_evals (fpu_of env) tbl [e];
       let loc = s_locator s;
       Some (s\<lparr>s_locator := loc\<lparr>pk_bounds := apply_token_bound (pk_bounds loc) op t\<rparr>\<rparr>, w) }
     else Some (require_filtering (push_predicate rel s), w) }"

definition clustering_order_at :: "table \<Rightarrow> nat \<Rightarrow> sort_dir option" where
  "clustering_order_at tbl pos = do { ci \<leftarrow> ck_index tbl pos; c \<leftarrow> col_at tbl ci; Some (clustering_order c) }"

definition bound_ck :: "operator \<Rightarrow> sort_dir \<Rightarrow> bytes \<Rightarrow> bool \<Rightarrow> where_state \<Rightarrow> where_state" where
  "bound_ck op dir k partial s =
     (let loc = s_locator s
      in s\<lparr>s_locator := loc\<lparr>ck_bounds := apply_range_bound (ck_bounds loc) op dir k partial\<rparr>,
           ck_constraints := see_range 0 (ck_constraints s)\<rparr>)"

definition locate_ck ::
    "env \<Rightarrow> eval_context \<Rightarrow> table \<Rightarrow> relation \<Rightarrow> operator \<Rightarrow> trm \<Rightarrow> nat \<Rightarrow> where_state \<Rightarrow> world \<Rightarrow> (where_state \<times> world) option" where
  "locate_ck env ctx tbl rel op value pos s w = do {
     (e, w) \<leftarrow> evaluate_term env ctx value w;
     if op = OpEq then
       if is_null_eval e then Some (s, w)
       else do {
         ci \<leftarrow> ck_index tbl pos;
         loc \<leftarrow> try_capture_index (fpu_of env) tbl ci e (s_locator s);
         Some (s\<lparr>ck_constraints := push_eq_rel rel (set_eq_val pos e (ck_constraints s)), s_locator := loc\<rparr>, w) }
     else if op = OpIn then do {
       (es, w) \<leftarrow> non_null_values env ctx (in_elements e) w;
       Some (push_predicate rel (s\<lparr>ck_constraints := push_in_vals pos es (see_in pos (ck_constraints s))\<rparr>), w) }
     else if pos = 0 then do {
       dir \<leftarrow> clustering_order_at tbl 0;
       k \<leftarrow> encode_clustering_single (fpu_of env) tbl e;
       Some (push_predicate rel (bound_ck op dir k (length (clustering_key_col_indices tbl) > 1) s), w) }
     else Some (push_predicate rel (s\<lparr>ck_constraints := see_range pos (ck_constraints s)\<rparr>), w) }"

definition locate_regular ::
    "env \<Rightarrow> eval_context \<Rightarrow> table \<Rightarrow> relation \<Rightarrow> bytes \<Rightarrow> operator \<Rightarrow> trm \<Rightarrow> where_state \<Rightarrow> world \<Rightarrow> (where_state \<times> world) option" where
  "locate_regular env ctx tbl rel column op value s w = do {
     (covered, loc, w) \<leftarrow>
       (case find_column tbl column of
          None \<Rightarrow> Some (False, s_locator s, w)
        | Some ci \<Rightarrow>
            if op = OpEq then do {
              indexed \<leftarrow> col_is_indexed tbl ci;
              if \<not> indexed then Some (False, s_locator s, w)
              else do {
                (e, w) \<leftarrow> evaluate_term env ctx value w;
                if is_null_eval e then Some (False, s_locator s, w)
                else do { loc \<leftarrow> try_capture_index (fpu_of env) tbl ci e (s_locator s); Some (True, loc, w) } } }
            else if op = OpContains \<or> op = OpContainsKey then do {
              (e, w) \<leftarrow> evaluate_term env ctx value w;
              if is_null_eval e then Some (False, s_locator s, w)
              else do {
                (c, loc) \<leftarrow> try_capture_collection_index (fpu_of env) (s_locator s) tbl ci op e;
                Some (c, loc, w) } }
            else Some (False, s_locator s, w));
     let s = push_predicate rel (s\<lparr>s_locator := loc\<rparr>);
     Some (if covered then s else require_filtering s, w) }"

definition locate_column ::
    "env \<Rightarrow> eval_context \<Rightarrow> table \<Rightarrow> bytes \<Rightarrow> operator \<Rightarrow> trm \<Rightarrow> where_state \<Rightarrow> world \<Rightarrow> (where_state \<times> world) option" where
  "locate_column env ctx tbl column op value s w = do {
     let rel = ColumnRelation column op value;
     pk_pos \<leftarrow> find_pk_position tbl column;
     ck_pos \<leftarrow> find_ck_position tbl column;
     case pk_pos of
       Some pos \<Rightarrow> locate_pk env ctx tbl rel op value pos s w
     | None \<Rightarrow> (case ck_pos of
         Some pos \<Rightarrow> locate_ck env ctx tbl rel op value pos s w
       | None \<Rightarrow> locate_regular env ctx tbl rel column op value s w) }"

text \<open>Tuples: \<open>(c1, c2) IN (...)\<close>, \<open>(c1, c2) = (...)\<close> and lexicographic ranges.\<close>

fun tuple_combo ::
    "env \<Rightarrow> eval_context \<Rightarrow> trm list \<Rightarrow> nat option list \<Rightarrow> evaluated option list \<Rightarrow> world \<Rightarrow>
      (evaluated option list \<times> world) option" where
  "tuple_combo env ctx (t # ts) (p # ps) combo w = (case p of
       Some pos \<Rightarrow> do { (e, w) \<leftarrow> evaluate_term env ctx t w; tuple_combo env ctx ts ps (combo[pos := Some e]) w }
     | None \<Rightarrow> tuple_combo env ctx ts ps combo w)"
| "tuple_combo env ctx _ _ combo w = Some (combo, w)"

definition locate_tuple_value ::
    "env \<Rightarrow> eval_context \<Rightarrow> nat \<Rightarrow> nat option list \<Rightarrow> trm \<Rightarrow> where_state \<Rightarrow> world \<Rightarrow> (where_state \<times> world) option" where
  "locate_tuple_value env ctx n_ck positions val_term s w = do {
     (combo, w) \<leftarrow> (case val_term of
         TupleLit es \<Rightarrow> tuple_combo env ctx es positions (replicate n_ck None) w
       | _ \<Rightarrow> Some (replicate n_ck None, w));
     Some (s\<lparr>ck_tuple_in_combos := ck_tuple_in_combos s @ [combo]\<rparr>, w) }"

definition locate_single_value ::
    "env \<Rightarrow> eval_context \<Rightarrow> nat \<Rightarrow> trm \<Rightarrow> where_state \<Rightarrow> world \<Rightarrow> (where_state \<times> world) option" where
  "locate_single_value env ctx pos val_term s w = (case val_term of
       TupleLit [] \<Rightarrow> Some (s, w)
     | TupleLit (t # ts) \<Rightarrow> do {
         (e, w) \<leftarrow> evaluate_term env ctx t w;
         Some (s\<lparr>ck_constraints := push_in_vals pos [e] (ck_constraints s)\<rparr>, w) }
     | _ \<Rightarrow> do {
         (e, w) \<leftarrow> evaluate_term env ctx val_term w;
         Some (s\<lparr>ck_constraints := push_in_vals pos [e] (ck_constraints s)\<rparr>, w) })"

definition locate_tuple_in ::
    "env \<Rightarrow> eval_context \<Rightarrow> table \<Rightarrow> bytes list \<Rightarrow> trm list \<Rightarrow> where_state \<Rightarrow> world \<Rightarrow> (where_state \<times> world) option" where
  "locate_tuple_in env ctx tbl columns vals s w = do {
     positions \<leftarrow> map_opt (find_ck_position tbl) columns;
     (s, w) \<leftarrow>
       (if \<not> list_all (\<lambda>p. p \<noteq> None) positions then Some (s, w)
        else do {
          let s = s\<lparr>ck_constraints := fold (\<lambda>p. see_in (the p)) positions (ck_constraints s)\<rparr>;
          if length columns > 1
          then fold_io (locate_tuple_value env ctx (length (clustering_key_col_indices tbl)) positions) vals s w
          else fold_io (locate_single_value env ctx (the (hd positions))) vals s w });
     Some (push_predicate (TupleRelation columns OpIn vals) s, w) }"

fun tuple_eq_vals ::
    "env \<Rightarrow> eval_context \<Rightarrow> bytes list \<Rightarrow> trm list \<Rightarrow> nat \<Rightarrow> nat option list \<Rightarrow> key_constraints \<Rightarrow> world \<Rightarrow>
      (key_constraints \<times> world) option" where
  "tuple_eq_vals env ctx columns vals i [] kc w = Some (kc, w)"
| "tuple_eq_vals env ctx columns vals i (p # ps) kc w = do {
     pos \<leftarrow> p;
     t \<leftarrow> tuple_value_at columns vals i;
     (e, w) \<leftarrow> evaluate_term env ctx t w;
     tuple_eq_vals env ctx columns vals (Suc i) ps (set_eq_val pos e kc) w }"

definition locate_tuple_eq ::
    "env \<Rightarrow> eval_context \<Rightarrow> table \<Rightarrow> bytes list \<Rightarrow> trm list \<Rightarrow> where_state \<Rightarrow> world \<Rightarrow> (where_state \<times> world) option" where
  "locate_tuple_eq env ctx tbl columns vals s w = do {
     let rel = TupleRelation columns OpEq vals;
     pks \<leftarrow> (if length columns \<le> length (partition_key_col_indices tbl) then map_opt (find_pk_position tbl) columns
             else Some [None]);
     if list_all (\<lambda>p. p \<noteq> None) pks then do {
       (kc, w) \<leftarrow> tuple_eq_vals env ctx columns vals 0 pks (pk_constraints s) w;
       Some (s\<lparr>pk_constraints := push_eq_rel rel kc\<rparr>, w) }
     else do {
       cks \<leftarrow> (if length columns \<le> length (clustering_key_col_indices tbl) then map_opt (find_ck_position tbl) columns
               else Some [None]);
       if list_all (\<lambda>p. p \<noteq> None) cks then do {
         (kc, w) \<leftarrow> tuple_eq_vals env ctx columns vals 0 cks (ck_constraints s) w;
         Some (s\<lparr>ck_constraints := push_eq_rel rel kc\<rparr>, w) }
       else Some (require_filtering (push_predicate rel s), w) } }"

fun tuple_evals ::
    "env \<Rightarrow> eval_context \<Rightarrow> bytes list \<Rightarrow> trm list \<Rightarrow> nat list \<Rightarrow> world \<Rightarrow> (evaluated list \<times> world) option" where
  "tuple_evals env ctx columns vals [] w = Some ([], w)"
| "tuple_evals env ctx columns vals (i # js) w = do {
     t \<leftarrow> tuple_value_at columns vals i;
     (e, w) \<leftarrow> evaluate_term env ctx t w;
     (es, w) \<leftarrow> tuple_evals env ctx columns vals js w;
     Some (e # es, w) }"

definition locate_tuple_range ::
    "env \<Rightarrow> eval_context \<Rightarrow> table \<Rightarrow> bytes list \<Rightarrow> operator \<Rightarrow> trm list \<Rightarrow> where_state \<Rightarrow> world \<Rightarrow> (where_state \<times> world) option" where
  "locate_tuple_range env ctx tbl columns op vals s w = do {
     let n_ck = length (clustering_key_col_indices tbl);
     (s, w) \<leftarrow>
       (case (columns, vals) of
          ([column], [value]) \<Rightarrow>
            if n_ck = 0 then Some (s, w)
            else do {
              ck_pos \<leftarrow> find_ck_position tbl column;
              if ck_pos \<noteq> Some 0 then Some (s, w)
              else do {
                (e, w) \<leftarrow> evaluate_term env ctx value w;
                dir \<leftarrow> clustering_order_at tbl 0;
                k \<leftarrow> encode_clustering_single (fpu_of env) tbl e;
                Some (bound_ck op dir k (n_ck > 1) s, w) } }
        | _ \<Rightarrow>
            if is_inequality op \<and> length columns > 1 \<and> tuple_rhs_is_compatible columns vals \<and> n_ck > 0
               \<and> length columns \<le> n_ck
            then do {
              positions \<leftarrow> map_opt (find_ck_position tbl) columns;
              if positions \<noteq> map Some [0..<length columns] then Some (s, w)
              else do {
                dirs \<leftarrow> map_opt (clustering_order_at tbl) [0..<length columns];
                if \<not> list_all (\<lambda>d. d = hd dirs) (tl dirs) then Some (s, w)
                else do {
                  (es, w) \<leftarrow> tuple_evals env ctx columns vals [0..<length columns] w;
                  k \<leftarrow> encode_clustering_prefix (fpu_of env) tbl es;
                  Some (bound_ck op (hd dirs) k (length columns < n_ck) s, w) } } }
            else Some (s, w));
     Some (push_predicate (TupleRelation columns op vals) s, w) }"

definition locate_tuple ::
    "env \<Rightarrow> eval_context \<Rightarrow> table \<Rightarrow> bytes list \<Rightarrow> operator \<Rightarrow> trm list \<Rightarrow> where_state \<Rightarrow> world \<Rightarrow> (where_state \<times> world) option" where
  "locate_tuple env ctx tbl columns op vals s w =
     (if op = OpIn \<and> columns \<noteq> [] then locate_tuple_in env ctx tbl columns vals s w
      else if op = OpEq \<and> tuple_rhs_is_compatible columns vals then locate_tuple_eq env ctx tbl columns vals s w
      else locate_tuple_range env ctx tbl columns op vals s w)"

definition locate_subscripted ::
    "env \<Rightarrow> eval_context \<Rightarrow> table \<Rightarrow> bytes \<Rightarrow> trm \<Rightarrow> operator \<Rightarrow> trm \<Rightarrow> where_state \<Rightarrow> world \<Rightarrow> (where_state \<times> world) option" where
  "locate_subscripted env ctx tbl column subscript op value s w = do {
     (covered, loc, w) \<leftarrow>
       (case (if op = OpEq then find_column tbl column else None) of
          None \<Rightarrow> Some (False, s_locator s, w)
        | Some ci \<Rightarrow> do {
            c \<leftarrow> col_at tbl ci;
            case col_type c of
              TMap k v _ \<Rightarrow> do {
                (key_eval, w) \<leftarrow> evaluate_term env ctx subscript w;
                (val_eval, w) \<leftarrow> evaluate_term env ctx value w;
                case (basic_of k, basic_of v) of
                  (Some kb, Some vb) \<Rightarrow>
                    if \<not> is_null_eval key_eval \<and> \<not> is_null_eval val_eval \<and> index_col_idx (s_locator s) = None
                       \<and> list_ex (\<lambda>x. \<not> idx_tombstone x \<and> idx_col_idx x = ci \<and> idx_kind x = IndexEntries) (indexes tbl)
                    then do {
                      prefix \<leftarrow> encode_index_prefix_entries (fpu_of env) key_eval kb val_eval vb;
                      Some (True, (s_locator s)\<lparr>index_col_idx := Some ci, index_key_prefix := prefix\<rparr>, w) }
                    else Some (False, s_locator s, w)
                | _ \<Rightarrow> Some (False, s_locator s, w) }
            | _ \<Rightarrow> Some (False, s_locator s, w) });
     let s = push_predicate (SubscriptedRelation column subscript op value) (s\<lparr>s_locator := loc\<rparr>);
     Some (if covered then s else require_filtering s, w) }"

fun locate_relation :: "env \<Rightarrow> eval_context \<Rightarrow> table \<Rightarrow> relation \<Rightarrow> where_state \<Rightarrow> world \<Rightarrow> (where_state \<times> world) option" where
  "locate_relation env ctx tbl (ColumnRelation c op v) s w = locate_column env ctx tbl c op v s w"
| "locate_relation env ctx tbl (TupleRelation cs op vs) s w = locate_tuple env ctx tbl cs op vs s w"
| "locate_relation env ctx tbl (TokenRelation cs op v) s w = Some (push_predicate (TokenRelation cs op v) s, w)"
| "locate_relation env ctx tbl (SubscriptedRelation c sub op v) s w = locate_subscripted env ctx tbl c sub op v s w"

section \<open>From constraints to bounds\<close>

definition eq_rel_covered :: "table \<Rightarrow> relation \<Rightarrow> bool option" where
  "eq_rel_covered tbl rel = (case rel of
       ColumnRelation column _ _ \<Rightarrow> (case find_column tbl column of Some ci \<Rightarrow> col_is_indexed tbl ci | None \<Rightarrow> Some False)
     | _ \<Rightarrow> Some False)"

fun push_pk_rels :: "table \<Rightarrow> relation list \<Rightarrow> where_state \<Rightarrow> where_state option" where
  "push_pk_rels tbl [] s = Some s"
| "push_pk_rels tbl (rel # rels) s = do {
     covered \<leftarrow> eq_rel_covered tbl rel;
     let s = push_predicate rel s;
     push_pk_rels tbl rels (if covered then s else require_filtering s) }"

definition set_pk_bounds :: "u64 bounds \<Rightarrow> where_state \<Rightarrow> where_state" where
  "set_pk_bounds bd s = s\<lparr>s_locator := (s_locator s)\<lparr>pk_bounds := bd\<rparr>\<rparr>"

definition set_ck_bounds :: "bytes bounds \<Rightarrow> where_state \<Rightarrow> where_state" where
  "set_ck_bounds bd s = s\<lparr>s_locator := (s_locator s)\<lparr>ck_bounds := bd\<rparr>\<rparr>"

abbreviation pk_of :: "where_state \<Rightarrow> u64 bounds" where "pk_of s \<equiv> pk_bounds (s_locator s)"
abbreviation ck_of :: "where_state \<Rightarrow> bytes bounds" where "ck_of s \<equiv> ck_bounds (s_locator s)"

definition point :: "'k \<Rightarrow> 'k bounds \<Rightarrow> 'k bounds" where
  "point k bd = bd\<lparr>bound_begin := k, has_begin := True, begin_inclusive := True, is_equality := True\<rparr>"

definition finish_pk :: "fpu \<Rightarrow> table \<Rightarrow> where_state \<Rightarrow> where_state option" where
  "finish_pk fp tbl s = do {
     let n = length (partition_key_col_indices tbl);
     let kc = pk_constraints s;
     if all_positions_eq kc n then do {
       (evals, kc) \<leftarrow> drain_eq_combo kc n;
       t \<leftarrow> compute_partition_token_from_evals fp tbl evals;
       let s = set_pk_bounds (point t (pk_of s)) (s\<lparr>pk_constraints := kc\<rparr>);
       Some (s\<lparr>s_locator := (s_locator s)\<lparr>pk_evals := evals\<rparr>\<rparr>) }
     else if all_positions_covered kc n then do {
       ks \<leftarrow> build_cartesian_combos kc n (compute_partition_token_from_evals fp tbl);
       let s = set_pk_bounds ((pk_of s)\<lparr>has_in := True, in_values := in_values (pk_of s) @ ks\<rparr>) s;
       Some (fold push_predicate (eq_rels kc) s) }
     else if any_empty_in kc n then Some (set_pk_bounds ((pk_of s)\<lparr>has_in := True\<rparr>) s)
     else push_pk_rels tbl (eq_rels kc) s }"

text \<open>A tuple that is listed with \<open>IN\<close>; the positions it does not name are those of the equalities.\<close>

fun full_combo :: "evaluated option list \<Rightarrow> evaluated option list \<Rightarrow> evaluated list option" where
  "full_combo (c # combo) (e # eqs) = (case (c, e) of
       (Some v, _) \<Rightarrow> map_option ((#) v) (full_combo combo eqs)
     | (None, Some v) \<Rightarrow> map_option ((#) v) (full_combo combo eqs)
     | (None, None) \<Rightarrow> None)"
| "full_combo _ _ = Some []"

fun push_tuple_combos :: "fpu \<Rightarrow> table \<Rightarrow> evaluated option list list \<Rightarrow> where_state \<Rightarrow> where_state option" where
  "push_tuple_combos fp tbl [] s = Some s"
| "push_tuple_combos fp tbl (combo # combos) s = (case full_combo combo (eq_vals (ck_constraints s)) of
       None \<Rightarrow> push_tuple_combos fp tbl combos s
     | Some es \<Rightarrow> do {
         k \<leftarrow> encode_clustering fp tbl es;
         push_tuple_combos fp tbl combos (set_ck_bounds ((ck_of s)\<lparr>in_values := in_values (ck_of s) @ [k]\<rparr>) s) })"

definition finish_ck :: "fpu \<Rightarrow> table \<Rightarrow> where_state \<Rightarrow> where_state option" where
  "finish_ck fp tbl s = do {
     let n = length (clustering_key_col_indices tbl);
     if n = 0 then Some s else do {
       let kc = ck_constraints s;
       s \<leftarrow> (if eq_rels kc \<noteq> [] \<and> all_positions_eq kc n then do {
               (evals, kc) \<leftarrow> drain_eq_combo kc n;
               k \<leftarrow> encode_clustering fp tbl evals;
               Some (set_ck_bounds (point k (ck_of s)) (s\<lparr>ck_constraints := kc\<rparr>)) }
             else if all_positions_covered kc n then do {
               ks \<leftarrow> build_cartesian_combos kc n (encode_clustering fp tbl);
               Some (set_ck_bounds ((ck_of s)\<lparr>has_in := True, in_values := in_values (ck_of s) @ ks\<rparr>) s) }
             else if any_empty_in kc n then Some (set_ck_bounds ((ck_of s)\<lparr>has_in := True\<rparr>) s)
             else Some s);
       let s = fold push_predicate (eq_rels kc) s;
       push_tuple_combos fp tbl (ck_tuple_in_combos s) s } }"

text \<open>Equalities on a proper prefix of the clustering columns are a range of keys.\<close>

fun eq_prefix :: "evaluated option list \<Rightarrow> evaluated list" where
  "eq_prefix (Some e # es) = e # eq_prefix es"
| "eq_prefix _ = []"

definition prefix_range :: "bytes \<Rightarrow> bytes bounds \<Rightarrow> bytes bounds" where
  "prefix_range k bd = bd\<lparr>bound_begin := k, has_begin := True, begin_inclusive := True, begin_is_partial := True,
     bound_end := k, has_end := True, end_inclusive := True, end_is_partial := True\<rparr>"

definition finish_prefix :: "fpu \<Rightarrow> table \<Rightarrow> where_state \<Rightarrow> where_state option" where
  "finish_prefix fp tbl s =
     (let es = eq_prefix (eq_vals (ck_constraints s))
      in if length (clustering_key_col_indices tbl) > 1 \<and> \<not> is_equality (ck_of s) \<and> \<not> has_begin (ck_of s) \<and>
           \<not> has_end (ck_of s) \<and> in_values (ck_of s) = [] \<and> \<not> has_in (ck_of s) \<and> es \<noteq> []
         then do {
           k \<leftarrow> (if length es = 1 then encode_clustering_single fp tbl (hd es) else encode_clustering_prefix fp tbl es);
           Some (set_ck_bounds (prefix_range k (ck_of s)) s) }
         else Some s)"

section \<open>Which clustering columns may be restricted\<close>

definition eq_or_in :: "key_constraints \<Rightarrow> nat \<Rightarrow> bool" where
  "eq_or_in kc j \<longleftrightarrow> eq_vals kc ! j \<noteq> None \<or> in_seen kc ! j"

definition restricted :: "key_constraints \<Rightarrow> nat \<Rightarrow> bool" where
  "restricted kc i \<longleftrightarrow> eq_vals kc ! i \<noteq> None \<or> in_seen kc ! i \<or> range_seen kc ! i"

definition broken_before :: "key_constraints \<Rightarrow> nat \<Rightarrow> nat option" where
  "broken_before kc i = find (\<lambda>j. \<not> eq_or_in kc j) [0..<i]"

definition chain_break :: "key_constraints \<Rightarrow> nat \<Rightarrow> (nat \<times> nat) option" where
  "chain_break kc n = (case find (\<lambda>i. restricted kc i \<and> broken_before kc i \<noteq> None) [0..<n] of
       None \<Rightarrow> None
     | Some i \<Rightarrow> map_option (Pair i) (broken_before kc i))"

definition quoted :: "bytes \<Rightarrow> bytes" where
  "quoted name = chr (CHR 0x22) # name @ [chr (CHR 0x22)]"

definition ck_name :: "table \<Rightarrow> nat \<Rightarrow> bytes option" where
  "ck_name tbl pos = do { ci \<leftarrow> ck_index tbl pos; c \<leftarrow> col_at tbl ci; Some (col_name c) }"

definition violate :: "plan_error \<Rightarrow> bytes \<Rightarrow> where_state \<Rightarrow> where_state" where
  "violate err m s = s\<lparr>s_filter := (s_filter s)\<lparr>chain_violation := err, chain_violation_message := m\<rparr>\<rparr>"

definition validate_chain :: "table \<Rightarrow> where_state \<Rightarrow> where_state option" where
  "validate_chain tbl s = do {
     let n = length (clustering_key_col_indices tbl);
     let kc = ck_constraints s;
     if n = 0 \<or> is_equality (ck_of s) then Some s
     else (case chain_break kc n of
         None \<Rightarrow> Some s
       | Some (i, j) \<Rightarrow> do {
           a \<leftarrow> ck_name tbl i;
           b \<leftarrow> ck_name tbl j;
           Some (if range_seen kc ! j
             then violate ClusteringRestrictedAfterNonEq
               (ascii ''Clustering column '' @ quoted a @ ascii '' cannot be restricted (preceding column '' @
                quoted b @ ascii '' is restricted by a non-EQ relation)'') s
             else violate ClusteringRestrictedWithoutPrefix
               (ascii ''PRIMARY KEY column '' @ quoted a @ ascii '' cannot be restricted as preceding column '' @
                quoted b @ ascii '' is not restricted'') s) }) }"

text \<open>An equality behind a gap filters inside a partition.\<close>

fun eq_behind_gap :: "key_constraints \<Rightarrow> nat list \<Rightarrow> bool \<Rightarrow> bool" where
  "eq_behind_gap kc [] broken \<longleftrightarrow> False"
| "eq_behind_gap kc (i # ps) broken \<longleftrightarrow>
     (if \<not> eq_or_in kc i then eq_behind_gap kc ps True
      else (broken \<and> eq_vals kc ! i \<noteq> None) \<or> eq_behind_gap kc ps broken)"

definition require_gap_filtering :: "table \<Rightarrow> where_state \<Rightarrow> where_state" where
  "require_gap_filtering tbl s =
     (let n = length (clustering_key_col_indices tbl);
          partition_scoped = is_equality (pk_of s) \<or> has_in (pk_of s) \<or> has_begin (ck_of s) \<or> has_end (ck_of s)
      in if chain_violation (s_filter s) = NoPlanError \<and> n > 0 \<and> \<not> is_equality (ck_of s) \<and> partition_scoped \<and>
           eq_behind_gap (ck_constraints s) [0..<n] False
         then require_filtering s else s)"

definition prefer_partition :: "where_state \<Rightarrow> where_state" where
  "prefer_partition s =
     (if index_col_idx (s_locator s) \<noteq> None \<and> (is_equality (pk_of s) \<or> has_in (pk_of s))
      then s\<lparr>s_locator := (s_locator s)\<lparr>index_col_idx := None, index_key_prefix := []\<rparr>\<rparr> else s)"

fun eq_prefix_from :: "key_constraints \<Rightarrow> nat list \<Rightarrow> nat \<Rightarrow> nat" where
  "eq_prefix_from kc [] acc = acc"
| "eq_prefix_from kc (i # ps) acc =
     (if eq_vals kc ! i \<noteq> None \<or> in_seen kc ! i \<and> length (in_vals kc ! i) = 1
      then eq_prefix_from kc ps (i + 1) else acc)"

definition set_eq_prefix_len :: "table \<Rightarrow> where_state \<Rightarrow> where_state" where
  "set_eq_prefix_len tbl s = s\<lparr>s_locator := (s_locator s)\<lparr>ck_eq_prefix_len :=
     eq_prefix_from (ck_constraints s) [0..<length (clustering_key_col_indices tbl)] 0\<rparr>\<rparr>"

section \<open>The whole clause\<close>

definition initial_where :: "table \<Rightarrow> where_state" where
  "initial_where tbl = \<lparr>s_locator = empty_locator, s_filter = empty_filter,
     pk_constraints = init_constraints (length (partition_key_col_indices tbl)),
     ck_constraints = init_constraints (length (clustering_key_col_indices tbl)), ck_tuple_in_combos = []\<rparr>"

definition build_row_locator ::
    "env \<Rightarrow> eval_context \<Rightarrow> table \<Rightarrow> relation list \<Rightarrow> world \<Rightarrow> ((row_locator \<times> filter_plan) \<times> world) option" where
  "build_row_locator env ctx tbl rels w = do {
     (s, w) \<leftarrow> fold_io (locate_relation env ctx tbl) rels (initial_where tbl) w;
     s \<leftarrow> finish_pk (fpu_of env) tbl s;
     s \<leftarrow> finish_ck (fpu_of env) tbl s;
     s \<leftarrow> finish_prefix (fpu_of env) tbl s;
     s \<leftarrow> validate_chain tbl s;
     let s = set_eq_prefix_len tbl (prefer_partition (require_gap_filtering tbl s));
     Some ((s_locator s, s_filter s), w) }"

section \<open>The combinations of \<open>IN\<close> lists\<close>

definition choices :: "key_constraints \<Rightarrow> nat \<Rightarrow> evaluated list" where
  "choices kc i = (case eq_vals kc ! i of Some v \<Rightarrow> [v] | None \<Rightarrow> in_vals kc ! i)"

definition combo_count :: "key_constraints \<Rightarrow> nat list \<Rightarrow> nat" where
  "combo_count kc ps = prod_list (map (length \<circ> choices kc) ps)"

lemma combo_size_choices: "combo_size kc i = word_of_nat (length (choices kc i))"
  by (simp add: combo_size_def choices_def split: option.split)

lemma combo_total_count: "combo_total kc n = word_of_nat (combo_count kc [0..<n])"
proof -
  have "fold (\<lambda>i total. total * combo_size kc i) ps a = a * word_of_nat (combo_count kc ps)" for ps a
    by (induction ps arbitrary: a) (simp_all add: combo_count_def combo_size_choices algebra_simps)
  then show ?thesis by (simp add: combo_total_def)
qed

lemma length_product_lists_choices: "length (product_lists (map (choices kc) ps)) = combo_count kc ps"
  by (induction ps) (simp_all add: combo_count_def length_concat o_def sum_list_triv)

lemma nth_product_lists:
  assumes "k < length xs * length (product_lists xss)"
  shows "product_lists (xs # xss) ! k =
    xs ! (k div length (product_lists xss)) # product_lists xss ! (k mod length (product_lists xss))"
proof -
  have "product_lists (xs # xss) = map (\<lambda>(x, ys). x # ys) (List.product xs (product_lists xss))"
    by (simp add: product_concat_map map_concat o_def)
  then show ?thesis using assms by (simp add: product_nth)
qed

lemma combo_count_Cons [simp]: "combo_count kc (i # ps) = length (choices kc i) * combo_count kc ps"
  by (simp add: combo_count_def)

lemma small_words:
  assumes "a < 2 ^ 64" "b < 2 ^ 64"
  shows "(word_of_nat a :: u64) div word_of_nat b = word_of_nat (a div b)"
    "(word_of_nat a :: u64) mod word_of_nat b = word_of_nat (a mod b)"
proof -
  have "a div b < 2 ^ 64" "a mod b < 2 ^ 64"
    using assms(1) by (meson div_le_dividend mod_less_eq_dividend le_less_trans)+
  then show "(word_of_nat a :: u64) div word_of_nat b = word_of_nat (a div b)"
    "(word_of_nat a :: u64) mod word_of_nat b = word_of_nat (a mod b)"
    using assms by (simp_all add: word_unat_eq_iff unat_div unat_mod unat_of_nat)
qed

lemma small_word_zero: "0 < a \<Longrightarrow> a < 2 ^ 64 \<Longrightarrow> (word_of_nat a :: u64) \<noteq> 0"
  by (simp add: word_unat_eq_iff unat_of_nat)

lemma combo_at_nth:
  assumes "0 < combo_count kc ps" "combo_count kc ps < 2 ^ 64" "idx < 2 ^ 64"
  shows "combo_at kc ps (word_of_nat idx) (word_of_nat (combo_count kc ps)) =
    Some (product_lists (map (choices kc) ps) ! (idx mod combo_count kc ps))"
  using assms(1,2)
proof (induction ps)
  case Nil
  then show ?case by (simp add: combo_count_def)
next
  case (Cons i ps)
  let ?s = "length (choices kc i)" and ?m = "combo_count kc ps"
  have pos: "0 < ?s" "0 < ?m" using Cons.prems(1) by auto
  have "?s \<le> ?s * ?m" "?m \<le> ?s * ?m" using pos by (simp_all add: Suc_le_eq)
  note le = this and bound = Cons.prems(2) [unfolded combo_count_Cons]
  note small = le_less_trans [OF le(1) bound] le_less_trans [OF le(2) bound] bound
  have stride: "(word_of_nat (?s * ?m) :: u64) div word_of_nat ?s = word_of_nat ?m"
    using small_words(1) [OF small(3,1)] pos(1) by (simp only: nonzero_mult_div_cancel_left)
  have lt: "idx div ?m < 2 ^ 64" using assms(3) by (meson div_le_dividend le_less_trans)
  have choice: "unat ((word_of_nat idx div word_of_nat ?m) mod (word_of_nat ?s :: u64)) = (idx div ?m) mod ?s"
  proof -
    have "(idx div ?m) mod ?s < 2 ^ 64" using lt by (meson mod_less_eq_dividend le_less_trans)
    then show ?thesis
      by (simp only: small_words(1) [OF assms(3) small(2)] small_words(2) [OF lt small(1)]) (simp add: unat_of_nat)
  qed
  have val: "(case eq_vals kc ! i of Some v \<Rightarrow> Some v
        | None \<Rightarrow> if (idx div ?m) mod ?s < length (in_vals kc ! i) then Some (in_vals kc ! i ! ((idx div ?m) mod ?s)) else None)
      = Some (choices kc i ! ((idx div ?m) mod ?s))"
    using pos(1) by (auto simp: choices_def split: option.split)
  have split: "idx mod (?s * ?m) div ?m = (idx div ?m) mod ?s" "idx mod (?s * ?m) mod ?m = idx mod ?m"
    using mod_mult2_eq [of idx ?m ?s] pos by (simp_all add: mult.commute)
  have "idx mod (?s * ?m) < ?s * length (product_lists (map (choices kc) ps))"
    using pos by (simp add: length_product_lists_choices)
  note nth = nth_product_lists [OF this]
  show ?case
    using Cons.IH [OF pos(2) small(2)]
    unfolding combo_at.simps combo_size_choices combo_count_Cons Let_def stride choice val
    using small_word_zero [OF pos(1) small(1)] small_word_zero [OF pos(2) small(2)]
    by (simp add: nth split length_product_lists_choices del: product_lists.simps)
qed

lemma map_opt_nth: "map_opt f (map (\<lambda>i. xs ! i) [0..<length xs]) = map_opt f xs"
  by (simp add: map_nth)

lemma map_opt_comp: "map_opt f (map g xs) = map_opt (\<lambda>x. f (g x)) xs"
  by (induction xs) simp_all

text \<open>C19 The combinations of equalities and \<open>IN\<close> lists that a key is looked up for are the product of the lists:
  every choice of one value per column, once, the first column varying slowest. The index arithmetic
  with strides and remainders leaves none out and repeats none, as long as their number fits 64 bits.\<close>

theorem combos_are_the_product:
  assumes "combo_count kc [0..<n] < 2 ^ 64"
  shows "build_cartesian_combos kc n serialize = map_opt serialize (product_lists (map (choices kc) [0..<n]))"
proof -
  let ?m = "combo_count kc [0..<n]" and ?P = "product_lists (map (choices kc) [0..<n])"
  have total: "unat (combo_total kc n) = ?m" using assms by (simp add: combo_total_count unat_of_nat)
  have "map_opt (\<lambda>idx. do { combo \<leftarrow> combo_at kc [0..<n] (word_of_nat idx) (combo_total kc n); serialize combo }) [0..<?m]
      = map_opt (\<lambda>idx. serialize (?P ! idx)) [0..<?m]"
  proof (rule map_opt_cong [OF refl])
    fix idx assume "idx \<in> set [0..<?m]"
    then have "idx < ?m" "0 < ?m" "idx < 2 ^ 64" using assms by auto
    with combo_at_nth [OF this(2) assms this(3)]
    show "do { combo \<leftarrow> combo_at kc [0..<n] (word_of_nat idx) (combo_total kc n); serialize combo } = serialize (?P ! idx)"
      by (simp add: combo_total_count)
  qed
  also have "\<dots> = map_opt serialize (map (\<lambda>i. ?P ! i) [0..<length ?P])"
    by (simp add: map_opt_comp length_product_lists_choices)
  finally show ?thesis by (simp only: build_cartesian_combos_def total map_opt_nth)
qed

theorem combos_are_the_product_witness:
  "build_cartesian_combos (push_in_vals 1 [ELit (LInt 7), ELit (LInt 8)] (set_eq_val 0 (ELit (LInt 5)) (init_constraints 2))) 2 Some =
    map_opt Some (product_lists (map (choices (push_in_vals 1 [ELit (LInt 7), ELit (LInt 8)] (set_eq_val 0 (ELit (LInt 5)) (init_constraints 2)))) [0..<2]))"
  by (rule combos_are_the_product)
    (simp add: combo_count_def choices_def where_edits init_constraints_def upt_rec)

text \<open>With a multiple of 2 to the 64 combinations, the number of combinations is zero and no row is looked for:
  sixteen columns with sixteen values each.\<close>

theorem combos_wrap_to_none:
  assumes "2 ^ 64 dvd combo_count kc [0..<n]"
  shows "build_cartesian_combos kc n serialize = Some []"
proof -
  have "(word_of_nat (combo_count kc [0..<n]) :: u64) = 0" using assms by (simp add: word_of_nat_eq_0_iff)
  then show ?thesis by (simp add: build_cartesian_combos_def combo_total_count)
qed

section \<open>The chain of clustering columns\<close>

definition contiguous :: "key_constraints \<Rightarrow> nat \<Rightarrow> bool" where
  "contiguous kc n \<longleftrightarrow> (\<forall>i < n. restricted kc i \<longrightarrow> (\<forall>j < i. eq_or_in kc j))"

lemma find_upt_None: "find P [0..<n] = None \<longleftrightarrow> (\<forall>i < n. \<not> P i)"
  by (auto simp: find_None_iff)

lemma chain_break_None: "chain_break kc n = None \<longleftrightarrow> contiguous kc n"
  by (auto simp: chain_break_def broken_before_def find_upt_None contiguous_def find_Some_iff split: option.split)

lemma chain_break_Some:
  assumes "chain_break kc n = Some (i, j)"
  shows "i < n" "j < i" "restricted kc i" "\<not> eq_or_in kc j" "\<forall>k < j. eq_or_in kc k"
    "\<forall>k < i. restricted kc k \<longrightarrow> (\<forall>l < k. eq_or_in kc l)"
proof -
  have i: "find (\<lambda>i. restricted kc i \<and> broken_before kc i \<noteq> None) [0..<n] = Some i" "broken_before kc i = Some j"
    using assms by (auto simp: chain_break_def split: option.splits)
  from i(1) obtain m where "m < n" "restricted kc m" "i = m"
      "\<forall>k < m. \<not> (restricted kc k \<and> broken_before kc k \<noteq> None)"
    by (auto simp: find_Some_iff)
  moreover from i(2) show "j < i" "\<not> eq_or_in kc j" "\<forall>k < j. eq_or_in kc k"
    by (auto simp: broken_before_def find_Some_iff)
  ultimately show "i < n" "restricted kc i" "\<forall>k < i. restricted kc k \<longrightarrow> (\<forall>l < k. eq_or_in kc l)"
    by (auto simp: broken_before_def find_upt_None)
qed


lemma example_cols: "cols example_table =
     [\<lparr>tombstone = False, is_static = False, col_name = [112], col_type = TBasic BBigint,
        key_kind = PartitionKey, key_position = 0, clustering_order = ASC\<rparr>,
      \<lparr>tombstone = False, is_static = False, col_name = [105], col_type = TBasic BInt,
        key_kind = ClusteringKey, key_position = 0, clustering_order = DESC\<rparr>,
      \<lparr>tombstone = False, is_static = False, col_name = [116], col_type = TBasic BTinyint,
        key_kind = ClusteringKey, key_position = 1, clustering_order = ASC\<rparr>]" "indexes example_table = []"
  by (simp_all add: example_table_def rebuild_table_indices_def Let_def)


end
