(* ===== verification/SchemaTypes.thy ===== *)
theory SchemaTypes
  imports CqlHash Terms Text
begin

text \<open>
  Type expressions: their hash and their printed form, the assignment rules
  (\<open>cql/engine/types.cpp\<close>), and the bytes that stand for a type in the schema on disk
  (\<open>cql/engine/schema.types.cpp\<close>).

  A blob is the bytes from the offset on. The types of a keyspace are a map from names to the
  user-defined types they stand for, and a schema is a map from keyspace names to keyspaces.
\<close>

section \<open>Hash and name (\<open>cql/engine/types.cpp\<close>)\<close>

definition basic_code :: "basic \<Rightarrow> u8" where
  "basic_code b = (case b of
       BAscii \<Rightarrow> 0 | BBigint \<Rightarrow> 1 | BBlob \<Rightarrow> 2 | BBoolean \<Rightarrow> 3 | BCounter \<Rightarrow> 4 | BDate \<Rightarrow> 5 | BDecimal \<Rightarrow> 6
     | BDouble \<Rightarrow> 7 | BDuration \<Rightarrow> 8 | BFloat \<Rightarrow> 9 | BInet \<Rightarrow> 10 | BInt \<Rightarrow> 11 | BSmallint \<Rightarrow> 12 | BText \<Rightarrow> 13
     | BTime \<Rightarrow> 14 | BTimestamp \<Rightarrow> 15 | BTimeuuid \<Rightarrow> 16 | BTinyint \<Rightarrow> 17 | BUuid \<Rightarrow> 18 | BVarchar \<Rightarrow> 19
     | BVarint \<Rightarrow> 20 | BHex \<Rightarrow> 21 | BCOUNT \<Rightarrow> 22)"

definition flag64 :: "bool \<Rightarrow> u64" where
  "flag64 b = (if b then 1 else 0)"

fun hash_type :: "ctype \<Rightarrow> u64" where
  "hash_type (TBasic b) = hash_u64 (ucast (basic_code b))"
| "hash_type (TList e f) = mix_hash (hash_type e) (flag64 f)"
| "hash_type (TSet e f) = mix_hash (hash_type e) (flag64 f)"
| "hash_type (TMap k v f) = mix_hash (mix_hash (hash_type k) (hash_type v)) (flag64 f)"
| "hash_type (TVector e n f) = mix_hash (mix_hash (hash_type e) (flag64 f)) n"
| "hash_type (TTuple ts f) = fold (\<lambda>x h. mix_hash h x) (map hash_type ts) (flag64 f)"
| "hash_type (TUdt ks name _ _) = mix_hash (str_hash ks) (str_hash name)"

definition basic_to_str :: "basic \<Rightarrow> bytes" where
  "basic_to_str b = ascii (case b of
       BText \<Rightarrow> ''text'' | BInt \<Rightarrow> ''int'' | BBigint \<Rightarrow> ''bigint'' | BSmallint \<Rightarrow> ''smallint''
     | BCounter \<Rightarrow> ''counter'' | BTimestamp \<Rightarrow> ''timestamp'' | BBoolean \<Rightarrow> ''boolean'' | BFloat \<Rightarrow> ''float''
     | BDouble \<Rightarrow> ''double'' | BUuid \<Rightarrow> ''uuid'' | BAscii \<Rightarrow> ''ascii'' | BBlob \<Rightarrow> ''blob'' | BDate \<Rightarrow> ''date''
     | BDecimal \<Rightarrow> ''decimal'' | BDuration \<Rightarrow> ''duration'' | BInet \<Rightarrow> ''inet'' | BTime \<Rightarrow> ''time''
     | BTimeuuid \<Rightarrow> ''timeuuid'' | BTinyint \<Rightarrow> ''tinyint'' | BVarchar \<Rightarrow> ''varchar'' | BVarint \<Rightarrow> ''varint''
     | BHex \<Rightarrow> ''hex'' | BCOUNT \<Rightarrow> ''unknown'')"

fun comma_separated :: "bytes list \<Rightarrow> bytes" where
  "comma_separated [] = []"
| "comma_separated [s] = s"
| "comma_separated (s # ss) = s @ ascii '', '' @ comma_separated ss"

fun type_to_str :: "ctype \<Rightarrow> bytes" where
  "type_to_str (TBasic b) = basic_to_str b"
| "type_to_str (TList e _) = ascii ''list<'' @ type_to_str e @ ascii ''>''"
| "type_to_str (TSet e _) = ascii ''set<'' @ type_to_str e @ ascii ''>''"
| "type_to_str (TMap k v _) = ascii ''map<'' @ type_to_str k @ ascii '', '' @ type_to_str v @ ascii ''>''"
| "type_to_str (TVector e _ _) = ascii ''vector['' @ type_to_str e @ ascii '']''"
| "type_to_str (TTuple ts _) = ascii ''tuple<'' @ comma_separated (map type_to_str ts) @ ascii ''>''"
| "type_to_str (TUdt ks name _ _) = (if length ks > 0 then ks @ ascii ''.'' else []) @ name"

definition type_compatible_for_assignment :: "basic \<Rightarrow> basic \<Rightarrow> bool" where
  "type_compatible_for_assignment from_type to_type \<longleftrightarrow>
     (if from_type = to_type then True
      else if (to_type = BText \<or> to_type = BVarchar) \<and> from_type = BAscii then True
      else (to_type = BText \<and> from_type = BVarchar) \<or> (to_type = BVarchar \<and> from_type = BText))"

section \<open>Types on disk (\<open>cql/engine/schema.types.cpp\<close>)\<close>

definition kind_list :: u8 where "kind_list = basic_code BCOUNT"
definition kind_set :: u8 where "kind_set = basic_code BCOUNT + 1"
definition kind_map :: u8 where "kind_map = basic_code BCOUNT + 2"
definition kind_vector :: u8 where "kind_vector = basic_code BCOUNT + 3"
definition kind_tuple :: u8 where "kind_tuple = basic_code BCOUNT + 4"
definition kind_udt :: u8 where "kind_udt = basic_code BCOUNT + 5"

lemmas type_kinds = kind_list_def kind_set_def kind_map_def kind_vector_def kind_tuple_def kind_udt_def

fun serialized_type_size :: "ctype \<Rightarrow> nat" where
  "serialized_type_size (TBasic _) = 1"
| "serialized_type_size (TList e _) = 1 + 1 + serialized_type_size e"
| "serialized_type_size (TSet e _) = 1 + 1 + serialized_type_size e"
| "serialized_type_size (TMap k v _) = 1 + 1 + serialized_type_size k + serialized_type_size v"
| "serialized_type_size (TVector e _ _) = 1 + 1 + 8 + serialized_type_size e"
| "serialized_type_size (TTuple ts _) = 1 + 1 + 8 + sum_list (map serialized_type_size ts)"
| "serialized_type_size (TUdt _ name _ _) = 1 + 1 + 8 + length name"

definition put_u8 :: "u8 \<Rightarrow> bytes" where "put_u8 = put_word"
definition put_u64 :: "u64 \<Rightarrow> bytes" where "put_u64 = put_word"
definition put_flag :: "bool \<Rightarrow> bytes" where "put_flag f = put_u8 (if f then 1 else 0)"

fun write_type :: "ctype \<Rightarrow> bytes" where
  "write_type (TBasic b) = put_u8 (basic_code b)"
| "write_type (TList e f) = put_u8 kind_list @ put_flag f @ write_type e"
| "write_type (TSet e f) = put_u8 kind_set @ put_flag f @ write_type e"
| "write_type (TMap k v f) = put_u8 kind_map @ put_flag f @ write_type k @ write_type v"
| "write_type (TVector e n f) = put_u8 kind_vector @ put_flag f @ put_u64 n @ write_type e"
| "write_type (TTuple ts f) =
     put_u8 kind_tuple @ put_flag f @ put_u64 (word_of_nat (length ts)) @ concat (map write_type ts)"
| "write_type (TUdt _ name _ _) = put_u8 kind_udt @ put_u8 0 @ put_u64 (word_of_nat (length name)) @ name"

datatype schema_error = MissingKeyspace | MissingType

type_synonym type_result = "(schema_error \<times> bytes) + ctype"
type_synonym udts = "bytes \<Rightarrow> ctype option"

definition type_of_code :: "u8 \<Rightarrow> basic option" where
  "type_of_code c = find (\<lambda>b. basic_code b = c)
     [BAscii, BBigint, BBlob, BBoolean, BCounter, BDate, BDecimal, BDouble, BDuration, BFloat, BInet, BInt,
      BSmallint, BText, BTime, BTimestamp, BTimeuuid, BTinyint, BUuid, BVarchar, BVarint, BHex]"

definition rd_flag :: "bytes \<Rightarrow> (bool \<times> bytes) option" where
  "rd_flag bs = map_option (\<lambda>(v, bs). (v \<noteq> 0, bs)) (rd_u8 bs)"

fun read_elements :: "(bytes \<Rightarrow> (type_result \<times> bytes) option) \<Rightarrow> nat \<Rightarrow> bytes \<Rightarrow>
    (((schema_error \<times> bytes) + ctype list) \<times> bytes) option" where
  "read_elements r 0 bs = Some (Inr [], bs)"
| "read_elements r (Suc n) bs = do {
     (e, bs) \<leftarrow> r bs;
     case e of
       Inl err \<Rightarrow> Some (Inl err, bs)
     | Inr t \<Rightarrow> do {
         (ts, bs) \<leftarrow> read_elements r n bs;
         Some (map_sum id ((#) t) ts, bs) } }"

definition udt_missing :: "bytes \<Rightarrow> bytes" where
  "udt_missing name = ascii ''UDT '' @ chr (CHR 0x27) # name @ chr (CHR 0x27) # ascii '' not found in keyspace''"

definition read_udt_ref :: "udts option \<Rightarrow> bytes \<Rightarrow> (type_result \<times> bytes) option" where
  "read_udt_ref resolve_ks bs = do {
     (fr, bs) \<leftarrow> rd_u8 bs;
     (n, bs) \<leftarrow> rd_u64 bs;
     (name, bs) \<leftarrow> rd (unat n) bs;
     Some (case resolve_ks of
         None \<Rightarrow> Inl (MissingKeyspace, ascii ''UDT reference encountered with no keyspace context'')
       | Some ks \<Rightarrow> (case ks name of
           None \<Rightarrow> Inl (MissingType, udt_missing name)
         | Some t \<Rightarrow> Inr t), bs) }"

text \<open>Every type takes at least a byte, so the length of the blob bounds the nesting.\<close>

fun read_type_nested :: "nat \<Rightarrow> udts option \<Rightarrow> bytes \<Rightarrow> (type_result \<times> bytes) option" where
  "read_type_nested 0 ks bs = None"
| "read_type_nested (Suc fuel) ks bs = do {
     (kind, bs) \<leftarrow> rd_u8 bs;
     if kind < basic_code BCOUNT then do { b \<leftarrow> type_of_code kind; Some (Inr (TBasic b), bs) }
     else if kind = kind_list then do {
       (fr, bs) \<leftarrow> rd_flag bs;
       (e, bs) \<leftarrow> read_type_nested fuel ks bs;
       Some (map_sum id (\<lambda>e. TList e fr) e, bs) }
     else if kind = kind_set then do {
       (fr, bs) \<leftarrow> rd_flag bs;
       (e, bs) \<leftarrow> read_type_nested fuel ks bs;
       Some (map_sum id (\<lambda>e. TSet e fr) e, bs) }
     else if kind = kind_map then do {
       (fr, bs) \<leftarrow> rd_flag bs;
       (k, bs) \<leftarrow> read_type_nested fuel ks bs;
       case k of
         Inl err \<Rightarrow> Some (Inl err, bs)
       | Inr k \<Rightarrow> do {
           (v, bs) \<leftarrow> read_type_nested fuel ks bs;
           Some (map_sum id (\<lambda>v. TMap k v fr) v, bs) } }
     else if kind = kind_vector then do {
       (fr, bs) \<leftarrow> rd_flag bs;
       (n, bs) \<leftarrow> rd_u64 bs;
       (e, bs) \<leftarrow> read_type_nested fuel ks bs;
       Some (map_sum id (\<lambda>e. TVector e n fr) e, bs) }
     else if kind = kind_tuple then do {
       (fr, bs) \<leftarrow> rd_flag bs;
       (n, bs) \<leftarrow> rd_u64 bs;
       (ts, bs) \<leftarrow> read_elements (read_type_nested fuel ks) (unat n) bs;
       Some (map_sum id (\<lambda>ts. TTuple ts fr) ts, bs) }
     else if kind = kind_udt then read_udt_ref ks bs
     else None }"

definition read_type :: "udts option \<Rightarrow> bytes \<Rightarrow> (type_result \<times> bytes) option" where
  "read_type ks bs = read_type_nested (Suc (length bs)) ks bs"

section \<open>Types of a statement\<close>

fun resolve_all :: "type_result list \<Rightarrow> (schema_error \<times> bytes) + ctype list" where
  "resolve_all [] = Inr []"
| "resolve_all (Inl err # rs) = Inl err"
| "resolve_all (Inr t # rs) = map_sum id ((#) t) (resolve_all rs)"

fun resolve_type_ast :: "(bytes \<Rightarrow> udts option) \<Rightarrow> bytes \<Rightarrow> ast_type \<Rightarrow> type_result" where
  "resolve_type_ast schema default_ks (ABasic b) = Inr (TBasic b)"
| "resolve_type_ast schema default_ks (AList e f) = map_sum id (\<lambda>e. TList e f) (resolve_type_ast schema default_ks e)"
| "resolve_type_ast schema default_ks (ASet e f) = map_sum id (\<lambda>e. TSet e f) (resolve_type_ast schema default_ks e)"
| "resolve_type_ast schema default_ks (AMap k v f) = (case resolve_type_ast schema default_ks k of
       Inl err \<Rightarrow> Inl err
     | Inr k \<Rightarrow> map_sum id (\<lambda>v. TMap k v f) (resolve_type_ast schema default_ks v))"
| "resolve_type_ast schema default_ks (AVector e n f) =
     map_sum id (\<lambda>e. TVector e n f) (resolve_type_ast schema default_ks e)"
| "resolve_type_ast schema default_ks (ATuple es f) =
     map_sum id (\<lambda>ts. TTuple ts f) (resolve_all (map (resolve_type_ast schema default_ks) es))"
| "resolve_type_ast schema default_ks (AUdt ks name f) =
     (let ks_name = (if length ks > 0 then ks else default_ks)
      in if length ks_name = 0 then Inl (MissingKeyspace, ascii ''no keyspace for UDT reference'')
         else case schema ks_name of
             None \<Rightarrow> Inl (MissingKeyspace, ascii ''UDT references unknown keyspace'')
           | Some udts_by_name \<Rightarrow> (case udts_by_name name of
               None \<Rightarrow> Inl (MissingType, ascii ''user-defined type does not exist'')
             | Some t \<Rightarrow> Inr t))"

section \<open>Reading back\<close>

lemma type_of_code_basic: "b \<noteq> BCOUNT \<Longrightarrow> type_of_code (basic_code b) = Some b"
  by (cases b) (simp_all add: type_of_code_def basic_code_def)

lemma basic_code_less: "b \<noteq> BCOUNT \<Longrightarrow> basic_code b < basic_code BCOUNT"
  by (cases b) (simp_all add: basic_code_def)

lemma rd_flag_put [simp]: "rd_flag (put_flag f @ bs) = Some (f, bs)"
  by (simp add: rd_flag_def put_flag_def put_u8_def)

text \<open>Types of a keyspace: the user-defined types in them are the keyspace's own.\<close>

fun local_to :: "udts \<Rightarrow> ctype \<Rightarrow> bool" where
  "local_to ks (TBasic b) \<longleftrightarrow> b \<noteq> BCOUNT"
| "local_to ks (TList e _) \<longleftrightarrow> local_to ks e"
| "local_to ks (TSet e _) \<longleftrightarrow> local_to ks e"
| "local_to ks (TMap k v _) \<longleftrightarrow> local_to ks k \<and> local_to ks v"
| "local_to ks (TVector e _ _) \<longleftrightarrow> local_to ks e"
| "local_to ks (TTuple ts _) \<longleftrightarrow> length ts < 2 ^ 64 \<and> list_all (local_to ks) ts"
| "local_to ks (TUdt k name ns ts) \<longleftrightarrow> length name < 2 ^ 64 \<and> ks name = Some (TUdt k name ns ts)"

fun depth :: "ctype \<Rightarrow> nat" where
  "depth (TList e _) = Suc (depth e)"
| "depth (TSet e _) = Suc (depth e)"
| "depth (TMap k v _) = Suc (max (depth k) (depth v))"
| "depth (TVector e _ _) = Suc (depth e)"
| "depth (TTuple ts _) = Suc (fold max (map depth ts) 0)"
| "depth _ = 0"

lemma fold_max_le: "fold max xs a \<le> n \<longleftrightarrow> a \<le> n \<and> (\<forall>x \<in> set xs. x \<le> n)" for n :: nat
  by (induction xs arbitrary: a) auto

lemma read_elements_map:
  assumes "\<And>t bs. t \<in> set ts \<Longrightarrow> r (write_type t @ bs) = Some (Inr t, bs)"
  shows "read_elements r (length ts) (concat (map write_type ts) @ bs) = Some (Inr ts, bs)"
  using assms by (induction ts) simp_all

lemma read_type_nested_write:
  "local_to ks t \<Longrightarrow> depth t < fuel \<Longrightarrow> read_type_nested fuel (Some ks) (write_type t @ bs) = Some (Inr t, bs)"
proof (induction t arbitrary: fuel bs)
  case (TBasic b)
  then obtain f where "fuel = Suc f" by (cases fuel) auto
  with TBasic show ?case by (simp add: put_u8_def basic_code_less type_of_code_basic)
next
  case (TList e fr)
  then obtain f where "fuel = Suc f" "depth e < f" by (cases fuel) auto
  with TList show ?case by (simp add: put_u8_def type_kinds basic_code_def)
next
  case (TSet e fr)
  then obtain f where "fuel = Suc f" "depth e < f" by (cases fuel) auto
  with TSet show ?case by (simp add: put_u8_def type_kinds basic_code_def)
next
  case (TMap k v fr)
  then obtain f where "fuel = Suc f" "depth k < f" "depth v < f" by (cases fuel) auto
  with TMap show ?case by (simp add: put_u8_def type_kinds basic_code_def)
next
  case (TVector e n fr)
  then obtain f where "fuel = Suc f" "depth e < f" by (cases fuel) auto
  with TVector show ?case by (simp add: put_u8_def put_u64_def type_kinds basic_code_def)
next
  case (TTuple ts fr)
  then obtain f where f: "fuel = Suc f" "fold max (map depth ts) 0 < f" by (cases fuel) auto
  then have "\<forall>t \<in> set ts. depth t < f"
    using fold_max_le [of "map depth ts" 0 "f - 1"] by fastforce
  with TTuple have "read_elements (read_type_nested f (Some ks)) (length ts) (concat (map write_type ts) @ bs) =
      Some (Inr ts, bs)"
    by (intro read_elements_map) (auto simp: list_all_iff)
  with f TTuple.prems(1) show ?case
    by (simp add: put_u8_def put_u64_def type_kinds basic_code_def unat_of_nat)
next
  case (TUdt k name ns ts)
  then obtain f where "fuel = Suc f" by (cases fuel) auto
  with TUdt show ?case
    by (simp add: put_u8_def put_u64_def type_kinds basic_code_def read_udt_ref_def unat_of_nat)
qed

lemma length_write_type: "length (write_type t) = serialized_type_size t"
  by (induction t) (simp_all add: put_u8_def put_u64_def put_flag_def length_concat o_def cong: map_cong)

lemma depth_le_size: "depth t < serialized_type_size t"
proof (induction t)
  case (TTuple ts fr)
  have "\<forall>t \<in> set ts. depth t \<le> sum_list (map serialized_type_size ts)"
  proof
    fix t assume t: "t \<in> set ts"
    then have "serialized_type_size t \<le> sum_list (map serialized_type_size ts)"
      by (intro member_le_sum_list) auto
    with TTuple [OF t] show "depth t \<le> sum_list (map serialized_type_size ts)" by simp
  qed
  then have "fold max (map depth ts) 0 \<le> sum_list (map serialized_type_size ts)" by (simp add: fold_max_le)
  then show ?case by simp
qed auto

text \<open>C20 What the schema stores for a type is read back as the same type, with the cursor behind it, whatever
  follows in the blob: at every nesting of collections, tuples and vectors, and for user-defined types of the
  table's keyspace. The space a writer reserves is the space the type takes.\<close>

theorem type_roundtrip:
  assumes "local_to ks t"
  shows "read_type (Some ks) (write_type t @ bs) = Some (Inr t, bs) \<and> length (write_type t) = serialized_type_size t"
  using read_type_nested_write [OF assms, of "Suc (length (write_type t @ bs))" bs] depth_le_size [of t]
  by (simp add: read_type_def length_write_type)

theorem type_roundtrip_witness:
  "read_type (Some [[117] \<mapsto> TUdt [107] [117] [[102]] [TBasic BInt]])
      (write_type (TMap (TBasic BText) (TTuple [TUdt [107] [117] [[102]] [TBasic BInt]] True) False) @ [9]) =
     Some (Inr (TMap (TBasic BText) (TTuple [TUdt [107] [117] [[102]] [TBasic BInt]] True) False), [9]) \<and>
   length (write_type (TMap (TBasic BText) (TTuple [TUdt [107] [117] [[102]] [TBasic BInt]] True) False)) =
     serialized_type_size (TMap (TBasic BText) (TTuple [TUdt [107] [117] [[102]] [TBasic BInt]] True) False)"
  by (rule type_roundtrip) simp

text \<open>
  A user-defined type of another keyspace may be named in a statement, and is stored without its keyspace:
  what comes back is the table's own type of that name, or the error on which loading the schema traps.
\<close>

lemma read_type_udt: "rd_u8 bs = Some (kind_udt, r) \<Longrightarrow> read_type ks bs = read_udt_ref ks r"
  by (simp add: read_type_def type_kinds basic_code_def)

theorem foreign_type_lost:
  assumes "schema ks1 = Some own" "schema ks2 = Some foreign" "ks2 \<noteq> []" "length name < 2 ^ 64"
    and "foreign name = Some (TUdt ks2 name ns ts)"
  shows "resolve_type_ast schema ks1 (AUdt ks2 name f) = Inr (TUdt ks2 name ns ts) \<and>
     read_type (schema ks1) (write_type (TUdt ks2 name ns ts) @ bs) =
       Some (case own name of None \<Rightarrow> Inl (MissingType, udt_missing name) | Some t \<Rightarrow> Inr t, bs)"
  using assms by (simp add: put_u8_def put_u64_def read_type_udt read_udt_ref_def unat_of_nat)

text \<open>More fuel than the blob has bytes changes nothing.\<close>

lemma rd_shorter: "rd n bs = Some (x, r) \<Longrightarrow> length r \<le> length bs"
  by (auto simp: rd_def split: if_splits)

lemma rd_words_shorter:
  "rd_u8 bs = Some (x, r) \<Longrightarrow> length r < length bs" "rd_flag bs = Some (f, r) \<Longrightarrow> length r \<le> length bs"
  "rd_u64 bs = Some (y, r) \<Longrightarrow> length r \<le> length bs"
  by (auto simp: rd_u8_def rd_flag_def rd_u64_def rd_def split: if_splits)

lemma read_udt_ref_shorter: "read_udt_ref ks bs = Some (x, r) \<Longrightarrow> length r \<le> length bs"
  by (auto simp: read_udt_ref_def bind_eq_Some_conv dest!: rd_shorter rd_words_shorter)

lemma read_elements_shorter:
  assumes "read_elements r n bs = Some (x, bs')" "\<And>bs x bs'. r bs = Some (x, bs') \<Longrightarrow> length bs' < length bs"
  shows "length bs' \<le> length bs"
  using assms(1)
proof (induction n arbitrary: bs x)
  case (Suc n)
  then obtain e bs1 where e: "r bs = Some (e, bs1)" by (auto simp: bind_eq_Some_conv)
  with Suc.prems have "bs' = bs1 \<or> (\<exists>y. read_elements r n bs1 = Some (y, bs'))"
    by (cases e) (auto simp: bind_eq_Some_conv)
  with Suc.IH assms(2) [OF e] show ?case by fastforce
qed simp

lemma read_type_nested_shorter: "read_type_nested n ks bs = Some (x, bs') \<Longrightarrow> length bs' < length bs"
proof (induction n arbitrary: bs x bs')
  case (Suc n)
  have el: "length c' \<le> length c" if "read_elements (read_type_nested n ks) m c = Some (y, c')" for m c y c'
    by (rule read_elements_shorter [OF that Suc.IH])
  obtain kind bs1 where k: "rd_u8 bs = Some (kind, bs1)" using Suc.prems by (auto simp: bind_eq_Some_conv)
  note l = rd_words_shorter(1) [OF k]
  show ?case
    using Suc.prems l
    apply (auto simp: k bind_eq_Some_conv split: if_splits sum.split_asm
        dest!: el read_udt_ref_shorter rd_words_shorter(2,3) dest: Suc.IH)
    subgoal for a b aa ba by (cases aa) (auto dest!: Suc.IH)
    done
qed simp

lemma read_elements_cong:
  assumes "\<And>c. length c \<le> length bs \<Longrightarrow> r c = r' c" "\<And>bs x bs'. r bs = Some (x, bs') \<Longrightarrow> length bs' < length bs"
  shows "read_elements r n bs = read_elements r' n bs"
  using assms(1)
proof (induction n arbitrary: bs)
  case (Suc n)
  have "read_elements r n bs1 = read_elements r' n bs1" if "r bs = Some (e, bs1)" for e bs1
    using assms(2) [OF that] by (intro Suc.IH Suc.prems) simp
  with Suc.prems [of bs] show ?case by (auto intro!: Option.bind_cong split: sum.split)
qed simp

lemma read_type_fuel:
  "length bs < n \<Longrightarrow> length bs < m \<Longrightarrow> read_type_nested n ks bs = read_type_nested m ks bs"
proof (induction n arbitrary: m bs)
  case (Suc n)
  then obtain k where m: "m = Suc k" by (cases m) auto
  have step: "read_type_nested n ks c = read_type_nested k ks c" if "length c < length bs" for c
    using Suc that m by (intro Suc.IH) auto
  have "read_elements (read_type_nested n ks) c bs' = read_elements (read_type_nested k ks) c bs'"
    if "length bs' < length bs" for c bs'
    by (rule read_elements_cong) (use that in \<open>auto intro: step elim: read_type_nested_shorter\<close>)
  then show ?case
    by (auto simp: m step intro!: Option.bind_cong split: sum.split
        dest!: rd_words_shorter read_type_nested_shorter)
qed simp

end
