(* ===== verification/PlanSelect.thy ===== *)
theory PlanSelect
  imports Locator SchemaTypes
begin

text \<open>
  Planning a \<open>SELECT\<close> (\<open>cql/engine/planner.cpp\<close>, lines 22 to 113 and 1015 to 1429): the checks on the
  clause, \<open>ORDER BY\<close>, and the selectors of the projection with their type conversions. A plan that
  is refused carries the error, the text the client gets, and what was planned so far.
\<close>

section \<open>Names of functions\<close>

definition conversion_type_names :: "(string \<times> basic) list" where
  "conversion_type_names =
     [(''int'', BInt), (''bigint'', BBigint), (''smallint'', BSmallint), (''tinyint'', BTinyint),
      (''counter'', BCounter), (''float'', BFloat), (''double'', BDouble), (''text'', BText), (''ascii'', BAscii),
      (''varchar'', BVarchar), (''timestamp'', BTimestamp), (''date'', BDate), (''time'', BTime), (''uuid'', BUuid),
      (''timeuuid'', BTimeuuid), (''boolean'', BBoolean), (''inet'', BInet), (''blob'', BBlob)]"

text \<open>\<open>e.name == tok\<close> compares a C string with a \<open>String8\<close>: it holds for every beginning of the name.\<close>

definition typed_conversion_type_from_token :: "bytes \<Rightarrow> basic option" where
  "typed_conversion_type_from_token tok =
     map_option snd (find (\<lambda>(name, t). cstr_eq (ascii name) tok) conversion_type_names)"

definition scalar_function_meta :: "(string \<times> basic) list" where
  "scalar_function_meta =
     [(''uuid'', BUuid), (''now'', BTimeuuid), (''currenttimeuuid'', BTimeuuid), (''mintimeuuid'', BTimeuuid),
      (''maxtimeuuid'', BTimeuuid), (''currenttimestamp'', BTimestamp), (''totimestamp'', BTimestamp),
      (''dateof'', BTimestamp), (''unixtimestampof'', BBigint), (''tounixtimestamp'', BBigint),
      (''currentdate'', BDate), (''todate'', BDate), (''currenttime'', BTime), (''textasblob'', BBlob),
      (''intasblob'', BBlob), (''bigintasblob'', BBlob), (''blobastext'', BText), (''blobasint'', BInt),
      (''blobasbigint'', BBigint)]"

definition scalar_function_return_type :: "bytes \<Rightarrow> basic option" where
  "scalar_function_return_type name =
     map_option snd (find (\<lambda>(n, t). str_eq (ascii n) name) scalar_function_meta)"

fun conversion_from :: "bytes \<Rightarrow> nat list \<Rightarrow> (basic \<times> basic) option" where
  "conversion_from name [] = None"
| "conversion_from name (i # js) =
     (if name ! i \<noteq> chr (CHR ''a'') \<or> name ! (i + 1) \<noteq> chr (CHR ''s'') then conversion_from name js
      else case (typed_conversion_type_from_token (take i name), typed_conversion_type_from_token (drop (i + 2) name)) of
          (Some from_type, Some to_type) \<Rightarrow> Some (from_type, to_type)
        | _ \<Rightarrow> conversion_from name js)"

definition parse_typed_conversion_name :: "bytes \<Rightarrow> (basic \<times> basic) option" where
  "parse_typed_conversion_name name = conversion_from name [1..<length name - 2]"

section \<open>Statements and plans\<close>

datatype selector =
    SelColumn bytes
  | SelTerm trm
  | SelFunction bytes "selector list"
  | SelCount
  | SelCast selector ast_type

datatype transform = UNIQUE | JSON

record select_stmt =
  sel_transform :: "transform option"
  select_clauses :: "selector list"
  select_where :: "relation list option"
  order_by :: "(sort_dir \<times> bytes) list option"
  allow_filtering :: bool

datatype func_call_arg = ArgColumn nat | ArgLiteral literal

datatype select_op =
    ColumnRef nat
  | CountStar
  | TtlOf nat
  | WritetimeOf nat
  | TokenOf "nat list"
  | FuncCallOf bytes "func_call_arg list" basic

type_synonym conversions = "(basic \<times> basic) list"
type_synonym plan_result = "plan_error \<times> bytes"

record select_plan =
  plan_locator :: row_locator
  plan_filter :: filter_plan
  select_ops :: "(select_op \<times> conversions) list"
  needed_cols :: "nat list"
  is_aggregate :: bool
  plan_status :: plan_result

definition empty_plan :: select_plan where
  "empty_plan = \<lparr>plan_locator = empty_locator, plan_filter = empty_filter, select_ops = [], needed_cols = [],
     is_aggregate = False, plan_status = (NoPlanError, [])\<rparr>"

section \<open>Selectors\<close>

definition refuse :: "plan_error \<Rightarrow> bytes \<Rightarrow> plan_result + 'a" where
  "refuse err context = Inl (err, context)"

text \<open>\<open>ttl(c)\<close> and \<open>writetime(c)\<close>.\<close>

definition resolve_meta_selector :: "table \<Rightarrow> selector list \<Rightarrow> bool \<Rightarrow> (plan_result + select_op) option" where
  "resolve_meta_selector tbl args is_ttl =
     (let shape_error = (if is_ttl then InvalidTtlArgument else InvalidWritetimeArgument);
          fn_label = (if is_ttl then ascii ''ttl'' else ascii ''writetime'')
      in case args of
          [SelColumn name] \<Rightarrow> (case find_column tbl name of
              None \<Rightarrow> Some (refuse ColumnNotFound name)
            | Some ci \<Rightarrow> do {
                c \<leftarrow> col_at tbl ci;
                Some (if key_kind c \<noteq> NoKey
                  then refuse shape_error (ascii ''Cannot use selection function '' @ fn_label @ ascii '' on PRIMARY KEY part '' @ name)
                  else if col_is_collection c
                  then refuse shape_error (ascii ''Cannot use selection function '' @ fn_label @ ascii '' on collection column '' @ name)
                  else Inr (if is_ttl then TtlOf ci else WritetimeOf ci)) })
        | _ \<Rightarrow> Some (refuse shape_error (fn_label @ ascii '' requires a single column argument'')))"

fun token_arguments :: "table \<Rightarrow> selector list \<Rightarrow> nat list \<Rightarrow> nat \<Rightarrow> (plan_result + nat list) option" where
  "token_arguments tbl (arg # args) (pk_ci # pk_cis) ai = (case arg of
       SelColumn name \<Rightarrow> (case find_column tbl name of
           None \<Rightarrow> Some (refuse ColumnNotFound (ascii ''Invalid arguments to function 'token': name '' @ name @
                     ascii '' doesn't exist''))
         | Some ci \<Rightarrow>
             if ci \<noteq> pk_ci then do {
               c \<leftarrow> col_at tbl pk_ci;
               Some (refuse ColumnNotFound (ascii ''Type error: '' @ name @ ascii '' cannot be passed as argument '' @
                 to_str_unsigned (word_of_nat ai :: u64) @ ascii '' of function system.token of type '' @
                 (case col_type c of TBasic b \<Rightarrow> basic_to_str b | _ \<Rightarrow> ascii ''unknown''))) }
             else do {
               rest \<leftarrow> token_arguments tbl args pk_cis (Suc ai);
               Some (map_sum id ((#) pk_ci) rest) })
     | _ \<Rightarrow> Some (refuse ColumnNotFound
         (ascii ''Invalid arguments to function 'token': arguments must be partition key column references'')))"
| "token_arguments tbl _ _ ai = Some (Inr [])"

definition resolve_token :: "table \<Rightarrow> selector list \<Rightarrow> (plan_result + select_op) option" where
  "resolve_token tbl args =
     (let n_pk = length (partition_key_col_indices tbl)
      in if length args \<noteq> n_pk
         then Some (refuse ColumnNotFound (ascii ''Invalid number of arguments in call to function system.token: '' @
           to_str_unsigned (word_of_nat n_pk :: u64) @ ascii '' required but '' @
           to_str_unsigned (word_of_nat (length args) :: u64) @ ascii '' provided''))
         else do { cis \<leftarrow> token_arguments tbl args (partition_key_col_indices tbl) 0; Some (map_sum id TokenOf cis) })"

text \<open>Nested conversions are collected from the outside in and applied from the inside out.\<close>

fun resolve_conversion ::
    "table \<Rightarrow> conversions \<Rightarrow> basic \<Rightarrow> basic \<Rightarrow> selector list \<Rightarrow> (plan_result + (select_op \<times> conversions)) option" where
  "resolve_conversion tbl convs cur_from cur_to [SelColumn name] =
     (let convs = convs @ [(cur_from, cur_to)]
      in case find_column tbl name of
          None \<Rightarrow> Some (refuse ColumnNotFound name)
        | Some ci \<Rightarrow> do {
            c \<leftarrow> col_at tbl ci;
            Some (case col_type c of
                TBasic b \<Rightarrow>
                  if b \<noteq> cur_from then refuse ColumnNotFound (ascii ''Type conversion argument type does not match column type'')
                  else Inr (ColumnRef ci, rev convs)
              | _ \<Rightarrow> refuse ColumnNotFound (ascii ''Type conversion requires a basic-typed column'')) })"
| "resolve_conversion tbl convs cur_from cur_to [SelFunction inner_name args] =
     (let convs = convs @ [(cur_from, cur_to)]
      in if cstr_eq (ascii ''ttl'') inner_name \<or> cstr_eq (ascii ''writetime'') inner_name then
           (let is_ttl = cstr_eq (ascii ''ttl'') inner_name
            in if cur_from \<noteq> (if is_ttl then BInt else BBigint)
               then Some (refuse ColumnNotFound
                 (ascii ''Type conversion argument type does not match inner function result type''))
               else do { op \<leftarrow> resolve_meta_selector tbl args is_ttl; Some (map_sum id (\<lambda>op. (op, rev convs)) op) })
         else (case parse_typed_conversion_name inner_name of
             Some (from_type, to_type) \<Rightarrow>
               if cur_from \<noteq> to_type
               then Some (refuse ColumnNotFound
                 (ascii ''Type conversion argument type does not match inner conversion result type''))
               else resolve_conversion tbl convs from_type to_type args
           | None \<Rightarrow> Some (refuse ColumnNotFound (ascii ''Unsupported argument for type conversion function''))))"
| "resolve_conversion tbl convs cur_from cur_to [_] =
     Some (refuse ColumnNotFound (ascii ''Unsupported argument for type conversion function''))"
| "resolve_conversion tbl convs cur_from cur_to _ =
     Some (refuse ColumnNotFound (ascii ''Type conversion function requires a single argument''))"

fun function_arguments ::
    "env \<Rightarrow> eval_context \<Rightarrow> table \<Rightarrow> selector list \<Rightarrow> world \<Rightarrow> ((plan_result + func_call_arg list) \<times> world) option" where
  "function_arguments env ctx tbl [] w = Some (Inr [], w)"
| "function_arguments env ctx tbl (arg # args) w = do {
     (a, w) \<leftarrow> (case arg of
         SelColumn name \<Rightarrow> Some (case find_column tbl name of
             Some ci \<Rightarrow> Inr (ArgColumn ci) | None \<Rightarrow> refuse ColumnNotFound name, w)
       | SelTerm t \<Rightarrow> do {
           (e, w) \<leftarrow> evaluate_term env ctx t w;
           Some (case e of
               ELit l \<Rightarrow> Inr (ArgLiteral l)
             | _ \<Rightarrow> refuse ColumnNotFound (ascii ''Function argument must be a column reference or a constant''), w) }
       | _ \<Rightarrow> Some (refuse ColumnNotFound (ascii ''Nested function/cast arguments are not yet supported''), w));
     case a of
       Inl err \<Rightarrow> Some (Inl err, w)
     | Inr a \<Rightarrow> do {
         (rest, w) \<leftarrow> function_arguments env ctx tbl args w;
         Some (map_sum id ((#) a) rest, w) } }"

definition resolve_function ::
    "env \<Rightarrow> eval_context \<Rightarrow> table \<Rightarrow> bytes \<Rightarrow> selector list \<Rightarrow> world \<Rightarrow>
      ((plan_result + (select_op \<times> conversions)) \<times> world) option" where
  "resolve_function env ctx tbl fname args w =
     (if cstr_eq (ascii ''ttl'') fname \<or> cstr_eq (ascii ''TTL'') fname
      then do { op \<leftarrow> resolve_meta_selector tbl args True; Some (map_sum id (\<lambda>op. (op, [])) op, w) }
      else if cstr_eq (ascii ''writetime'') fname \<or> cstr_eq (ascii ''WRITETIME'') fname
      then do { op \<leftarrow> resolve_meta_selector tbl args False; Some (map_sum id (\<lambda>op. (op, [])) op, w) }
      else if cstr_eq (ascii ''token'') fname
      then do { op \<leftarrow> resolve_token tbl args; Some (map_sum id (\<lambda>op. (op, [])) op, w) }
      else case parse_typed_conversion_name fname of
          Some (from_type, to_type) \<Rightarrow> do { op \<leftarrow> resolve_conversion tbl [] from_type to_type args; Some (op, w) }
        | None \<Rightarrow> (let lowered = to_lowercase fname
            in case scalar_function_return_type lowered of
                None \<Rightarrow> Some (refuse ColumnNotFound (ascii ''Unknown function '' @ fname), w)
              | Some ret \<Rightarrow> do {
                  (as, w) \<leftarrow> function_arguments env ctx tbl args w;
                  Some (map_sum id (\<lambda>as. (FuncCallOf lowered as ret, [])) as, w) }))"

definition resolve_cast :: "table \<Rightarrow> selector \<Rightarrow> ast_type \<Rightarrow> (plan_result + (select_op \<times> conversions)) option" where
  "resolve_cast tbl column to_ast = (case column of
       SelColumn name \<Rightarrow> (case to_ast of
           ABasic to_basic \<Rightarrow> (case find_column tbl name of
               None \<Rightarrow> Some (refuse ColumnNotFound name)
             | Some ci \<Rightarrow> do {
                 c \<leftarrow> col_at tbl ci;
                 Some (case col_type c of
                     TBasic b \<Rightarrow> Inr (ColumnRef ci, [(b, to_basic)])
                   | _ \<Rightarrow> refuse ColumnNotFound (ascii ''CAST argument must be a basic-typed column'')) })
         | _ \<Rightarrow> Some (refuse ColumnNotFound (ascii ''CAST target must be a basic type'')))
     | _ \<Rightarrow> Some (refuse ColumnNotFound (ascii ''CAST currently only supports a column reference as its argument'')))"

text \<open>A column that does not exist adds nothing.\<close>

definition resolve_selector ::
    "env \<Rightarrow> eval_context \<Rightarrow> table \<Rightarrow> selector \<Rightarrow> world \<Rightarrow>
      ((plan_result + (select_op \<times> conversions) list) \<times> world) option" where
  "resolve_selector env ctx tbl sel w = (case sel of
       SelColumn name \<Rightarrow> Some (Inr (case find_column tbl name of Some ci \<Rightarrow> [(ColumnRef ci, [])] | None \<Rightarrow> []), w)
     | SelCount \<Rightarrow> Some (Inr [(CountStar, [])], w)
     | SelFunction fname args \<Rightarrow> do {
         (op, w) \<leftarrow> resolve_function env ctx tbl fname args w; Some (map_sum id (\<lambda>op. [op]) op, w) }
     | SelTerm _ \<Rightarrow> Some (refuse ColumnNotFound (ascii ''Bare term expressions in SELECT clause are not supported''), w)
     | SelCast column to_ast \<Rightarrow> do {
         op \<leftarrow> resolve_cast tbl column to_ast; Some (map_sum id (\<lambda>op. [op]) op, w) })"

fun project ::
    "env \<Rightarrow> eval_context \<Rightarrow> table \<Rightarrow> selector list \<Rightarrow> select_plan \<Rightarrow> world \<Rightarrow> ((bool \<times> select_plan) \<times> world) option" where
  "project env ctx tbl [] plan w = Some ((True, plan), w)"
| "project env ctx tbl (sel # sels) plan w = do {
     (ops, w) \<leftarrow> resolve_selector env ctx tbl sel w;
     case ops of
       Inl err \<Rightarrow> Some ((False, plan\<lparr>plan_status := err\<rparr>), w)
     | Inr ops \<Rightarrow> project env ctx tbl sels
         (plan\<lparr>select_ops := select_ops plan @ ops, is_aggregate := is_aggregate plan \<or> sel = SelCount\<rparr>) w }"

section \<open>Columns a row must have\<close>

definition add_needed :: "nat \<Rightarrow> nat list \<Rightarrow> nat list" where
  "add_needed ci acc = (if ci \<in> set acc then acc else acc @ [ci])"

definition op_columns :: "select_op \<Rightarrow> nat list" where
  "op_columns op = (case op of ColumnRef ci \<Rightarrow> [ci] | TtlOf ci \<Rightarrow> [ci] | WritetimeOf ci \<Rightarrow> [ci] | _ \<Rightarrow> [])"

definition relation_columns :: "relation \<Rightarrow> bytes list" where
  "relation_columns rel = (case rel of
       ColumnRelation c _ _ \<Rightarrow> [c] | TupleRelation cs _ _ \<Rightarrow> cs | SubscriptedRelation c _ _ _ \<Rightarrow> [c]
     | TokenRelation _ _ _ \<Rightarrow> [])"

definition collect_needed :: "table \<Rightarrow> (select_op \<times> conversions) list \<Rightarrow> relation list \<Rightarrow> nat list" where
  "collect_needed tbl ops rels =
     (let cis = fold add_needed (concat (map (op_columns \<circ> fst) ops)) []
      in fold (\<lambda>name cis. case find_column tbl name of Some ci \<Rightarrow> add_needed ci cis | None \<Rightarrow> cis)
           (concat (map relation_columns rels)) cis)"

section \<open>\<open>DISTINCT\<close> and \<open>ORDER BY\<close>\<close>

definition distinct_column_ok :: "table \<Rightarrow> bytes \<Rightarrow> bool option" where
  "distinct_column_ok tbl name = do {
     pos \<leftarrow> find_pk_position tbl name;
     if pos \<noteq> None then Some True
     else case find_column tbl name of
         None \<Rightarrow> Some False
       | Some ci \<Rightarrow> do { c \<leftarrow> col_at tbl ci; Some (is_static c) } }"

fun all_columns_ok :: "table \<Rightarrow> bytes list \<Rightarrow> bool option" where
  "all_columns_ok tbl [] = Some True"
| "all_columns_ok tbl (c # cs) = do { ok \<leftarrow> distinct_column_ok tbl c; if \<not> ok then Some False else all_columns_ok tbl cs }"

fun distinct_ok :: "table \<Rightarrow> relation list \<Rightarrow> bool option" where
  "distinct_ok tbl [] = Some True"
| "distinct_ok tbl (rel # rels) = do {
     ok \<leftarrow> (case rel of
         ColumnRelation c _ _ \<Rightarrow> distinct_column_ok tbl c
       | TupleRelation cs _ _ \<Rightarrow> all_columns_ok tbl cs
       | _ \<Rightarrow> Some True);
     if ok then distinct_ok tbl rels else Some False }"

text \<open>
  Each direction is that of the table or its opposite, and all of them decide the same way. The loop
  starts at the clustering column the first entry names.
\<close>

fun order_directions ::
    "table \<Rightarrow> nat \<Rightarrow> (sort_dir \<times> bytes) list \<Rightarrow> bool option \<Rightarrow> (plan_result + bool option) option" where
  "order_directions tbl ck_pos [] decision = Some (Inr decision)"
| "order_directions tbl ck_pos ((dir, name) # os) decision =
     (if length (clustering_key_col_indices tbl) \<le> ck_pos then Some (refuse OrderByOnNonClusteringColumn name)
      else do {
        ci \<leftarrow> ck_index tbl ck_pos;
        c \<leftarrow> col_at tbl ci;
        if \<not> str_eq (col_name c) name then Some (refuse OrderByOnNonClusteringColumn name)
        else (let opposite = (dir \<noteq> clustering_order c)
          in if decision \<noteq> None \<and> decision \<noteq> Some opposite then Some (refuse OrderByOnNonClusteringColumn [])
             else order_directions tbl (Suc ck_pos) os (Some opposite)) })"

definition plan_order_by :: "table \<Rightarrow> row_locator \<Rightarrow> (sort_dir \<times> bytes) list \<Rightarrow> (plan_result + bool) option" where
  "plan_order_by tbl loc order =
     (if \<not> is_equality (pk_bounds loc) \<and> \<not> has_in (pk_bounds loc) \<and> in_values (pk_bounds loc) = []
      then Some (refuse OrderByOnNonClusteringColumn [])
      else let first_name = snd (hd order) in do {
        ck_start \<leftarrow> find_ck_position tbl first_name;
        case ck_start of
          None \<Rightarrow> Some (refuse OrderByOnNonClusteringColumn first_name)
        | Some ck_start \<Rightarrow>
            if ck_start > ck_eq_prefix_len loc then Some (refuse OrderByOnNonClusteringColumn first_name)
            else do {
              decision \<leftarrow> order_directions tbl ck_start order None;
              Some (map_sum id (\<lambda>d. d = Some True) decision) } })"

section \<open>The plan\<close>

definition plan_where ::
    "env \<Rightarrow> eval_context \<Rightarrow> table \<Rightarrow> select_stmt \<Rightarrow> world \<Rightarrow> ((row_locator \<times> filter_plan) \<times> world) option" where
  "plan_where env ctx tbl stmt w = (case select_where stmt of
       None \<Rightarrow> Some ((empty_locator, empty_filter), w)
     | Some rels \<Rightarrow> build_row_locator env ctx tbl rels w)"

definition plan_projection ::
    "env \<Rightarrow> eval_context \<Rightarrow> table \<Rightarrow> select_stmt \<Rightarrow> select_plan \<Rightarrow> world \<Rightarrow> (select_plan \<times> world) option" where
  "plan_projection env ctx tbl stmt plan w = do {
     ((ok, plan), w) \<leftarrow> project env ctx tbl (select_clauses stmt) plan w;
     Some (if \<not> ok then plan
           else plan\<lparr>needed_cols := collect_needed tbl (select_ops plan) (predicates (plan_filter plan))\<rparr>, w) }"

definition plan_select ::
    "env \<Rightarrow> eval_context \<Rightarrow> table \<Rightarrow> select_stmt \<Rightarrow> world \<Rightarrow> (select_plan \<times> world) option" where
  "plan_select env ctx tbl stmt w =
     (if select_where stmt \<noteq> None \<and> where_has_unset_binding (the (select_where stmt)) ctx
      then Some (empty_plan\<lparr>plan_status := (UnsetValueInWhere, [])\<rparr>, w)
      else if select_where stmt \<noteq> None \<and> where_has_null_counter_predicate (the (select_where stmt)) tbl
      then Some (empty_plan\<lparr>plan_status := (NullValueForCounter, [])\<rparr>, w)
      else do {
        ((loc, flt), w) \<leftarrow> plan_where env ctx tbl stmt w;
        let plan = empty_plan\<lparr>plan_locator := loc, plan_filter := flt\<rparr>;
        distinct_fits \<leftarrow> (case (select_where stmt, sel_transform stmt) of
            (Some rels, Some UNIQUE) \<Rightarrow> distinct_ok tbl rels
          | _ \<Rightarrow> Some True);
        if \<not> distinct_fits then Some (plan\<lparr>plan_status := (DistinctRestrictionInvalid, [])\<rparr>, w)
        else if \<not> allow_filtering stmt \<and> chain_violation flt \<noteq> NoPlanError
        then Some (plan\<lparr>plan_status := (chain_violation flt, chain_violation_message flt),
                        plan_filter := flt\<lparr>chain_violation_message := []\<rparr>\<rparr>, w)
        else if \<not> allow_filtering stmt \<and> needs_allow_filtering flt
        then Some (plan\<lparr>plan_status := (RequiresAllowFiltering, [])\<rparr>, w)
        else case order_by stmt of
            Some (o1 # os) \<Rightarrow> do {
              reverse_order \<leftarrow> plan_order_by tbl loc (o1 # os);
              case reverse_order of
                Inl err \<Rightarrow> Some (plan\<lparr>plan_status := err\<rparr>, w)
              | Inr r \<Rightarrow> plan_projection env ctx tbl stmt (plan\<lparr>plan_locator := loc\<lparr>reverse_clustering := r\<rparr>\<rparr>) w }
          | _ \<Rightarrow> plan_projection env ctx tbl stmt plan w })"

section \<open>What is accepted\<close>

text \<open>Entry \<open>(dir, name)\<close> of \<open>ORDER BY\<close> names the clustering column at a position and asks for the direction of the
  table, or for the opposite one.\<close>

definition orders_column :: "table \<Rightarrow> bool \<Rightarrow> nat \<Rightarrow> sort_dir \<times> bytes \<Rightarrow> bool" where
  "orders_column tbl opposite pos entry \<longleftrightarrow> (case ck_name tbl pos of
       Some name \<Rightarrow> str_eq name (snd entry) \<and>
         (case Option.bind (ck_index tbl pos) (col_at tbl) of
            Some c \<Rightarrow> (fst entry \<noteq> clustering_order c) = opposite | None \<Rightarrow> False)
     | None \<Rightarrow> False)"

lemma order_directions_step:
  "order_directions tbl pos (o1 # os) d = Some (Inr x) \<longleftrightarrow> pos < length (clustering_key_col_indices tbl) \<and>
     (\<exists>e. orders_column tbl e pos o1 \<and> (d = None \<or> d = Some e) \<and> order_directions tbl (Suc pos) os (Some e) = Some (Inr x))"
proof (cases "Option.bind (ck_index tbl pos) (col_at tbl)")
  case None
  then show ?thesis
    by (cases o1) (auto simp: orders_column_def ck_name_def refuse_def bind_eq_None_conv bind_eq_Some_conv split: option.splits)
next
  case (Some c)
  then obtain ci where ci: "ck_index tbl pos = Some ci" "col_at tbl ci = Some c" by (auto simp: bind_eq_Some_conv)
  show ?thesis
  proof (cases "str_eq (col_name c) (snd o1)")
    case False
    then show ?thesis using ci by (cases o1) (auto simp: orders_column_def ck_name_def refuse_def)
  next
    case True
    then have "orders_column tbl e pos o1 \<longleftrightarrow> e = (fst o1 \<noteq> clustering_order c)" for e
      using ci by (auto simp: orders_column_def ck_name_def)
    then show ?thesis using ci True by (cases o1; cases d) (auto simp: refuse_def)
  qed
qed

lemma order_directions_exact:
  "os \<noteq> [] \<Longrightarrow> order_directions tbl pos os d = Some (Inr x) \<longleftrightarrow>
     pos + length os \<le> length (clustering_key_col_indices tbl) \<and>
     (\<exists>r. x = Some r \<and> (d = None \<or> d = Some r) \<and> (\<forall>i < length os. orders_column tbl r (pos + i) (os ! i)))"
proof (induction os arbitrary: pos d)
  case (Cons o1 os)
  have all: "(\<forall>i < length (o1 # os). orders_column tbl r (pos + i) ((o1 # os) ! i)) \<longleftrightarrow>
      orders_column tbl r pos o1 \<and> (\<forall>i < length os. orders_column tbl r (Suc pos + i) (os ! i))" for r
    by (auto simp: nth_Cons' less_Suc_eq_0_disj)
  show ?case
  proof (cases "os = []")
    case True
    then show ?thesis unfolding order_directions_step all by auto
  next
    case False
    show ?thesis unfolding order_directions_step all Cons.IH [OF False] by auto
  qed
qed simp

text \<open>C17 \<open>ORDER BY\<close> is accepted exactly when the partitions are given and its entries name consecutive clustering
  columns, starting behind at most the columns that are fixed to one value, which all ask for the order of the
  table or all for its opposite; the scan is reversed in the second case and in no other. Every other clause is
  refused with an error.\<close>

theorem order_by_exact:
  assumes "order \<noteq> []"
  shows "plan_order_by tbl loc order = Some (Inr r) \<longleftrightarrow>
    (is_equality (pk_bounds loc) \<or> has_in (pk_bounds loc) \<or> in_values (pk_bounds loc) \<noteq> []) \<and>
    (\<exists>start \<le> ck_eq_prefix_len loc. find_ck_position tbl (snd (hd order)) = Some (Some start) \<and>
       start + length order \<le> length (clustering_key_col_indices tbl) \<and>
       (\<forall>i < length order. orders_column tbl r (start + i) (order ! i)))"
proof -
  have "map_option (map_sum id (\<lambda>d. d = Some True)) (order_directions tbl start order None) = Some (Inr r) \<longleftrightarrow>
      order_directions tbl start order None = Some (Inr (Some r))" for start
  proof -
    have "x \<noteq> None" if "order_directions tbl start order None = Some (Inr x)" for x
      using that order_directions_exact [OF assms] by auto
    then show ?thesis by (cases "order_directions tbl start order None") (auto simp: map_sum_def split: sum.splits)
  qed
  then have "Option.bind (order_directions tbl start order None) (\<lambda>decision. Some (map_sum id (\<lambda>d. d = Some True) decision)) =
      Some (Inr r) \<longleftrightarrow> start + length order \<le> length (clustering_key_col_indices tbl) \<and>
      (\<forall>i < length order. orders_column tbl r (start + i) (order ! i))" for start
    using order_directions_exact [OF assms] by (simp add: map_conv_bind_option o_def)
  note dirs = this
  show ?thesis
  proof (cases "find_ck_position tbl (snd (hd order))")
    case (Some pos)
    then show ?thesis by (cases pos) (auto simp: plan_order_by_def Let_def refuse_def dirs)
  qed (auto simp: plan_order_by_def Let_def refuse_def)
qed

theorem order_by_exact_witness:
  "plan_order_by example_table (empty_locator\<lparr>pk_bounds := point 5 (empty_bounds 0)\<rparr>) [(ASC, [105]), (DESC, [116])] =
    Some (Inr True)"
  by (subst order_by_exact)
    (auto simp: point_def empty_locator_def empty_bounds_def find_ck_position_def find_key_position_def example_table_indices
      example_cols col_at_def orders_column_def ck_name_def ck_index_def less_Suc_eq)

end
