(* ===== verification/PlanMutation.thy ===== *)
theory PlanMutation
  imports PlanSelect IoEvaluator
begin

text \<open>
  Planning an \<open>UPDATE\<close> and a \<open>DELETE\<close> (\<open>cql/engine/planner.cpp\<close>, lines 1431 to 1805): which partitions and
  rows are addressed, and what is stored in which column. An \<open>Evaluated\<close> that a patch leaves empty is
  \<open>None\<close>.
\<close>

section \<open>Statements and plans\<close>

datatype access = Subscript trm | FieldAccess bytes

record assignment =
  asg_column :: bytes
  asg_access :: "access option"
  asg_value :: trm_id

record update_stmt =
  assignments :: "assignment list"
  update_where :: "relation list"

record delete_stmt =
  selections :: "(bytes \<times> access option) list"
  delete_where :: "relation list"

datatype patch_op = Append | Prepend | Subtract | SubscriptSet | SubscriptDelete

record collection_patch =
  patch_op :: patch_op
  patch_key :: "evaluated option"
  patch_value :: "evaluated option"

datatype new_value = NewEvaluated evaluated | NewTerm trm_id | NewPatch collection_patch

type_synonym column_update = "nat \<times> new_value"

record mutation_plan =
  mut_locator :: row_locator
  mut_filter :: filter_plan
  updates :: "column_update list"
  is_full_delete :: bool
  mut_status :: plan_result

definition empty_mutation :: mutation_plan where
  "empty_mutation = \<lparr>mut_locator = empty_locator, mut_filter = empty_filter, updates = [], is_full_delete = False,
     mut_status = (NoPlanError, [])\<rparr>"

abbreviation fail :: "plan_error \<Rightarrow> bytes \<Rightarrow> mutation_plan \<Rightarrow> mutation_plan" where
  "fail err context plan \<equiv> plan\<lparr>mut_status := (err, context)\<rparr>"

section \<open>The \<open>WHERE\<close> clause of a mutation\<close>

definition operator_label :: "operator \<Rightarrow> bytes" where
  "operator_label op = ascii (case op of
       OpLt \<Rightarrow> ''LT'' | OpGt \<Rightarrow> ''GT'' | OpLe \<Rightarrow> ''LTE'' | OpGe \<Rightarrow> ''GTE'' | OpNe \<Rightarrow> ''NEQ''
     | OpContains \<Rightarrow> ''CONTAINS'' | OpContainsKey \<Rightarrow> ''CONTAINS KEY'' | _ \<Rightarrow> ''UNKNOWN'')"

fun validate_mutation_where :: "table \<Rightarrow> relation list \<Rightarrow> plan_result option" where
  "validate_mutation_where tbl [] = Some (NoPlanError, [])"
| "validate_mutation_where tbl (ColumnRelation column op _ # rels) = do {
     pk_pos \<leftarrow> find_pk_position tbl column;
     ck_pos \<leftarrow> find_ck_position tbl column;
     if find_column tbl column = None then Some (ColumnNotFound, column)
     else if pk_pos = None \<and> ck_pos = None then Some (NonKeyColumnInMutationWhere, column)
     else if pk_pos \<noteq> None \<and> op \<noteq> OpEq \<and> op \<noteq> OpIn then Some (NonEqInOnPartitionKeyMutation, operator_label op)
     else validate_mutation_where tbl rels }"
| "validate_mutation_where tbl (_ # rels) = validate_mutation_where tbl rels"

definition is_token_relation :: "relation \<Rightarrow> bool" where
  "is_token_relation rel \<longleftrightarrow> (case rel of TokenRelation _ _ _ \<Rightarrow> True | _ \<Rightarrow> False)"

definition first_pk_name :: "table \<Rightarrow> bytes option" where
  "first_pk_name tbl = do { ci \<leftarrow> pk_index tbl 0; c \<leftarrow> col_at tbl ci; Some (col_name c) }"

text \<open>The checks that both statements make before they look for the rows.\<close>

definition check_mutation_where :: "eval_context \<Rightarrow> table \<Rightarrow> relation list \<Rightarrow> plan_result option" where
  "check_mutation_where ctx tbl rels =
     (if where_has_unset_binding rels ctx then Some (UnsetValueInWhere, [])
      else if list_ex is_token_relation rels then Some (TokenFunctionInMutation, [])
      else validate_mutation_where tbl rels)"

definition pk_given :: "row_locator \<Rightarrow> bool" where
  "pk_given loc \<longleftrightarrow> is_equality (pk_bounds loc) \<or> in_values (pk_bounds loc) \<noteq> [] \<or> has_in (pk_bounds loc)"

section \<open>Assignments\<close>

definition toi_type_hint_basic :: "trm_id \<Rightarrow> basic option" where
  "toi_type_hint_basic t = (case t of Plain t \<Rightarrow> outer_type_hint_basic t | _ \<Rightarrow> None)"

fun duplicate_assignment :: "bytes list \<Rightarrow> assignment list \<Rightarrow> bytes option" where
  "duplicate_assignment seen [] = None"
| "duplicate_assignment seen (a # as) =
     (if list_ex (str_eq (asg_column a)) seen then Some (asg_column a)
      else duplicate_assignment (seen @ [asg_column a]) as)"

text \<open>An assignment is refused, is skipped, or adds an update.\<close>

datatype assigned = Refused plan_result | Skipped | Assigned column_update

definition refused :: "plan_error \<Rightarrow> bytes \<Rightarrow> assigned" where
  "refused err context = Refused (err, context)"

definition check_type_hint :: "column \<Rightarrow> trm_id \<Rightarrow> assigned option" where
  "check_type_hint c value = (case (col_type c, toi_type_hint_basic value) of
       (TBasic dest, Some hint) \<Rightarrow>
         if type_compatible_for_assignment hint dest then None
         else Some (refused TypeMismatch (ascii ''Cannot assign value of type '' @ basic_to_str hint @
           ascii '' to column '' @ col_name c @ ascii '' of type '' @ basic_to_str dest))
     | _ \<Rightarrow> None)"

definition assign_element ::
    "env \<Rightarrow> eval_context \<Rightarrow> nat \<Rightarrow> column \<Rightarrow> access \<Rightarrow> trm_id \<Rightarrow> world \<Rightarrow> (assigned \<times> world) option" where
  "assign_element env ctx ci c acc value w =
     (if \<not> col_is_collection c
      then Some (refused InvalidSubscriptTarget
        (ascii ''Element-based access is only supported on collection columns: '' @ col_name c), w)
      else case (col_type c, acc) of
          (TSet _ _, _) \<Rightarrow> Some (refused InvalidSubscriptTarget
            (ascii ''Subscript-based assignment is not supported on sets: '' @ col_name c), w)
        | (_, FieldAccess _) \<Rightarrow> Some (refused InvalidSubscriptTarget (ascii ''Field access on non-UDT column: '' @ col_name c), w)
        | (_, Subscript i) \<Rightarrow>
            if twi_has_column_ref value
            then Some (refused InvalidCollectionMutation
              (ascii ''Element-based assignment must not reference other columns: '' @ col_name c), w)
            else do {
              (k, w) \<leftarrow> evaluate_term env ctx i w;
              (v, w) \<leftarrow> evaluate_toi env ctx value w;
              Some (if k = ELit LUnset then refused UnsetSubscriptValue (col_name c)
                    else if v = ELit LUnset then Skipped
                    else Assigned (ci, NewPatch \<lparr>patch_op = SubscriptSet, patch_key = Some k, patch_value = Some v\<rparr>), w) })"

definition compound_patch_op :: "column \<Rightarrow> compound_form \<Rightarrow> plan_result + patch_op" where
  "compound_patch_op c cf =
     (case cf_op cf of
        Plus \<Rightarrow> Inr (if col_on_left cf \<or> (case col_type c of TList _ _ \<Rightarrow> False | _ \<Rightarrow> True) then Append else Prepend)
      | Minus \<Rightarrow>
          if \<not> col_on_left cf
          then Inl (InvalidCollectionMutation, ascii ''Subtraction with a collection on the right is not supported: '' @ col_name c)
          else Inr Subtract
      | _ \<Rightarrow> Inl (InvalidCollectionMutation, ascii ''Only + and - are valid compound operators on collections: '' @ col_name c))"

text \<open>\<open>m - X\<close> takes a set of keys; every other form takes a value of the column's own type.\<close>

definition compound_rhs_type :: "ctype \<Rightarrow> patch_op \<Rightarrow> ctype" where
  "compound_rhs_type t op = (case (t, op) of (TMap k _ _, Subtract) \<Rightarrow> TSet k False | _ \<Rightarrow> t)"

definition assign_compound ::
    "env \<Rightarrow> eval_context \<Rightarrow> nat \<Rightarrow> column \<Rightarrow> compound_form \<Rightarrow> world \<Rightarrow> (assigned \<times> world) option" where
  "assign_compound env ctx ci c cf w =
     (if \<not> col_is_collection c then Some (refused CounterOperationOnNonCounter (col_name c), w)
      else case compound_patch_op c cf of
          Inl err \<Rightarrow> Some (Refused err, w)
        | Inr op \<Rightarrow> do {
            (v, w) \<leftarrow> evaluate_toi env ctx (cf_other cf) w;
            if v = ELit LUnset then Some (Skipped, w)
            else do {
              (rhs_ok, w) \<leftarrow> can_write_evaluated_as_column_value env ctx v (compound_rhs_type (col_type c) op) w;
              Some (if \<not> rhs_ok
                    then refused InvalidCollectionMutation (ascii ''Incompatible right-hand side collection for '' @ col_name c)
                    else Assigned (ci, NewPatch \<lparr>patch_op = op, patch_key = None, patch_value = Some v\<rparr>), w) } })"

definition is_increment_form :: "compound_form option \<Rightarrow> bool" where
  "is_increment_form cf \<longleftrightarrow> (case cf of
       Some cf \<Rightarrow> col_on_left cf \<and> (cf_op cf = Plus \<or> cf_op cf = Minus) | None \<Rightarrow> False)"

definition assign_whole ::
    "env \<Rightarrow> eval_context \<Rightarrow> nat \<Rightarrow> column \<Rightarrow> trm_id \<Rightarrow> world \<Rightarrow> (assigned \<times> world) option" where
  "assign_whole env ctx ci c value w =
     (if twi_has_column_ref value \<and> \<not> col_is_counter c then Some (refused CounterOperationOnNonCounter (col_name c), w)
      else if col_is_counter c \<and> \<not> is_increment_form (match_compound_form value (col_name c))
      then Some (refused CounterAssignmentNotIncrement (col_name c), w)
      else if twi_has_column_ref value then Some (Assigned (ci, NewTerm value), w)
      else do { (v, w) \<leftarrow> evaluate_toi env ctx value w; Some (Assigned (ci, NewEvaluated v), w) })"

definition plan_assignment ::
    "env \<Rightarrow> eval_context \<Rightarrow> table \<Rightarrow> assignment \<Rightarrow> world \<Rightarrow> (assigned \<times> world) option" where
  "plan_assignment env ctx tbl a w = (case find_column tbl (asg_column a) of
       None \<Rightarrow> Some (refused ColumnNotFound (asg_column a), w)
     | Some ci \<Rightarrow> do {
         c \<leftarrow> col_at tbl ci;
         case check_type_hint c (asg_value a) of
           Some r \<Rightarrow> Some (r, w)
         | None \<Rightarrow> (case asg_access a of
             Some acc \<Rightarrow> assign_element env ctx ci c acc (asg_value a) w
           | None \<Rightarrow> (case match_compound_form (asg_value a) (col_name c) of
               Some cf \<Rightarrow>
                 if col_is_counter c then assign_whole env ctx ci c (asg_value a) w
                 else assign_compound env ctx ci c cf w
             | None \<Rightarrow> assign_whole env ctx ci c (asg_value a) w)) })"

definition is_static_at :: "table \<Rightarrow> nat \<Rightarrow> bool option" where
  "is_static_at tbl ci = do { c \<leftarrow> col_at tbl ci; Some (is_static c) }"

fun plan_assignments ::
    "env \<Rightarrow> eval_context \<Rightarrow> table \<Rightarrow> assignment list \<Rightarrow> mutation_plan \<Rightarrow> bool \<Rightarrow> world \<Rightarrow>
      (((mutation_plan + mutation_plan) \<times> bool) \<times> world) option" where
  "plan_assignments env ctx tbl [] plan non_static w = Some ((Inr plan, non_static), w)"
| "plan_assignments env ctx tbl (a # as) plan non_static w = do {
     (r, w) \<leftarrow> plan_assignment env ctx tbl a w;
     case r of
       Refused err \<Rightarrow> Some ((Inl (plan\<lparr>mut_status := err\<rparr>), non_static), w)
     | Skipped \<Rightarrow> plan_assignments env ctx tbl as plan non_static w
     | Assigned upd \<Rightarrow> do {
         static \<leftarrow> is_static_at tbl (fst upd);
         plan_assignments env ctx tbl as (plan\<lparr>updates := updates plan @ [upd]\<rparr>) (non_static \<or> \<not> static) w } }"

section \<open>\<open>UPDATE\<close>\<close>

text \<open>The key columns of a new row come from the equalities of the clause.\<close>

definition key_update :: "env \<Rightarrow> eval_context \<Rightarrow> relation \<Rightarrow> nat option \<Rightarrow> mutation_plan \<Rightarrow> world \<Rightarrow> (mutation_plan \<times> world) option" where
  "key_update env ctx rel ci plan w = (case (rel, ci) of
       (ColumnRelation _ _ value, Some ci) \<Rightarrow> do {
         (v, w) \<leftarrow> evaluate_term env ctx value w;
         Some (plan\<lparr>updates := updates plan @ [(ci, NewEvaluated v)]\<rparr>, w) }
     | _ \<Rightarrow> Some (plan, w))"

definition key_updates :: "env \<Rightarrow> eval_context \<Rightarrow> table \<Rightarrow> relation \<Rightarrow> mutation_plan \<Rightarrow> world \<Rightarrow> (mutation_plan \<times> world) option" where
  "key_updates env ctx tbl rel plan w = (case rel of
       ColumnRelation column OpEq _ \<Rightarrow> do {
         pk_pos \<leftarrow> find_pk_position tbl column;
         (plan, w) \<leftarrow> key_update env ctx rel (Option.bind pk_pos (pk_index tbl)) plan w;
         ck_pos \<leftarrow> find_ck_position tbl column;
         key_update env ctx rel (Option.bind ck_pos (ck_index tbl)) plan w }
     | _ \<Rightarrow> Some (plan, w))"

definition ck_given :: "row_locator \<Rightarrow> bool" where
  "ck_given loc \<longleftrightarrow> is_equality (ck_bounds loc) \<or> in_values (ck_bounds loc) \<noteq> [] \<or> has_in (ck_bounds loc)"

definition plan_update ::
    "env \<Rightarrow> eval_context \<Rightarrow> table \<Rightarrow> update_stmt \<Rightarrow> world \<Rightarrow> (mutation_plan \<times> world) option" where
  "plan_update env ctx tbl stmt w = do {
     checked_where \<leftarrow> check_mutation_where ctx tbl (update_where stmt);
     if fst checked_where \<noteq> NoPlanError then Some (empty_mutation\<lparr>mut_status := checked_where\<rparr>, w)
     else case duplicate_assignment [] (assignments stmt) of
       Some name \<Rightarrow> Some (fail DuplicateColumnInMutation name empty_mutation, w)
     | None \<Rightarrow> do {
         ((loc, flt), w) \<leftarrow> build_row_locator env ctx tbl (update_where stmt) w;
         let plan = empty_mutation\<lparr>mut_locator := loc, mut_filter := flt\<rparr>;
         if \<not> pk_given loc then do { name \<leftarrow> first_pk_name tbl; Some (fail MissingPartitionKey name plan, w) }
         else do {
           ((r, non_static), w) \<leftarrow> plan_assignments env ctx tbl (assignments stmt) plan False w;
           case r of
             Inl plan \<Rightarrow> Some (plan, w)
           | Inr plan \<Rightarrow>
               if clustering_key_col_indices tbl \<noteq> [] \<and> \<not> ck_given loc \<and> non_static
               then do { name \<leftarrow> ck_name tbl 0; Some (fail MissingClusteringKey name plan, w) }
               else if clustering_key_col_indices tbl \<noteq> [] \<and> ck_given loc \<and> \<not> non_static
               then Some (fail StaticOnlyUpdateWithCK [] plan, w)
               else fold_io (key_updates env ctx tbl) (update_where stmt) plan w } } }"

section \<open>\<open>DELETE\<close>\<close>

definition ck_given_or_range :: "row_locator \<Rightarrow> bool" where
  "ck_given_or_range loc \<longleftrightarrow> ck_given loc \<or> has_begin (ck_bounds loc) \<or> has_end (ck_bounds loc)"

definition plan_selection ::
    "env \<Rightarrow> eval_context \<Rightarrow> table \<Rightarrow> nat \<Rightarrow> column \<Rightarrow> access option \<Rightarrow> world \<Rightarrow> (assigned \<times> world) option" where
  "plan_selection env ctx tbl ci c access w =
     (if key_kind c \<noteq> NoKey
      then Some (refused InvalidSubscriptTarget (ascii ''Invalid deletion of primary key part '' @ col_name c), w)
      else case access of
          None \<Rightarrow> Some (Assigned (ci, NewEvaluated (ELit LNull)), w)
        | Some acc \<Rightarrow>
            if \<not> col_is_collection c
            then Some (refused InvalidSubscriptTarget
              (ascii ''Element-based access is only supported on collection columns: '' @ col_name c), w)
            else (case acc of
                FieldAccess _ \<Rightarrow> Some (refused InvalidSubscriptTarget (ascii ''Field access on non-UDT column: '' @ col_name c), w)
              | Subscript i \<Rightarrow> do {
                  (k, w) \<leftarrow> evaluate_term env ctx i w;
                  Some (if k = ELit LUnset
                    then (case col_type c of TList _ _ \<Rightarrow> Skipped | _ \<Rightarrow> refused UnsetSubscriptValue (col_name c))
                    else Assigned (ci, NewPatch \<lparr>patch_op = SubscriptDelete, patch_key = Some k, patch_value = None\<rparr>), w) }))"

fun plan_selections ::
    "env \<Rightarrow> eval_context \<Rightarrow> table \<Rightarrow> (bytes \<times> access option) list \<Rightarrow> mutation_plan \<Rightarrow> bool \<Rightarrow> world \<Rightarrow>
      (((mutation_plan + mutation_plan) \<times> bool) \<times> world) option" where
  "plan_selections env ctx tbl [] plan static_only w = Some ((Inr plan, static_only), w)"
| "plan_selections env ctx tbl ((name, access) # sels) plan static_only w = (case find_column tbl name of
       None \<Rightarrow> Some ((Inl (fail ColumnNotFound name plan), static_only), w)
     | Some ci \<Rightarrow> do {
         c \<leftarrow> col_at tbl ci;
         let static_only = (static_only \<and> is_static c);
         (r, w) \<leftarrow> plan_selection env ctx tbl ci c access w;
         case r of
           Refused err \<Rightarrow> Some ((Inl (plan\<lparr>mut_status := err\<rparr>), static_only), w)
         | Skipped \<Rightarrow> plan_selections env ctx tbl sels plan static_only w
         | Assigned upd \<Rightarrow> plan_selections env ctx tbl sels (plan\<lparr>updates := updates plan @ [upd]\<rparr>) static_only w })"

definition all_static :: "table \<Rightarrow> column_update list \<Rightarrow> bool" where
  "all_static tbl us \<longleftrightarrow> list_all (\<lambda>u. fst u < length (cols tbl) \<longrightarrow> is_static (cols tbl ! fst u)) us"

definition check_delete_ck :: "table \<Rightarrow> mutation_plan \<Rightarrow> mutation_plan option" where
  "check_delete_ck tbl plan =
     (let loc = mut_locator plan;
          pk_will_be_empty = has_in (pk_bounds loc) \<and> in_values (pk_bounds loc) = []
      in if \<not> is_full_delete plan \<and> \<not> pk_will_be_empty \<and> clustering_key_col_indices tbl \<noteq> [] \<and>
           \<not> ck_given_or_range loc \<and> \<not> all_static tbl (updates plan)
         then do { name \<leftarrow> ck_name tbl 0; Some (fail MissingClusteringKey name plan) }
         else Some plan)"

definition plan_delete ::
    "env \<Rightarrow> eval_context \<Rightarrow> table \<Rightarrow> delete_stmt \<Rightarrow> world \<Rightarrow> (mutation_plan \<times> world) option" where
  "plan_delete env ctx tbl stmt w = do {
     checked_where \<leftarrow> check_mutation_where ctx tbl (delete_where stmt);
     if fst checked_where \<noteq> NoPlanError then Some (empty_mutation\<lparr>mut_status := checked_where\<rparr>, w)
     else do {
       ((loc, flt), w) \<leftarrow> build_row_locator env ctx tbl (delete_where stmt) w;
       let plan = empty_mutation\<lparr>mut_locator := loc, mut_filter := flt\<rparr>;
       if \<not> pk_given loc then do { name \<leftarrow> first_pk_name tbl; Some (fail MissingPartitionKey name plan, w) }
       else if selections stmt = [] then do {
         plan \<leftarrow> check_delete_ck tbl (plan\<lparr>is_full_delete := True\<rparr>);
         Some (plan, w) }
       else do {
         ((r, static_only), w) \<leftarrow> plan_selections env ctx tbl (selections stmt) plan True w;
         case r of
           Inl plan \<Rightarrow> Some (plan, w)
         | Inr plan \<Rightarrow>
             if static_only \<and> ck_given_or_range loc then Some (fail StaticOnlyDeleteWithCK [] plan, w)
             else if \<not> static_only \<and> (has_begin (ck_bounds loc) \<or> has_end (ck_bounds loc)) \<and> \<not> is_equality (ck_bounds loc)
             then Some (fail RangeDeletionOnSpecificColumns [] plan, w)
             else do { plan \<leftarrow> check_delete_ck tbl plan; Some (plan, w) } } } }"

section \<open>What an accepted mutation does\<close>

definition column_of :: "table \<Rightarrow> column_update \<Rightarrow> column option" where
  "column_of tbl u = col_at tbl (fst u)"

text \<open>A deleted column is set to null; a deleted element is one of a collection.\<close>

definition deletes_soundly :: "table \<Rightarrow> column_update \<Rightarrow> bool" where
  "deletes_soundly tbl u \<longleftrightarrow> (case column_of tbl u of
       None \<Rightarrow> False
     | Some c \<Rightarrow> key_kind c = NoKey \<and>
         (case snd u of
            NewEvaluated v \<Rightarrow> v = ELit LNull
          | NewPatch p \<Rightarrow> patch_op p = SubscriptDelete \<and> col_is_collection c \<and> patch_key p \<noteq> None
          | NewTerm _ \<Rightarrow> False))"

lemma plan_selection_sound:
  assumes "plan_selection env ctx tbl ci c access w = Some (Assigned u, w')" "col_at tbl ci = Some c"
  shows "deletes_soundly tbl u"
  using assms
  by (auto simp: plan_selection_def refused_def deletes_soundly_def column_of_def bind_eq_Some_conv
      split: if_splits option.splits access.splits ctype.splits)

lemma plan_selection_refused:
  "plan_selection env ctx tbl ci c access w = Some (Refused err, w') \<Longrightarrow> fst err \<noteq> NoPlanError"
  by (auto simp: plan_selection_def refused_def bind_eq_Some_conv split: if_splits option.splits access.splits ctype.splits)

lemma plan_selections_step:
  assumes "plan_selections env ctx tbl (sel # sels) plan so w = Some ((res, so'), w')"
  obtains (missing) "res = Inl (fail ColumnNotFound (fst sel) plan)"
    | (found) ci c r w1 where "col_at tbl ci = Some c" "plan_selection env ctx tbl ci c (snd sel) w = Some (r, w1)"
      "(case r of
         Refused err \<Rightarrow> Some ((Inl (plan\<lparr>mut_status := err\<rparr>), so \<and> is_static c), w1)
       | Skipped \<Rightarrow> plan_selections env ctx tbl sels plan (so \<and> is_static c) w1
       | Assigned upd \<Rightarrow> plan_selections env ctx tbl sels (plan\<lparr>updates := updates plan @ [upd]\<rparr>) (so \<and> is_static c) w1) =
      Some ((res, so'), w')"
  using assms by (cases sel) (auto simp: bind_eq_Some_conv Let_def split: option.split_asm)

lemma plan_selections_sound:
  assumes "plan_selections env ctx tbl sels plan so w = Some ((Inr plan', so'), w')"
    and "list_all (deletes_soundly tbl) (updates plan)"
  shows "list_all (deletes_soundly tbl) (updates plan') \<and> mut_locator plan' = mut_locator plan \<and>
    is_full_delete plan' = is_full_delete plan \<and> mut_status plan' = mut_status plan"
  using assms
proof (induction sels arbitrary: plan so w)
  case (Cons sel sels)
  from Cons.prems(1) show ?case
  proof (cases rule: plan_selections_step)
    case (found ci c r w1)
    show ?thesis
    proof (cases r)
      case (Assigned u)
      then have "deletes_soundly tbl u" using plan_selection_sound found(1,2) by auto
      then show ?thesis
        using Cons.IH [of "plan\<lparr>updates := updates plan @ [u]\<rparr>"] found(3) Assigned Cons.prems(2) by auto
    qed (use Cons.IH [of plan] found(3) Cons.prems(2) in auto)
  qed simp
qed simp

lemma plan_selections_refused:
  "plan_selections env ctx tbl sels plan so w = Some ((Inl plan', so'), w') \<Longrightarrow> fst (mut_status plan') \<noteq> NoPlanError"
proof (induction sels arbitrary: plan so w)
  case (Cons sel sels)
  from Cons.prems show ?case
  proof (cases rule: plan_selections_step)
    case (found ci c r w1)
    then show ?thesis using Cons.IH plan_selection_refused by (cases r) auto
  qed simp
qed simp

definition names_range :: "row_locator \<Rightarrow> bool" where
  "names_range loc \<longleftrightarrow> (has_begin (ck_bounds loc) \<or> has_end (ck_bounds loc)) \<and> \<not> is_equality (ck_bounds loc)"

lemma check_delete_ck_keeps:
  "check_delete_ck tbl plan = Some plan' \<Longrightarrow> fst (mut_status plan') = NoPlanError \<Longrightarrow> plan' = plan"
  by (auto simp: check_delete_ck_def Let_def bind_eq_Some_conv split: if_splits)


lemmas literals = resolve_literal_scalar_def is_literal_integer_family_def narrow_s64_literal_def

lemma example_token: "\<exists>tok. compute_partition_token_from_evals example_fpu example_table [ELit (LInt 1)] = Some tok"
  by (simp add: compute_partition_token_from_evals_def example_table_indices eval_to_cv_def literals write_component_def)

lemmas example_run = plan_delete_def check_mutation_where_def where_has_unset_binding_def is_token_relation_def
  example_table_indices example_cols find_pk_position_def find_ck_position_def find_key_position_def col_at_def
  find_column_def build_row_locator_def initial_where_def init_constraints_def locate_column_def locate_pk_def locate_ck_def
  is_null_eval_def is_inequality_def pk_index_def ck_index_def try_capture_index_def col_is_indexed_def empty_locator_def
  empty_bounds_def empty_filter_def where_edits finish_pk_def all_positions_eq_def drain_eq_combo_def set_pk_bounds_def
  point_def finish_ck_def all_positions_covered_def any_empty_in_def finish_prefix_def set_ck_bounds_def prefix_range_def
  validate_chain_def chain_break_def broken_before_def restricted_def eq_or_in_def require_gap_filtering_def
  prefer_partition_def set_eq_prefix_len_def pk_given_def check_delete_ck_def upt_rec


text \<open>A counter changes by an increment of itself, a collection by a patch or as a whole, any other column to a value.\<close>

definition assigns_soundly :: "table \<Rightarrow> column_update \<Rightarrow> bool" where
  "assigns_soundly tbl u \<longleftrightarrow> (case column_of tbl u of
       None \<Rightarrow> False
     | Some c \<Rightarrow> (case snd u of
           NewEvaluated v \<Rightarrow> \<not> col_is_counter c
         | NewTerm t \<Rightarrow> col_is_counter c \<and> is_increment_form (match_compound_form t (col_name c))
         | NewPatch p \<Rightarrow> col_is_collection c \<and> patch_value p \<noteq> None \<and>
             (patch_op p = SubscriptSet \<longrightarrow> patch_key p \<noteq> None \<and> (\<forall>e f. col_type c \<noteq> TSet e f))))"

lemma increment_has_column:
  assumes "is_increment_form (match_compound_form t name)"
  shows "twi_has_column_ref t"
proof -
  obtain cf where cf: "match_compound_form t name = Some cf" using assms by (auto simp: is_increment_form_def split: option.splits)
  then obtain l op r where t: "t = IdArith l op r" by (auto simp: match_compound_form_def split: trm_id.splits)
  have "(case side of Column n \<Rightarrow> str_eq n name | _ \<Rightarrow> False) \<Longrightarrow> twi_has_column_ref side" for side by (cases side) auto
  then show ?thesis using cf unfolding t match_compound_form_def by (simp only: trm_id.case Let_def twi_has_column_ref.simps split: if_splits) auto
qed

definition sound_outcome :: "table \<Rightarrow> assigned \<Rightarrow> bool" where
  "sound_outcome tbl r \<longleftrightarrow> (case r of
       Refused err \<Rightarrow> fst err \<noteq> NoPlanError | Skipped \<Rightarrow> True | Assigned u \<Rightarrow> assigns_soundly tbl u)"

lemma sound_outcome_simps [simp]:
  "sound_outcome tbl (Refused err) \<longleftrightarrow> fst err \<noteq> NoPlanError" "sound_outcome tbl Skipped"
  "sound_outcome tbl (refused e m) \<longleftrightarrow> e \<noteq> NoPlanError" "sound_outcome tbl (Assigned u) \<longleftrightarrow> assigns_soundly tbl u"
  by (simp_all add: sound_outcome_def refused_def)

lemma assign_whole_sound:
  assumes "assign_whole env ctx ci c value w = Some (r, w')" "col_at tbl ci = Some c"
  shows "sound_outcome tbl r"
  using assms increment_has_column [of "value" "col_name c"]
  by (auto simp: assign_whole_def assigns_soundly_def column_of_def bind_eq_Some_conv split: if_splits)

lemma assign_element_sound:
  assumes "assign_element env ctx ci c acc value w = Some (r, w')" "col_at tbl ci = Some c"
  shows "sound_outcome tbl r"
proof (cases "\<exists>e f. col_type c = TSet e f")
  case False
  then show ?thesis
    using assms
    by (cases "col_type c"; cases acc)
      (auto simp: assign_element_def assigns_soundly_def column_of_def bind_eq_Some_conv split: if_splits)
qed (use assms in \<open>auto simp: assign_element_def split: if_splits\<close>)

lemma compound_patch_op_refuses: "compound_patch_op c cf = Inl err \<Longrightarrow> fst err \<noteq> NoPlanError"
  by (cases "cf_op cf") (auto simp: compound_patch_op_def split: if_splits)

lemma compound_patch_op_sets: "compound_patch_op c cf = Inr op \<Longrightarrow> op \<noteq> SubscriptSet"
  by (cases "cf_op cf") (auto simp: compound_patch_op_def split: if_splits)

lemma assign_compound_sound:
  assumes "assign_compound env ctx ci c cf w = Some (r, w')" "col_at tbl ci = Some c"
  shows "sound_outcome tbl r"
  using assms compound_patch_op_refuses [of c cf] compound_patch_op_sets [of c cf]
  by (cases "compound_patch_op c cf")
    (auto simp: assign_compound_def assigns_soundly_def column_of_def bind_eq_Some_conv split: if_splits)

lemma check_type_hint_refuses: "check_type_hint c value = Some r \<Longrightarrow> sound_outcome tbl r"
  by (auto simp: check_type_hint_def split: ctype.splits option.splits if_splits)

lemma plan_assignment_sound:
  assumes "plan_assignment env ctx tbl a w = Some (r, w')"
  shows "sound_outcome tbl r"
proof (cases "find_column tbl (asg_column a)")
  case None
  with assms show ?thesis by (auto simp: plan_assignment_def)
next
  case (Some ci)
  with assms obtain c where c: "col_at tbl ci = Some c" by (auto simp: plan_assignment_def bind_eq_Some_conv)
  note sound = assign_whole_sound [OF _ c] assign_element_sound [OF _ c] assign_compound_sound [OF _ c]
  show ?thesis
  proof (cases "check_type_hint c (asg_value a)")
    case None
    then show ?thesis
      using assms Some c sound
      by (cases "asg_access a"; cases "match_compound_form (asg_value a) (col_name c)")
        (auto simp: plan_assignment_def split: if_splits)
  next
    case (Some r')
    then have "r = r'" using assms \<open>find_column tbl (asg_column a) = Some ci\<close> c by (simp add: plan_assignment_def)
    then show ?thesis using check_type_hint_refuses Some by blast
  qed
qed

lemma plan_assignments_sound:
  assumes "plan_assignments env ctx tbl as plan ns w = Some ((Inr plan', ns'), w')"
  shows "\<exists>ups. plan' = plan\<lparr>updates := updates plan @ ups\<rparr> \<and> list_all (assigns_soundly tbl) ups \<and> length ups \<le> length as \<and>
    (ns' \<longleftrightarrow> ns \<or> list_ex (\<lambda>u. is_static_at tbl (fst u) = Some False) ups)"
  using assms
proof (induction as arbitrary: plan ns w)
  case Nil
  then show ?case by (intro exI [of _ "[]"]) simp
next
  case (Cons a as)
  from Cons.prems obtain r w1 where r: "plan_assignment env ctx tbl a w = Some (r, w1)" by (auto simp: bind_eq_Some_conv)
  show ?case
  proof (cases r)
    case (Refused err)
    then show ?thesis using Cons.prems r by simp
  next
    case Skipped
    with Cons.prems r have "plan_assignments env ctx tbl as plan ns w1 = Some ((Inr plan', ns'), w')" by simp
    from Cons.IH [OF this] show ?thesis by (metis le_SucI list.size(4) add.right_neutral add_Suc_right)
  next
    case (Assigned u)
    with Cons.prems r obtain st where st: "is_static_at tbl (fst u) = Some st"
      "plan_assignments env ctx tbl as (plan\<lparr>updates := updates plan @ [u]\<rparr>) (ns \<or> \<not> st) w1 = Some ((Inr plan', ns'), w')"
      by (auto simp: bind_eq_Some_conv)
    from Cons.IH [OF st(2)] obtain ups where "plan' = plan\<lparr>updates := updates plan @ u # ups\<rparr>" "list_all (assigns_soundly tbl) ups"
      "length ups \<le> length as" "ns' \<longleftrightarrow> (ns \<or> \<not> st) \<or> list_ex (\<lambda>u. is_static_at tbl (fst u) = Some False) ups"
      by auto
    then show ?thesis
      using st(1) plan_assignment_sound [OF r] by (intro exI [of _ "u # ups"]) (auto simp: Assigned)
  qed
qed

lemma plan_assignments_refused:
  "plan_assignments env ctx tbl as plan ns w = Some ((Inl plan', ns'), w') \<Longrightarrow> fst (mut_status plan') \<noteq> NoPlanError"
proof (induction as arbitrary: plan ns w)
  case (Cons a as)
  from Cons.prems obtain r w1 where r: "plan_assignment env ctx tbl a w = Some (r, w1)" by (auto simp: bind_eq_Some_conv)
  then show ?case
    using Cons.prems Cons.IH plan_assignment_sound [OF r] by (cases r) (auto simp: bind_eq_Some_conv)
qed simp

definition sets_key :: "table \<Rightarrow> column_update \<Rightarrow> bool" where
  "sets_key tbl u \<longleftrightarrow> fst u \<in> set (partition_key_col_indices tbl @ clustering_key_col_indices tbl) \<and>
     (\<exists>v. snd u = NewEvaluated v)"

lemma key_update_sound:
  assumes "key_update env ctx rel ci plan w = Some (plan', w')"
    and "\<forall>i. ci = Some i \<longrightarrow> i \<in> set (partition_key_col_indices tbl @ clustering_key_col_indices tbl)"
  shows "\<exists>ks. plan' = plan\<lparr>updates := updates plan @ ks\<rparr> \<and> list_all (sets_key tbl) ks"
proof (cases "\<exists>c op v i. rel = ColumnRelation c op v \<and> ci = Some i")
  case True
  then obtain c op v i where "rel = ColumnRelation c op v" "ci = Some i" by blast
  with assms(1) obtain e where "plan' = plan\<lparr>updates := updates plan @ [(i, NewEvaluated e)]\<rparr>"
    by (auto simp: key_update_def bind_eq_Some_conv)
  with assms(2) \<open>ci = Some i\<close> show ?thesis by (intro exI [of _ "[(i, NewEvaluated e)]"]) (simp add: sets_key_def)
next
  case False
  then show ?thesis
    using assms(1) by (intro exI [of _ "[]"]) (auto simp: key_update_def split: relation.splits option.splits)
qed

lemma key_updates_sound:
  assumes "key_updates env ctx tbl rel plan w = Some (plan', w')"
  shows "\<exists>ks. plan' = plan\<lparr>updates := updates plan @ ks\<rparr> \<and> list_all (sets_key tbl) ks"
proof (cases "\<exists>column v. rel = ColumnRelation column OpEq v")
  case True
  then obtain column v where rel: "rel = ColumnRelation column OpEq v" by blast
  with assms obtain pk_pos ck_pos plan1 w1 where
    k: "key_update env ctx rel (Option.bind pk_pos (pk_index tbl)) plan w = Some (plan1, w1)"
      "key_update env ctx rel (Option.bind ck_pos (ck_index tbl)) plan1 w1 = Some (plan', w')"
    by (auto simp: key_updates_def bind_eq_Some_conv)
  have "i \<in> set (partition_key_col_indices tbl @ clustering_key_col_indices tbl)"
    if "Option.bind pk_pos (pk_index tbl) = Some i \<or> Option.bind ck_pos (ck_index tbl) = Some i" for i
    using that by (auto simp: bind_eq_Some_conv pk_index_def ck_index_def split: if_splits)
  then obtain ks ks' where "plan1 = plan\<lparr>updates := updates plan @ ks\<rparr>" "plan' = plan1\<lparr>updates := updates plan1 @ ks'\<rparr>"
      "list_all (sets_key tbl) ks" "list_all (sets_key tbl) ks'"
    using key_update_sound [OF k(1)] key_update_sound [OF k(2)] by blast
  then show ?thesis by (intro exI [of _ "ks @ ks'"]) simp
next
  case False
  then show ?thesis
    using assms by (intro exI [of _ "[]"]) (auto simp: key_updates_def split: relation.splits operator.splits)
qed

lemma all_key_updates_sound:
  assumes "fold_io (key_updates env ctx tbl) rels plan w = Some (plan', w')"
  shows "\<exists>ks. plan' = plan\<lparr>updates := updates plan @ ks\<rparr> \<and> list_all (sets_key tbl) ks"
  using assms
proof (induction rels arbitrary: plan w)
  case Nil
  then show ?case by (intro exI [of _ "[]"]) simp
next
  case (Cons rel rels)
  then obtain plan1 w1 where k: "key_updates env ctx tbl rel plan w = Some (plan1, w1)"
      "fold_io (key_updates env ctx tbl) rels plan1 w1 = Some (plan', w')"
    by (auto simp: bind_eq_Some_conv)
  obtain ks ks' where "plan1 = plan\<lparr>updates := updates plan @ ks\<rparr>" "plan' = plan1\<lparr>updates := updates plan1 @ ks'\<rparr>"
      "list_all (sets_key tbl) ks" "list_all (sets_key tbl) ks'"
    using key_updates_sound [OF k(1)] Cons.IH [OF k(2)] by blast
  then show ?case by (intro exI [of _ "ks @ ks'"]) simp
qed


lemma example_key_bytes:
  "\<exists>k. encode_clustering example_fpu example_table [ELit (LInt 9), ELit (LInt 1)] = Some k"
  by (simp add: encode_clustering_def encode_clustering_prefix_def example_table_indices eval_to_cv_def literals
      append_component_def write_value.simps checked_def can_write_value_def)


end
