(* ===== verification/RowScan.thy ===== *)
theory RowScan
  imports PlanMutation Key
begin

text \<open>
  The rows of one partition that a plan reaches: the clustering part of the row iterator
  (\<open>cql/engine/it.cpp\<close>, lines 231 to 376) and the collection of the rows that a \<open>DELETE\<close> removes
  (\<open>apply_mutation\<close> in \<open>cql/engine/engine.cpp\<close>).

  The B-tree of a partition is the list of its keys in ascending order; an iterator is the part of
  the list from its position on, and the end of the tree is the empty list. \<open>compare\<close> is
  \<open>key::compare_clustering\<close> with the specs of the table.
\<close>

type_synonym key_compare = "bytes \<Rightarrow> bytes \<Rightarrow> ordering option"

section \<open>Searching and moving\<close>

fun skip_while :: "('a \<Rightarrow> bool option) \<Rightarrow> 'a list \<Rightarrow> 'a list option" where
  "skip_while p [] = Some []"
| "skip_while p (x # xs) = do { b \<leftarrow> p x; if b then skip_while p xs else Some (x # xs) }"

definition is_less :: "key_compare \<Rightarrow> bytes \<Rightarrow> bytes \<Rightarrow> bool option" where
  "is_less compare b k = do { r \<leftarrow> compare k b; Some (r = Less) }"

definition is_less_equal :: "key_compare \<Rightarrow> bytes \<Rightarrow> bytes \<Rightarrow> bool option" where
  "is_less_equal compare b k = do { r \<leftarrow> compare k b; Some (r \<noteq> Greater) }"

definition is_greater :: "key_compare \<Rightarrow> bytes \<Rightarrow> bytes \<Rightarrow> bool option" where
  "is_greater compare b k = do { r \<leftarrow> compare k b; Some (r = Greater) }"

definition is_greater_equal :: "key_compare \<Rightarrow> bytes \<Rightarrow> bytes \<Rightarrow> bool option" where
  "is_greater_equal compare b k = do { r \<leftarrow> compare k b; Some (r \<noteq> Less) }"

lemmas compare_tests = is_less_def is_less_equal_def is_greater_def is_greater_equal_def

text \<open>The search strategies of the tree, from the front and from the back.\<close>

definition first_greater_equal :: "key_compare \<Rightarrow> bytes \<Rightarrow> bytes list \<Rightarrow> bytes list option" where
  "first_greater_equal compare b keys = skip_while (is_less compare b) keys"

definition first_greater :: "key_compare \<Rightarrow> bytes \<Rightarrow> bytes list \<Rightarrow> bytes list option" where
  "first_greater compare b keys = skip_while (is_less_equal compare b) keys"

definition last_less_equal :: "key_compare \<Rightarrow> bytes \<Rightarrow> bytes list \<Rightarrow> bytes list option" where
  "last_less_equal compare b rkeys = skip_while (is_greater compare b) rkeys"

definition last_less :: "key_compare \<Rightarrow> bytes \<Rightarrow> bytes list \<Rightarrow> bytes list option" where
  "last_less compare b rkeys = skip_while (is_greater_equal compare b) rkeys"

definition ck_key_has_prefix :: "bytes \<Rightarrow> bytes \<Rightarrow> bool" where
  "ck_key_has_prefix bound key \<longleftrightarrow>
     (if ucast (word_of_nat (length bound) :: u64) > (word_of_nat (length key) :: u16) then False
      else bound = [] \<or> take (length bound) key = bound)"

definition past_end :: "key_compare \<Rightarrow> bytes bounds \<Rightarrow> bytes \<Rightarrow> bool option" where
  "past_end compare bd k =
     (if end_inclusive bd then is_greater compare (bound_end bd) k else is_greater_equal compare (bound_end bd) k)"

definition past_begin :: "key_compare \<Rightarrow> bytes bounds \<Rightarrow> bytes \<Rightarrow> bool option" where
  "past_begin compare bd k =
     (if begin_inclusive bd then is_less compare (bound_begin bd) k else is_less_equal compare (bound_begin bd) k)"

section \<open>The rows a \<open>DELETE\<close> removes\<close>

fun collect_until :: "('a \<Rightarrow> bool option) \<Rightarrow> 'a list \<Rightarrow> 'a list option" where
  "collect_until p [] = Some []"
| "collect_until p (k # ks) = do { stop \<leftarrow> p k; if stop then Some [] else map_option ((#) k) (collect_until p ks) }"

definition start_of :: "key_compare \<Rightarrow> bytes bounds \<Rightarrow> bytes list \<Rightarrow> bytes list option" where
  "start_of compare bd keys =
     (if \<not> has_begin bd then Some keys
      else if begin_inclusive bd then first_greater_equal compare (bound_begin bd) keys
      else first_greater compare (bound_begin bd) keys)"

definition skip_prefixed :: "bytes bounds \<Rightarrow> bytes list \<Rightarrow> bytes list" where
  "skip_prefixed bd keys =
     (if begin_is_partial bd \<and> \<not> begin_inclusive bd then dropWhile (ck_key_has_prefix (bound_begin bd)) keys else keys)"

definition collect_range :: "key_compare \<Rightarrow> bytes bounds \<Rightarrow> bytes list \<Rightarrow> bytes list option" where
  "collect_range compare bd it =
     (let it = skip_prefixed bd it
      in if has_end bd then collect_until (past_end compare bd) it else Some it)"

text \<open>Equality looks the key up.\<close>

fun find_key :: "key_compare \<Rightarrow> bytes \<Rightarrow> bytes list \<Rightarrow> bytes list option" where
  "find_key compare b [] = Some []"
| "find_key compare b (k # ks) = do { r \<leftarrow> compare k b; if r = Equal then Some [k] else find_key compare b ks }"

definition deleted_keys :: "key_compare \<Rightarrow> bytes bounds \<Rightarrow> bytes list \<Rightarrow> bytes list option" where
  "deleted_keys compare bd keys =
     (if is_equality bd then find_key compare (bound_begin bd) keys
      else do { it \<leftarrow> start_of compare bd keys; collect_range compare bd it })"

text \<open>The engine runs the mutation for each listed key; an empty list does nothing.\<close>

fun deleted_by_list :: "key_compare \<Rightarrow> bytes bounds \<Rightarrow> bytes list \<Rightarrow> bytes list \<Rightarrow> bytes list option" where
  "deleted_by_list compare bd [] keys = Some []"
| "deleted_by_list compare bd (b # bs) keys = do {
     xs \<leftarrow> deleted_keys compare (bd\<lparr>is_equality := True, bound_begin := b\<rparr>) keys;
     ys \<leftarrow> deleted_by_list compare bd bs (filter (\<lambda>k. k \<notin> set xs) keys);
     Some (xs @ ys) }"

definition apply_for_ck_del :: "key_compare \<Rightarrow> bytes bounds \<Rightarrow> bytes list \<Rightarrow> bytes list option" where
  "apply_for_ck_del compare bd keys =
     (if in_values bd \<noteq> [] then deleted_by_list compare bd (in_values bd) keys
      else if \<not> has_in bd then deleted_keys compare bd keys
      else Some [])"

section \<open>The rows a scan visits\<close>

definition setup_forward :: "key_compare \<Rightarrow> bytes bounds \<Rightarrow> bytes list \<Rightarrow> (bytes list \<times> bytes list) option" where
  "setup_forward compare bd keys = do {
     it \<leftarrow> start_of compare bd keys;
     let it = (if has_begin bd then skip_prefixed bd it else it);
     stop \<leftarrow> (if has_end bd \<and> \<not> end_is_partial bd then
                (if end_inclusive bd then first_greater compare (bound_end bd) keys
                 else first_greater_equal compare (bound_end bd) keys)
              else Some []);
     Some (it, stop) }"

text \<open>Dereferencing the end of the tree traps; the first row is not compared with a partial bound.\<close>

fun walk_forward :: "key_compare \<Rightarrow> bytes bounds \<Rightarrow> bytes list \<Rightarrow> bytes list \<Rightarrow> bytes list option" where
  "walk_forward compare bd stop [] = (if stop = [] then Some [] else None)"
| "walk_forward compare bd stop (k # ks) =
     (if k # ks = stop then Some []
      else do {
        out_of_range \<leftarrow> (if has_end bd \<and> end_is_partial bd \<and> ks \<noteq> stop \<and> ks \<noteq> [] then past_end compare bd (hd ks)
                else Some False);
        rest \<leftarrow> (if out_of_range then (if stop = [] then Some [] else None) else walk_forward compare bd stop ks);
        Some (k # rest) })"

definition forward_scan :: "key_compare \<Rightarrow> bytes bounds \<Rightarrow> bytes list \<Rightarrow> bytes list option" where
  "forward_scan compare bd keys = do {
     (it, stop) \<leftarrow> setup_forward compare bd keys;
     walk_forward compare bd stop it }"

definition reverse_start :: "key_compare \<Rightarrow> bytes bounds \<Rightarrow> bytes list \<Rightarrow> bytes list option" where
  "reverse_start compare bd keys = do {
     it \<leftarrow> (if has_end bd \<and> \<not> end_is_partial bd then
              (if end_inclusive bd then last_less_equal compare (bound_end bd) (rev keys)
               else last_less compare (bound_end bd) (rev keys))
            else Some (rev keys));
     if has_end bd \<and> end_is_partial bd then skip_while (past_end compare bd) it else Some it }"

definition setup_reverse :: "key_compare \<Rightarrow> bytes bounds \<Rightarrow> bytes list \<Rightarrow> bytes list option" where
  "setup_reverse compare bd keys = do {
     it \<leftarrow> reverse_start compare bd keys;
     case it of
       [] \<Rightarrow> Some []
     | k # ks \<Rightarrow>
         if has_begin bd then do { p \<leftarrow> past_begin compare bd k; Some (if p then [] else it) } else Some it }"

fun walk_reverse :: "key_compare \<Rightarrow> bytes bounds \<Rightarrow> bytes list \<Rightarrow> bytes list option" where
  "walk_reverse compare bd [] = Some []"
| "walk_reverse compare bd (k # ks) = do {
     out_of_range \<leftarrow> (if has_begin bd \<and> ks \<noteq> [] then past_begin compare bd (hd ks) else Some False);
     rest \<leftarrow> (if out_of_range then Some [] else walk_reverse compare bd ks);
     Some (k # rest) }"

definition reverse_scan :: "key_compare \<Rightarrow> bytes bounds \<Rightarrow> bytes list \<Rightarrow> bytes list option" where
  "reverse_scan compare bd keys = do { it \<leftarrow> setup_reverse compare bd keys; walk_reverse compare bd it }"

section \<open>Loops over a monotone test\<close>

lemma skip_while_filter:
  assumes "\<forall>x \<in> set xs. p x = Some (q x)" "sorted_wrt (\<lambda>x y. q y \<longrightarrow> q x) xs"
  shows "skip_while p xs = Some (filter (\<lambda>x. \<not> q x) xs)"
  using assms
proof (induction xs)
  case (Cons x xs)
  show ?case
  proof (cases "q x")
    case False
    with Cons.prems(2) have "filter (\<lambda>x. \<not> q x) xs = xs" by (auto simp: filter_id_conv)
    with False Cons.prems(1) show ?thesis by simp
  qed (use Cons in simp)
qed simp

lemma collect_until_filter:
  assumes "\<forall>x \<in> set xs. p x = Some (q x)" "sorted_wrt (\<lambda>x y. q x \<longrightarrow> q y) xs"
  shows "collect_until p xs = Some (filter (\<lambda>x. \<not> q x) xs)"
  using assms
proof (induction xs)
  case (Cons x xs)
  show ?case
  proof (cases "q x")
    case True
    with Cons.prems(2) have "filter (\<lambda>x. \<not> q x) xs = []" by (auto simp: filter_empty_conv)
    with True Cons.prems(1) show ?thesis by simp
  qed (use Cons in simp)
qed simp

lemma sorted_wrt_filter_weaken: "sorted_wrt P xs \<Longrightarrow> sorted_wrt P (filter Q xs)"
  by (rule sorted_wrt_filter)

lemma sorted_wrt_rev_flip: "sorted_wrt P xs \<Longrightarrow> sorted_wrt (\<lambda>x y. P y x) (rev xs)"
  by (simp add: sorted_wrt_rev)

section \<open>Bounds over an ordered partition\<close>

text \<open>
  The contract between the iterator and the comparison of keys: \<open>ascending\<close> describes the keys of a
  partition, \<open>bound\<close> the keys a plan may compare them with, which can be shorter.
\<close>

definition after_begin :: "key_compare \<Rightarrow> bytes bounds \<Rightarrow> bytes \<Rightarrow> bool" where
  "after_begin compare bd k \<longleftrightarrow> (if begin_inclusive bd then compare k (bound_begin bd) \<noteq> Some Less
                                else compare k (bound_begin bd) = Some Greater)"

definition before_end :: "key_compare \<Rightarrow> bytes bounds \<Rightarrow> bytes \<Rightarrow> bool" where
  "before_end compare bd k \<longleftrightarrow> (if end_inclusive bd then compare k (bound_end bd) \<noteq> Some Greater
                               else compare k (bound_end bd) = Some Less)"

definition in_bounds :: "key_compare \<Rightarrow> bytes bounds \<Rightarrow> bytes \<Rightarrow> bool" where
  "in_bounds compare bd k \<longleftrightarrow>
     (has_begin bd \<longrightarrow> after_begin compare bd k) \<and> (has_end bd \<longrightarrow> before_end compare bd k)"

locale key_range =
  fixes compare :: key_compare and ascending :: "bytes list \<Rightarrow> bool" and bound :: "bytes \<Rightarrow> bool"
  assumes total: "ascending ks \<Longrightarrow> k \<in> set ks \<Longrightarrow> bound b \<Longrightarrow> compare k b \<noteq> None"
    and below: "ascending ks \<Longrightarrow> bound b \<Longrightarrow>
      sorted_wrt (\<lambda>k k'. compare k' b = Some Less \<longrightarrow> compare k b = Some Less) ks"
    and above: "ascending ks \<Longrightarrow> bound b \<Longrightarrow>
      sorted_wrt (\<lambda>k k'. compare k b = Some Greater \<longrightarrow> compare k' b = Some Greater) ks"
    and prefixed: "ascending ks \<Longrightarrow> k \<in> set ks \<Longrightarrow> bound b \<Longrightarrow> ck_key_has_prefix b k \<Longrightarrow> compare k b = Some Equal"
begin

lemma bound_tests:
  assumes "ascending ks" "bound b" "k \<in> set ks"
  shows "is_less compare b k = Some (compare k b = Some Less)"
    "is_less_equal compare b k = Some (compare k b \<noteq> Some Greater)"
    "is_greater compare b k = Some (compare k b = Some Greater)"
    "is_greater_equal compare b k = Some (compare k b \<noteq> Some Less)"
  using total [OF assms(1,3,2)] by (auto simp: compare_tests)

lemma sorted_not_greater:
  "ascending ks \<Longrightarrow> bound b \<Longrightarrow> sorted_wrt (\<lambda>k k'. compare k' b \<noteq> Some Greater \<longrightarrow> compare k b \<noteq> Some Greater) ks"
  by (drule (1) above) (erule sorted_wrt_mono_rel [rotated], auto)

lemma sorted_not_less:
  "ascending ks \<Longrightarrow> bound b \<Longrightarrow> sorted_wrt (\<lambda>k k'. compare k b \<noteq> Some Less \<longrightarrow> compare k' b \<noteq> Some Less) ks"
  by (drule (1) below) (erule sorted_wrt_mono_rel [rotated], auto)

lemma first_searches:
  assumes "ascending ks" "bound b"
  shows "first_greater_equal compare b ks = Some (filter (\<lambda>k. compare k b \<noteq> Some Less) ks)"
    "first_greater compare b ks = Some (filter (\<lambda>k. compare k b = Some Greater) ks)"
proof -
  show "first_greater_equal compare b ks = Some (filter (\<lambda>k. compare k b \<noteq> Some Less) ks)"
    unfolding first_greater_equal_def
    by (rule skip_while_filter) (use bound_tests(1) [OF assms] below [OF assms] in auto)
  have "first_greater compare b ks = Some (filter (\<lambda>k. \<not> compare k b \<noteq> Some Greater) ks)"
    unfolding first_greater_def
    by (rule skip_while_filter) (use bound_tests(2) [OF assms] sorted_not_greater [OF assms] in auto)
  then show "first_greater compare b ks = Some (filter (\<lambda>k. compare k b = Some Greater) ks)" by simp
qed

lemma start_of_filter:
  assumes "ascending ks" "has_begin bd \<Longrightarrow> bound (bound_begin bd)"
  shows "start_of compare bd ks = Some (filter (\<lambda>k. has_begin bd \<longrightarrow> after_begin compare bd k) ks)"
  using first_searches [OF assms(1)] assms(2) by (auto simp: start_of_def after_begin_def)

lemma past_end_test:
  "ascending ks \<Longrightarrow> bound (bound_end bd) \<Longrightarrow> k \<in> set ks \<Longrightarrow> past_end compare bd k = Some (\<not> before_end compare bd k)"
  by (simp add: past_end_def before_end_def bound_tests)

lemma past_begin_test:
  "ascending ks \<Longrightarrow> bound (bound_begin bd) \<Longrightarrow> k \<in> set ks \<Longrightarrow> past_begin compare bd k = Some (\<not> after_begin compare bd k)"
  by (simp add: past_begin_def after_begin_def bound_tests)

lemma past_end_sorted:
  assumes "ascending ks" "bound (bound_end bd)"
  shows "sorted_wrt (\<lambda>k k'. \<not> before_end compare bd k \<longrightarrow> \<not> before_end compare bd k') ks"
  using above [OF assms] sorted_not_less [OF assms] by (cases "end_inclusive bd") (simp_all add: before_end_def)

lemma after_begin_sorted:
  assumes "ascending ks" "bound (bound_begin bd)"
  shows "sorted_wrt (\<lambda>k k'. after_begin compare bd k \<longrightarrow> after_begin compare bd k') ks"
  using above [OF assms] sorted_not_less [OF assms] by (cases "begin_inclusive bd") (simp_all add: after_begin_def)

lemma skip_prefixed_none:
  assumes "ascending ks" "bound (bound_begin bd)" "set it \<subseteq> {k \<in> set ks. after_begin compare bd k}"
  shows "skip_prefixed bd it = it"
  using assms(3) prefixed [OF assms(1) _ assms(2)]
  by (cases it) (auto simp: skip_prefixed_def after_begin_def)

lemma deleted_in_bounds:
  assumes "ascending ks" "\<not> is_equality bd"
    and "has_begin bd \<Longrightarrow> bound (bound_begin bd)" "has_end bd \<Longrightarrow> bound (bound_end bd)"
    and "has_begin bd \<or> \<not> begin_is_partial bd"
  shows "deleted_keys compare bd ks = Some (filter (in_bounds compare bd) ks)"
proof -
  let ?it = "filter (\<lambda>k. has_begin bd \<longrightarrow> after_begin compare bd k) ks"
  have skip: "skip_prefixed bd ?it = ?it"
  proof (cases "has_begin bd")
    case True
    then show ?thesis by (intro skip_prefixed_none [OF assms(1) assms(3)]) auto
  qed (use assms(5) in \<open>simp add: skip_prefixed_def\<close>)
  have "collect_until (past_end compare bd) ?it = Some (filter (\<lambda>k. \<not> \<not> before_end compare bd k) ?it)" if "has_end bd"
    by (rule collect_until_filter)
      (use past_end_test [OF assms(1) assms(4)] past_end_sorted [OF assms(1) assms(4)] that
       in \<open>auto intro: sorted_wrt_filter\<close>)
  then have "collect_range compare bd ?it = Some (filter (in_bounds compare bd) ks)"
    by (auto simp: collect_range_def skip Let_def in_bounds_def [abs_def] conj_commute)
  then show ?thesis using assms(2) start_of_filter [OF assms(1,3)] by (simp add: deleted_keys_def)
qed

text \<open>Forward, with a whole key as the end: the end must not lie before the start.\<close>

lemma walk_forward_filter:
  assumes "\<not> (has_end bd \<and> end_is_partial bd)" "sorted_wrt (\<lambda>k k'. q k \<longrightarrow> q k') it"
  shows "walk_forward compare bd (filter q it) it = Some (filter (\<lambda>k. \<not> q k) it)"
  using assms(2)
proof (induction it)
  case (Cons k it)
  show ?case
  proof (cases "q k")
    case True
    with Cons.prems have "filter q (k # it) = k # it" by (auto simp: filter_id_conv)
    then show ?thesis using True Cons.prems by (simp add: filter_empty_conv)
  next
    case False
    have "k # it \<noteq> filter q it" using length_filter_le [of q it] by (metis impossible_Cons)
    with False Cons assms(1) show ?thesis by auto
  qed
qed simp

lemma walk_forward_overrun:
  "\<not> (has_end bd \<and> end_is_partial bd) \<Longrightarrow> length it < length stop \<Longrightarrow> walk_forward compare bd stop it = None"
  by (induction it) (auto simp: Let_def)

lemma forward_whole:
  assumes "ascending ks" "has_begin bd \<Longrightarrow> bound (bound_begin bd)" "has_end bd \<Longrightarrow> bound (bound_end bd)"
    and "\<not> (has_end bd \<and> end_is_partial bd)"
    and "\<forall>k \<in> set ks. has_begin bd \<and> has_end bd \<and> \<not> before_end compare bd k \<longrightarrow> after_begin compare bd k"
  shows "forward_scan compare bd ks = Some (filter (in_bounds compare bd) ks)"
proof -
  let ?q = "\<lambda>k. has_end bd \<and> \<not> before_end compare bd k"
  let ?it = "filter (\<lambda>k. has_begin bd \<longrightarrow> after_begin compare bd k) ks"
  have skip: "(if has_begin bd then skip_prefixed bd ?it else ?it) = ?it"
    by (cases "has_begin bd") (auto intro!: skip_prefixed_none [OF assms(1) assms(2)])
  have "filter (\<lambda>k. has_end bd \<and> \<not> before_end compare bd k) ks = filter ?q ?it"
    using assms(5) by (auto intro: filter_cong)
  then have stop: "(if has_end bd \<and> \<not> end_is_partial bd then
        (if end_inclusive bd then first_greater compare (bound_end bd) ks
         else first_greater_equal compare (bound_end bd) ks) else Some []) = Some (filter ?q ?it)"
    using assms(4) first_searches [OF assms(1) assms(3)] by (auto simp: before_end_def)
  have "sorted_wrt (\<lambda>k k'. ?q k \<longrightarrow> ?q k') ?it"
    using past_end_sorted [OF assms(1) assms(3)]
    by (cases "has_end bd") (auto intro!: sorted_wrt_filter)
  from walk_forward_filter [OF assms(4) this]
  have "walk_forward compare bd (filter ?q ?it) ?it = Some (filter (in_bounds compare bd) ks)"
    by (simp add: in_bounds_def [abs_def] conj_commute)
  then show ?thesis
    using start_of_filter [OF assms(1,2)] skip stop by (simp add: forward_scan_def setup_forward_def Let_def)
qed

lemma forward_overrun:
  assumes "ascending ks" "bound (bound_begin bd)" "bound (bound_end bd)" "has_begin bd" "has_end bd" "\<not> end_is_partial bd"
    and "k \<in> set ks" "\<not> after_begin compare bd k" "\<not> before_end compare bd k"
    and "\<forall>k \<in> set ks. \<not> in_bounds compare bd k"
  shows "forward_scan compare bd ks = None"
proof -
  let ?it = "filter (\<lambda>k. after_begin compare bd k) ks"
  let ?stop = "filter (\<lambda>k. \<not> before_end compare bd k) ks"
  have skip: "skip_prefixed bd ?it = ?it" by (rule skip_prefixed_none [OF assms(1,2)]) auto
  have stop: "(if end_inclusive bd then first_greater compare (bound_end bd) ks
       else first_greater_equal compare (bound_end bd) ks) = Some ?stop"
    using first_searches [OF assms(1) assms(3)] by (auto simp: before_end_def)
  have "?it = filter (\<lambda>k. after_begin compare bd k) ?stop"
    using assms(4,5,10) by (auto simp: in_bounds_def intro: filter_cong)
  moreover have "length (filter (\<lambda>k. after_begin compare bd k) ?stop) < length ?stop"
    by (rule length_filter_less [of k]) (use assms(7-9) in auto)
  ultimately have "walk_forward compare bd ?stop ?it = None"
    using assms(6) by (intro walk_forward_overrun) auto
  then show ?thesis
    using start_of_filter [OF assms(1,2)] skip stop assms(4,5,6)
    by (simp add: forward_scan_def setup_forward_def Let_def)
qed

text \<open>Forward, with a prefix as the end: the first row may lie behind it, and is left to the filter.\<close>

lemma walk_forward_partial:
  assumes "has_end bd" "end_is_partial bd" "sorted_wrt (\<lambda>k k'. \<not> before_end compare bd k \<longrightarrow> \<not> before_end compare bd k') it"
    and "\<forall>k \<in> set it. past_end compare bd k = Some (\<not> before_end compare bd k)"
  shows "walk_forward compare bd [] it = Some (case it of [] \<Rightarrow> [] | k # ks \<Rightarrow> k # filter (before_end compare bd) ks)"
  using assms(3,4)
proof (induction it rule: induct_list012)
  case (3 k k' ks)
  have tail: "sorted_wrt (\<lambda>k k'. \<not> before_end compare bd k \<longrightarrow> \<not> before_end compare bd k') (k' # ks)"
    using "3.prems"(1) by (simp only: sorted_wrt.simps(2) [of _ k])
  have tests: "\<forall>k \<in> set (k' # ks). past_end compare bd k = Some (\<not> before_end compare bd k)"
    using "3.prems"(2) by (meson list.set_intros(2))
  from "3.IH"(2) [OF tail tests]
  have rest: "walk_forward compare bd [] (k' # ks) = Some (k' # filter (before_end compare bd) ks)"
    by (simp only: list.case)
  from tests have test: "past_end compare bd k' = Some (\<not> before_end compare bd k')"
    by (meson list.set_intros(1))
  from tail have none: "\<not> before_end compare bd k' \<Longrightarrow> filter (before_end compare bd) ks = []"
    by (simp only: sorted_wrt.simps filter_empty_conv) blast
  show ?case
    unfolding walk_forward.simps(2) [of compare bd "[]" k]
    using assms(1,2) rest test none by (cases "before_end compare bd k'") (simp_all del: walk_forward.simps)
qed (use assms in simp_all)

lemma forward_partial:
  assumes "ascending ks" "has_begin bd \<Longrightarrow> bound (bound_begin bd)" "bound (bound_end bd)" "has_end bd" "end_is_partial bd"
  shows "\<exists>out. forward_scan compare bd ks = Some out \<and> filter (in_bounds compare bd) out = filter (in_bounds compare bd) ks"
proof -
  let ?it = "filter (\<lambda>k. has_begin bd \<longrightarrow> after_begin compare bd k) ks"
  have skip: "(if has_begin bd then skip_prefixed bd ?it else ?it) = ?it"
    by (cases "has_begin bd") (auto intro!: skip_prefixed_none [OF assms(1) assms(2)])
  have "walk_forward compare bd [] ?it = Some (case ?it of [] \<Rightarrow> [] | k # ks \<Rightarrow> k # filter (before_end compare bd) ks)"
    by (rule walk_forward_partial [OF assms(4,5)])
      (use past_end_sorted [OF assms(1,3)] past_end_test [OF assms(1,3)] in \<open>auto intro: sorted_wrt_filter\<close>)
  then have scan: "forward_scan compare bd ks = Some (case ?it of [] \<Rightarrow> [] | k # ks \<Rightarrow> k # filter (before_end compare bd) ks)"
    using start_of_filter [OF assms(1,2)] skip assms(4,5) by (simp add: forward_scan_def setup_forward_def Let_def)
  have "filter (in_bounds compare bd) ?it = filter (in_bounds compare bd) ks"
    by (auto simp: in_bounds_def intro: filter_cong)
  moreover have "filter (in_bounds compare bd) (case xs of [] \<Rightarrow> [] | k # ks \<Rightarrow> k # filter (before_end compare bd) ks) =
      filter (in_bounds compare bd) xs" for xs
    using assms(4) by (cases xs) (auto simp: in_bounds_def intro: filter_cong)
  ultimately show ?thesis using scan by metis
qed

text \<open>Backward, both bounds are compared with every row.\<close>

lemma walk_reverse_filter:
  assumes "sorted_wrt (\<lambda>k k'. \<not> p k \<longrightarrow> \<not> p k') it" "\<forall>k \<in> set it. has_begin bd \<longrightarrow> past_begin compare bd k = Some (\<not> p k)"
    and "\<not> has_begin bd \<Longrightarrow> \<forall>k \<in> set it. p k" "it \<noteq> [] \<Longrightarrow> p (hd it)"
  shows "walk_reverse compare bd it = Some (filter p it)"
  using assms
proof (induction it rule: induct_list012)
  case (3 k k' ks)
  have tail: "sorted_wrt (\<lambda>k k'. \<not> p k \<longrightarrow> \<not> p k') (k' # ks)"
    using "3.prems"(1) by (simp only: sorted_wrt.simps(2) [of _ k])
  then have none: "\<not> p k' \<Longrightarrow> filter p ks = []"
    by (simp only: sorted_wrt.simps filter_empty_conv) blast
  have tests: "\<forall>k \<in> set (k' # ks). has_begin bd \<longrightarrow> past_begin compare bd k = Some (\<not> p k)"
    "\<not> has_begin bd \<Longrightarrow> \<forall>k \<in> set (k' # ks). p k"
    using "3.prems"(2,3) by (meson list.set_intros(2))+
  have rest: "walk_reverse compare bd (k' # ks) = Some (filter p (k' # ks))" if "p k'"
    by (rule "3.IH"(2) [OF tail tests(1)]) (erule tests(2), simp only: list.sel that)
  have test: "has_begin bd \<Longrightarrow> past_begin compare bd k' = Some (\<not> p k')" "\<not> has_begin bd \<Longrightarrow> p k'"
    using tests by (meson list.set_intros(1))+
  have "p k" using "3.prems"(4) by simp
  show ?case
    unfolding walk_reverse.simps(2) [of compare bd k]
    using rest test none \<open>p k\<close> by (cases "has_begin bd"; cases "p k'") (simp_all del: walk_reverse.simps)
qed simp_all

lemma last_searches:
  assumes "ascending ks" "bound b"
  shows "last_less_equal compare b (rev ks) = Some (filter (\<lambda>k. compare k b \<noteq> Some Greater) (rev ks))"
    "last_less compare b (rev ks) = Some (filter (\<lambda>k. compare k b = Some Less) (rev ks))"
proof -
  show "last_less_equal compare b (rev ks) = Some (filter (\<lambda>k. compare k b \<noteq> Some Greater) (rev ks))"
    unfolding last_less_equal_def
    by (rule skip_while_filter)
      (use bound_tests(3) [OF assms] sorted_wrt_rev_flip [OF above [OF assms]] in auto)
  have "last_less compare b (rev ks) = Some (filter (\<lambda>k. \<not> compare k b \<noteq> Some Less) (rev ks))"
    unfolding last_less_def
    by (rule skip_while_filter)
      (use bound_tests(4) [OF assms] sorted_wrt_rev_flip [OF sorted_not_less [OF assms]] in auto)
  then show "last_less compare b (rev ks) = Some (filter (\<lambda>k. compare k b = Some Less) (rev ks))" by simp
qed

lemma reverse_start_filter:
  assumes "ascending ks" "has_end bd \<Longrightarrow> bound (bound_end bd)"
  shows "reverse_start compare bd ks = Some (filter (\<lambda>k. has_end bd \<longrightarrow> before_end compare bd k) (rev ks))"
proof (cases "has_end bd \<and> end_is_partial bd")
  case True
  then have b: "bound (bound_end bd)" using assms(2) by simp
  have "skip_while (past_end compare bd) (rev ks) = Some (filter (\<lambda>k. \<not> \<not> before_end compare bd k) (rev ks))"
    by (rule skip_while_filter)
      (use past_end_test [OF assms(1) b] sorted_wrt_rev_flip [OF past_end_sorted [OF assms(1) b]] in auto)
  with True show ?thesis by (simp add: reverse_start_def)
next
  case False
  then show ?thesis using last_searches [OF assms(1) assms(2)] by (auto simp: reverse_start_def before_end_def)
qed

lemma reverse_exact:
  assumes "ascending ks" "has_begin bd \<Longrightarrow> bound (bound_begin bd)" "has_end bd \<Longrightarrow> bound (bound_end bd)"
  shows "reverse_scan compare bd ks = Some (rev (filter (in_bounds compare bd) ks))"
proof -
  let ?it = "filter (\<lambda>k. has_end bd \<longrightarrow> before_end compare bd k) (rev ks)"
  let ?p = "\<lambda>k. has_begin bd \<longrightarrow> after_begin compare bd k"
  have sorted: "sorted_wrt (\<lambda>k k'. \<not> ?p k \<longrightarrow> \<not> ?p k') ?it"
    using sorted_wrt_rev_flip [OF after_begin_sorted [OF assms(1) assms(2)]]
    by (cases "has_begin bd") (auto intro!: sorted_wrt_filter elim!: sorted_wrt_mono_rel [rotated])
  have test: "past_begin compare bd k = Some (\<not> ?p k)" if "k \<in> set ?it" "has_begin bd" for k
    using past_begin_test [OF assms(1) assms(2)] that by auto
  have walk: "walk_reverse compare bd ?it = Some (filter ?p ?it)" if "?it = k # it" "?p k" for k it
    by (rule walk_reverse_filter [OF sorted]) (use test that in auto)
  have none: "filter ?p ?it = []" if "?it = k # it" "\<not> ?p k" for k it
    using sorted that by (auto simp: filter_empty_conv)
  have prep: "setup_reverse compare bd ks = Some (if ?it \<noteq> [] \<and> \<not> ?p (hd ?it) then [] else ?it)"
    using test reverse_start_filter [OF assms(1,3)]
    by (cases ?it) (auto simp: setup_reverse_def simp del: filter.simps)
  have "filter ?p ?it = rev (filter (in_bounds compare bd) ks)"
    by (simp add: rev_filter in_bounds_def [abs_def] conj_commute)
  with prep walk none show ?thesis
    by (cases ?it) (auto simp: reverse_scan_def simp del: filter.simps split: if_splits)
qed

end

section \<open>The clustering keys of a partition\<close>

text \<open>The keys of the rows of a partition, in the order of the tree, and the keys a plan compares them with.\<close>

definition rows_of :: "column_spec list \<Rightarrow> cv list list \<Rightarrow> bool" where
  "rows_of specs rows \<longleftrightarrow>
     list_all (\<lambda>r. full_key specs r \<and> length (enc r) < 2 ^ 16) rows \<and>
     sorted_wrt (\<lambda>a b. lex_compare specs a b = Less) rows"

definition ascending_keys :: "column_spec list \<Rightarrow> bytes list \<Rightarrow> bool" where
  "ascending_keys specs ks \<longleftrightarrow> (\<exists>rows. rows_of specs rows \<and> ks = map enc rows)"

definition key_bound :: "column_spec list \<Rightarrow> bytes \<Rightarrow> bool" where
  "key_bound specs b \<longleftrightarrow> (\<exists>ws. key_of (map fst specs) ws \<and> b = enc ws)"

lemma lex_between:
  assumes "full_key specs us" "full_key specs vs" "list_all2 component (take (length ws) (map fst specs)) ws"
    and "lex_compare specs us vs = Less"
  shows "lex_compare specs vs ws = Less \<Longrightarrow> lex_compare specs us ws = Less"
    "lex_compare specs us ws = Greater \<Longrightarrow> lex_compare specs vs ws = Greater"
  using assms
proof (induction specs arbitrary: us vs ws)
  case (Cons s specs)
  obtain t d where s: "s = (t, d)" by (cases s)
  { case 1
    obtain u us' where u: "us = u # us'" "component t u" "full_key specs us'"
      using 1(2) unfolding s by (rule full_key_cases)
    obtain v vs' where v: "vs = v # vs'" "component t v" "full_key specs vs'"
      using 1(3) unfolding s by (rule full_key_cases)
    from 1(1) obtain w ws' where w: "ws = w # ws'" by (cases ws) (auto simp: v)
    with 1(4) have cw: "component t w" "list_all2 component (take (length ws') (map fst specs)) ws'" by (simp_all add: s)
    note d = 1(1,5) [unfolded s u(1) v(1) w lex_compare_directed]
    show ?case
    proof (cases "directed t d u v = 0")
      case True
      then have "directed t d u w = directed t d v w"
        using direction.equal_cong [of u t v w d] u v cw by simp
      then show ?thesis
        using d True Cons.IH(1) [OF _ u(3) v(3) cw(2)] unfolding s u(1) v(1) w lex_compare_directed
        by (auto split: if_splits)
    next
      case False
      then have "directed t d u v < 0" "directed t d v w \<le> 0" using d by (auto split: if_splits)
      then have "directed t d u w < 0" using direction.lt_le_trans [of u t v w d] u v cw by simp
      then show ?thesis by (simp add: s u(1) w lex_compare_directed del: lex_compare.simps)
    qed
  next
    case 2
    obtain u us' where u: "us = u # us'" "component t u" "full_key specs us'"
      using 2(2) unfolding s by (rule full_key_cases)
    obtain v vs' where v: "vs = v # vs'" "component t v" "full_key specs vs'"
      using 2(3) unfolding s by (rule full_key_cases)
    from 2(1) obtain w ws' where w: "ws = w # ws'" by (cases ws) (auto simp: u)
    with 2(4) have cw: "component t w" "list_all2 component (take (length ws') (map fst specs)) ws'" by (simp_all add: s)
    note d = 2(1,5) [unfolded s u(1) v(1) w lex_compare_directed]
    show ?case
    proof (cases "directed t d u v = 0")
      case True
      then have "directed t d u w = directed t d v w"
        using direction.equal_cong [of u t v w d] u v cw by simp
      then show ?thesis
        using d True Cons.IH(2) [OF _ u(3) v(3) cw(2)] unfolding s u(1) v(1) w lex_compare_directed
        by (auto split: if_splits)
    next
      case False
      then have uv: "directed t d u v < 0" "0 \<le> directed t d u w" using d by (auto split: if_splits)
      have "\<not> directed t d v w \<le> 0"
        using direction.lt_le_trans [of u t v w d] uv u v cw by fastforce
      then show ?thesis by (simp add: s v(1) w lex_compare_directed del: lex_compare.simps)
    qed }
qed simp_all

text \<open>Bytes that begin a key are components that begin it.\<close>

lemma enc_prefix:
  assumes "list_all2 component ts vs" "list_all2 component (take (length ws) ts) ws" "enc vs = enc ws @ r"
  shows "take (length ws) vs = ws"
  using assms
proof (induction ws arbitrary: ts vs)
  case (Cons w ws)
  from Cons.prems(2) obtain t ts' where ts: "ts = t # ts'" "component t w" "list_all2 component (take (length ws) ts') ws"
    by (cases ts) auto
  from Cons.prems(1) ts obtain v vs' where v: "vs = v # vs'" "component t v" "list_all2 component ts' vs'"
    by (auto simp: list_all2_Cons1)
  have "write_typed_basic v @ enc vs' = write_typed_basic w @ enc ws @ r" using Cons.prems(3) v(1) by simp
  then have "Some (v, enc vs') = Some (w, enc ws @ r)"
    using component_exact [OF v(2)] component_exact [OF ts(2)] by (metis read_write_basic)
  then have "v = w" "enc vs' = enc ws @ r" by simp_all
  with Cons.IH [OF v(3) ts(3)] v(1) show ?case by simp
qed simp

lemma lex_compare_prefix:
  assumes "full_key specs vs" "take (length ws) vs = ws"
  shows "lex_compare specs vs ws = Equal"
  using assms
proof (induction specs arbitrary: vs ws)
  case (Cons s specs)
  obtain t d where s: "s = (t, d)" by (cases s)
  obtain v vs' where v: "vs = v # vs'" "component t v" "full_key specs vs'"
    using Cons.prems(1) unfolding s by (rule full_key_cases)
  show ?case
  proof (cases ws)
    case (Cons w ws')
    with Cons.prems(2) v have "w = v" "take (length ws') vs' = ws'" by auto
    with Cons.IH [OF v(3)] show ?thesis
      using direction.refl [of v t d] v by (simp add: s Cons lex_compare_directed del: lex_compare.simps)
  qed simp
qed simp

lemma ascending_compare:
  assumes "rows_of specs rows" "key_of (map fst specs) ws" "r \<in> set rows"
  shows "clustering_key_comparator specs (enc r) (enc ws) = Some (lex_compare specs r ws)"
  using assms comparator_lex [of specs r ws] by (auto simp: rows_of_def list_all_iff full_key_of)

interpretation partition_keys: key_range "clustering_key_comparator specs" "ascending_keys specs" "key_bound specs" for specs
proof
  fix ks k b
  assume "ascending_keys specs ks" and b: "key_bound specs b"
  then obtain rows ws where r: "rows_of specs rows" "ks = map enc rows"
    and w: "key_of (map fst specs) ws" "b = enc ws"
    by (auto simp: ascending_keys_def key_bound_def)
  note cmp = ascending_compare [OF r(1) w(1)]
  have full: "full_key specs r" if "r \<in> set rows" for r using r(1) that by (simp add: rows_of_def list_all_iff)
  have sorted: "sorted_wrt (\<lambda>a b. lex_compare specs a b = Less) rows" using r(1) by (simp add: rows_of_def)
  have wc: "list_all2 component (take (length ws) (map fst specs)) ws" using w(1) by (simp add: key_of_def)
  show "sorted_wrt (\<lambda>k k'. clustering_key_comparator specs k' b = Some Less \<longrightarrow> clustering_key_comparator specs k b = Some Less) ks"
    unfolding r(2) w(2) sorted_wrt_map
    by (rule sorted_wrt_mono_rel [OF _ sorted]) (use cmp lex_between(1) [OF full full wc] in auto)
  show "sorted_wrt (\<lambda>k k'. clustering_key_comparator specs k b = Some Greater \<longrightarrow> clustering_key_comparator specs k' b = Some Greater) ks"
    unfolding r(2) w(2) sorted_wrt_map
    by (rule sorted_wrt_mono_rel [OF _ sorted]) (use cmp lex_between(2) [OF full full wc] in auto)
  assume "k \<in> set ks"
  then obtain v where v: "v \<in> set rows" "k = enc v" using r(2) by auto
  show "clustering_key_comparator specs k b \<noteq> None" using cmp [OF v(1)] v(2) w(2) by simp
  assume "ck_key_has_prefix b k"
  have len: "length (enc ws) < 2 ^ 16" "length (enc v) < 2 ^ 16"
    using w(1) r(1) v(1) by (auto simp: key_of_def rows_of_def list_all_iff)
  have "take (length (enc ws)) (enc v) = enc ws"
    using \<open>ck_key_has_prefix b k\<close> by (auto simp: ck_key_has_prefix_def v(2) w(2) split: if_splits)
  then have "enc v = enc ws @ drop (length (enc ws)) (enc v)" by (metis append_take_drop_id)
  from enc_prefix [OF full [OF v(1)] wc this] have "take (length ws) v = ws" .
  then show "clustering_key_comparator specs k b = Some Equal"
    using cmp [OF v(1)] lex_compare_prefix [OF full [OF v(1)]] by (simp add: v(2) w(2))
qed

end
