(* ===== verification/DeleteRange.thy ===== *)
theory DeleteRange
  imports RowScan
begin

text \<open>
  What \<open>DELETE FROM t WHERE p = .. AND c OP .. AND ..\<close> removes: the plan of \<open>PlanMutation\<close> run on the
  rows of a partition by \<open>RowScan\<close>, against the rows the clause describes. \<open>p\<close> is the only partition
  key column and \<open>c\<close> the first clustering column.
\<close>

section \<open>The clause\<close>

type_synonym range = "operator \<times> literal"

definition range_relation :: "bytes \<Rightarrow> range \<Rightarrow> relation" where
  "range_relation c r = ColumnRelation c (fst r) (Lit (snd r))"

definition literal_value_of :: "fpu \<Rightarrow> basic \<Rightarrow> literal \<Rightarrow> cv" where
  "literal_value_of fp t l = the (resolve_literal_scalar fp l (TBasic t))"

text \<open>The value of the column stands in the relation to the literal.\<close>

definition in_relation :: "fpu \<Rightarrow> basic \<Rightarrow> range \<Rightarrow> cv \<Rightarrow> bool" where
  "in_relation fp t r v \<longleftrightarrow> apply_operator (cmp_at t v (literal_value_of fp t (snd r))) (fst r) = Some True"

definition usable_range :: "fpu \<Rightarrow> basic \<Rightarrow> range \<Rightarrow> bool" where
  "usable_range fp t r \<longleftrightarrow> is_inequality (fst r) \<and> snd r \<noteq> LUnset \<and>
     (\<exists>v. resolve_literal_scalar fp (snd r) (TBasic t) = Some v \<and> component t v \<and> length (enc [v]) < 2 ^ 16)"

text \<open>The table: one partition key column \<open>p\<close>, a first clustering column \<open>c\<close> of type \<open>t\<close> and
  direction \<open>d\<close>, and no secondary index.\<close>

definition keyed_table :: "table \<Rightarrow> bytes \<Rightarrow> bytes \<Rightarrow> basic \<Rightarrow> sort_dir \<Rightarrow> column_spec list \<Rightarrow> bool" where
  "keyed_table tbl p c t d specs \<longleftrightarrow>
     find_pk_position tbl p = Some (Some 0) \<and> find_ck_position tbl p = Some None \<and>
     find_pk_position tbl c = Some None \<and> find_ck_position tbl c = Some (Some 0) \<and>
     find_column tbl p \<noteq> None \<and> find_column tbl c \<noteq> None \<and>
     length (partition_key_col_indices tbl) = 1 \<and> col_at tbl (hd (partition_key_col_indices tbl)) \<noteq> None \<and>
     clustered_by tbl (map fst specs) \<and> clustering_key_specs tbl = specs \<and>
     specs \<noteq> [] \<and> hd specs = (t, d) \<and> clustering_order_at tbl 0 = Some d \<and> indexes tbl = []"

definition is_upper :: "sort_dir \<Rightarrow> range \<Rightarrow> bool" where
  "is_upper d r \<longleftrightarrow> (if d = DESC then fst r \<in> {OpGt, OpGe} else fst r \<in> {OpLt, OpLe})"

text \<open>The ranges that are not overwritten by a later one on the same side.\<close>

fun effective :: "sort_dir \<Rightarrow> range list \<Rightarrow> range list" where
  "effective d [] = []"
| "effective d (r # rs) = (if list_ex (\<lambda>r'. is_upper d r' = is_upper d r) rs then effective d rs else r # effective d rs)"

lemma effective_distinct: "distinct (map (is_upper d) rs) \<Longrightarrow> effective d rs = rs"
  by (induction rs) (auto simp: list_ex_iff image_iff)

section \<open>Bounds of a list of ranges\<close>

definition ranges_bounds :: "sort_dir \<Rightarrow> (literal \<Rightarrow> bytes) \<Rightarrow> bool \<Rightarrow> range list \<Rightarrow> bytes bounds \<Rightarrow> bytes bounds" where
  "ranges_bounds d key partial rs bd =
     fold (\<lambda>r bd. apply_range_bound bd (fst r) d (key (snd r)) partial) rs bd"

definition meets :: "key_compare \<Rightarrow> sort_dir \<Rightarrow> (literal \<Rightarrow> bytes) \<Rightarrow> bytes \<Rightarrow> range \<Rightarrow> bool" where
  "meets compare d key k r \<longleftrightarrow> (case (if d = DESC then swap_operator (fst r) else fst r) of
       OpLt \<Rightarrow> (compare k (key (snd r)) = Some Less)
     | OpLe \<Rightarrow> (compare k (key (snd r)) \<noteq> Some Greater)
     | OpGt \<Rightarrow> (compare k (key (snd r)) = Some Greater)
     | OpGe \<Rightarrow> (compare k (key (snd r)) \<noteq> Some Less)
     | _ \<Rightarrow> True)"

lemma in_bounds_apply:
  assumes "is_inequality (fst r)"
  shows "in_bounds compare (apply_range_bound bd (fst r) d (key (snd r)) partial) k \<longleftrightarrow>
    meets compare d key k r \<and>
    (if is_upper d r then has_begin bd \<longrightarrow> after_begin compare bd k else has_end bd \<longrightarrow> before_end compare bd k)"
  using assms
  by (cases "fst r"; cases d)
    (auto simp: is_inequality_def meets_def is_upper_def apply_range_bound_def swap_operator_def in_bounds_def
      after_begin_def before_end_def)

lemma apply_keeps_side:
  assumes "is_inequality (fst r)"
  shows "is_upper d r \<Longrightarrow> has_begin (apply_range_bound bd (fst r) d (key (snd r)) partial) = has_begin bd \<and>
      after_begin compare (apply_range_bound bd (fst r) d (key (snd r)) partial) k = after_begin compare bd k"
    "\<not> is_upper d r \<Longrightarrow> has_end (apply_range_bound bd (fst r) d (key (snd r)) partial) = has_end bd \<and>
      before_end compare (apply_range_bound bd (fst r) d (key (snd r)) partial) k = before_end compare bd k"
    "is_upper d r \<Longrightarrow> has_end (apply_range_bound bd (fst r) d (key (snd r)) partial) \<and>
      (before_end compare (apply_range_bound bd (fst r) d (key (snd r)) partial) k \<longleftrightarrow> meets compare d key k r)"
    "\<not> is_upper d r \<Longrightarrow> has_begin (apply_range_bound bd (fst r) d (key (snd r)) partial) \<and>
      (after_begin compare (apply_range_bound bd (fst r) d (key (snd r)) partial) k \<longleftrightarrow> meets compare d key k r)"
  using assms
  by (cases "fst r"; cases d;
      simp add: is_inequality_def meets_def is_upper_def apply_range_bound_def swap_operator_def after_begin_def before_end_def)+

lemma in_ranges_bounds:
  assumes "\<forall>r \<in> set rs. is_inequality (fst r)"
  shows "in_bounds compare (ranges_bounds d key partial rs bd) k \<longleftrightarrow>
    list_all (meets compare d key k) (effective d rs) \<and>
    (list_ex (is_upper d) rs \<or> (has_end bd \<longrightarrow> before_end compare bd k)) \<and>
    (list_ex (\<lambda>r. \<not> is_upper d r) rs \<or> (has_begin bd \<longrightarrow> after_begin compare bd k))"
  using assms
proof (induction rs arbitrary: bd)
  case Nil
  then show ?case by (auto simp: ranges_bounds_def in_bounds_def)
next
  case (Cons r rs)
  let ?bd = "apply_range_bound bd (fst r) d (key (snd r)) partial"
  have IH: "in_bounds compare (ranges_bounds d key partial (r # rs) bd) k \<longleftrightarrow>
    list_all (meets compare d key k) (effective d rs) \<and>
    (list_ex (is_upper d) rs \<or> (has_end ?bd \<longrightarrow> before_end compare ?bd k)) \<and>
    (list_ex (\<lambda>r. \<not> is_upper d r) rs \<or> (has_begin ?bd \<longrightarrow> after_begin compare ?bd k))"
    using Cons.IH [of ?bd] Cons.prems by (simp add: ranges_bounds_def)
  show ?case
  proof (cases "is_upper d r")
    case True
    then show ?thesis
      using apply_keeps_side(1,3) [of r d bd key partial compare k] Cons.prems unfolding IH by auto
  next
    case False
    then show ?thesis
      using apply_keeps_side(2,4) [of r d bd key partial compare k] Cons.prems unfolding IH by auto
  qed
qed

section \<open>Planning the clause\<close>

definition literal_key :: "fpu \<Rightarrow> basic \<Rightarrow> literal \<Rightarrow> bytes" where
  "literal_key fp t l = enc [literal_value_of fp t l]"

definition add_range :: "fpu \<Rightarrow> table \<Rightarrow> bytes \<Rightarrow> basic \<Rightarrow> sort_dir \<Rightarrow> range \<Rightarrow> where_state \<Rightarrow> where_state" where
  "add_range fp tbl c t d r s = push_predicate (range_relation c r)
     (bound_ck (fst r) d (literal_key fp t (snd r)) (length (clustering_key_col_indices tbl) > 1) s)"

lemma key_of_single:
  assumes "keyed_table tbl p c t d specs" "component t v" "length (enc [v]) < 2 ^ 16"
  shows "key_of (map fst specs) [v]"
  using assms by (cases specs) (auto simp: keyed_table_def key_of_def)

lemma encode_single_literal:
  assumes "keyed_table tbl p c t d specs" "resolve_literal_scalar fp l (TBasic t) = Some v" "component t v"
    "length (enc [v]) < 2 ^ 16"
  shows "encode_clustering_single fp tbl (ELit l) = Some (enc [v])"
proof -
  have cl: "clustered_by tbl (map fst specs)" "specs \<noteq> []" "hd specs = (t, d)"
    using assms(1) by (simp_all add: keyed_table_def)
  then obtain ci rest where ci: "clustering_key_col_indices tbl = ci # rest" "basic_at tbl ci = Some t"
    by (cases "clustering_key_col_indices tbl"; cases specs) (auto simp: clustered_by_def bind_eq_Some_conv)
  show ?thesis
    using assms(2) append_component_exact [OF assms(3)]
    by (simp add: encode_clustering_single_def encode_clustering_prefix_def ci eval_to_cv_def)
qed

lemma locate_range:
  assumes "keyed_table tbl p c t d specs" "usable_range (fpu_of env) t r"
  shows "locate_relation env ctx tbl (range_relation c r) s w = Some (add_range (fpu_of env) tbl c t d r s, w)"
proof -
  obtain v where v: "resolve_literal_scalar (fpu_of env) (snd r) (TBasic t) = Some v" "component t v"
      "length (enc [v]) < 2 ^ 16" and op: "is_inequality (fst r)"
    using assms(2) by (auto simp: usable_range_def)
  from op have "fst r \<noteq> OpEq" "fst r \<noteq> OpIn" by (auto simp: is_inequality_def)
  then show ?thesis
    using assms(1) encode_single_literal [OF assms(1) v]
    by (simp add: range_relation_def locate_column_def locate_ck_def keyed_table_def add_range_def literal_key_def
        literal_value_of_def v(1))
qed

lemma locate_ranges:
  assumes "keyed_table tbl p c t d specs" "\<forall>r \<in> set rs. usable_range (fpu_of env) t r"
  shows "fold_io (locate_relation env ctx tbl) (map (range_relation c) rs) s w =
    Some (fold (add_range (fpu_of env) tbl c t d) rs s, w)"
  using assms(2) by (induction rs arbitrary: s) (simp_all add: locate_range [OF assms(1)])

lemma ranges_state:
  fixes fp tbl c t d rs s
  defines "s' \<equiv> fold (add_range fp tbl c t d) rs s"
  shows "pk_constraints s' = pk_constraints s" "pk_of s' = pk_of s" "ck_tuple_in_combos s' = ck_tuple_in_combos s"
    "index_col_idx (s_locator s') = index_col_idx (s_locator s)"
    "eq_vals (ck_constraints s') = eq_vals (ck_constraints s)" "eq_rels (ck_constraints s') = eq_rels (ck_constraints s)"
    "in_vals (ck_constraints s') = in_vals (ck_constraints s)" "in_seen (ck_constraints s') = in_seen (ck_constraints s)"
    "chain_violation (s_filter s') = chain_violation (s_filter s)"
    "\<forall>i > 0. range_seen (ck_constraints s') ! i = range_seen (ck_constraints s) ! i"
    "ck_of s' = ranges_bounds d (literal_key fp t) (length (clustering_key_col_indices tbl) > 1) rs (ck_of s)"
  unfolding s'_def
  by (induction rs arbitrary: s)
    (simp_all add: add_range_def bound_ck_def where_edits Let_def ranges_bounds_def)

lemma apply_range_flags:
  "is_equality (apply_range_bound bd op d k partial) = is_equality bd"
  "has_in (apply_range_bound bd op d k partial) = has_in bd"
  "in_values (apply_range_bound bd op d k partial) = in_values bd"
  by (cases op; cases d; simp add: apply_range_bound_def swap_operator_def)+

lemma fold_keeps: "(\<And>x s. g (f x s) = g s) \<Longrightarrow> g (fold f xs s) = g s"
  by (induction xs arbitrary: s) simp_all

lemma ranges_flags:
  "is_equality (ranges_bounds d key partial rs bd) = is_equality bd"
  "has_in (ranges_bounds d key partial rs bd) = has_in bd" "in_values (ranges_bounds d key partial rs bd) = in_values bd"
  unfolding ranges_bounds_def
  by (rule fold_keeps [where g = is_equality], rule apply_range_flags)
    (rule fold_keeps [where g = has_in], rule apply_range_flags,
     rule fold_keeps [where g = in_values], rule apply_range_flags)

lemma ranges_set_side:
  "\<forall>r \<in> set rs. is_inequality (fst r) \<Longrightarrow> rs \<noteq> [] \<Longrightarrow>
     has_begin (ranges_bounds d key partial rs bd) \<or> has_end (ranges_bounds d key partial rs bd)"
proof (induction rs rule: rev_induct)
  case (snoc r rs)
  then show ?case
    by (cases "fst r"; cases d)
      (auto simp: ranges_bounds_def is_inequality_def apply_range_bound_def swap_operator_def)
qed simp

lemma build_ranges:
  assumes "keyed_table tbl p c t d specs" "\<forall>r \<in> set rs. usable_range (fpu_of env) t r" "lp \<noteq> LNull"
    and "compute_partition_token_from_evals (fpu_of env) tbl [ELit lp] = Some tok"
  shows "\<exists>loc flt. build_row_locator env ctx tbl (ColumnRelation p OpEq (Lit lp) # map (range_relation c) rs) w =
      Some ((loc, flt), w) \<and>
    pk_bounds loc = point tok (empty_bounds 0) \<and>
    ck_bounds loc = ranges_bounds d (literal_key (fpu_of env) t) (length (clustering_key_col_indices tbl) > 1) rs (empty_bounds [])"
proof -
  note kt = assms(1) [unfolded keyed_table_def]
  let ?n = "length (clustering_key_col_indices tbl)" and ?fp = "fpu_of env"
  have n: "?n > 0" using kt clustered_by_length [of tbl "map fst specs"] by auto
  obtain pi where pi: "partition_key_col_indices tbl = [pi]" "col_at tbl pi \<noteq> None"
    using kt by (cases "partition_key_col_indices tbl") auto
  define s1 where "s1 = (initial_where tbl)\<lparr>pk_constraints :=
      push_eq_rel (ColumnRelation p OpEq (Lit lp)) (set_eq_val 0 (ELit lp) (init_constraints 1))\<rparr>"
  have s1: "pk_constraints s1 = push_eq_rel (ColumnRelation p OpEq (Lit lp)) (set_eq_val 0 (ELit lp) (init_constraints 1))"
    "ck_constraints s1 = init_constraints ?n" "pk_of s1 = empty_bounds 0" "ck_of s1 = empty_bounds []"
    "index_col_idx (s_locator s1) = None" "ck_tuple_in_combos s1 = []" "chain_violation (s_filter s1) = NoPlanError"
    by (simp_all add: s1_def initial_where_def empty_locator_def empty_filter_def)
  have first: "locate_relation env ctx tbl (ColumnRelation p OpEq (Lit lp)) (initial_where tbl) w = Some (s1, w)"
    using kt pi assms(3)
    by (auto simp: s1_def locate_column_def locate_pk_def is_null_eval_def pk_index_def try_capture_index_def col_is_indexed_def
        initial_where_def empty_locator_def split: ctype.split)
  define s2 where "s2 = fold (add_range ?fp tbl c t d) rs s1"
  have loop: "fold_io (locate_relation env ctx tbl) (ColumnRelation p OpEq (Lit lp) # map (range_relation c) rs)
      (initial_where tbl) w = Some (s2, w)"
    using locate_ranges [OF assms(1,2)] first by (simp add: s2_def)
  note st = ranges_state [of ?fp tbl c t d rs s1, folded s2_def, unfolded s1]
  define s3 where "s3 = set_pk_bounds (point tok (empty_bounds 0))
      (s2\<lparr>pk_constraints := (pk_constraints s2)\<lparr>eq_vals := [Some (moved_from (ELit lp))]\<rparr>\<rparr>)"
  define s4 where "s4 = s3\<lparr>s_locator := (s_locator s3)\<lparr>pk_evals := [ELit lp]\<rparr>\<rparr>"
  have pk: "finish_pk ?fp tbl s2 = Some s4"
    using pi assms(4)
    by (simp add: finish_pk_def Let_def st where_edits init_constraints_def all_positions_eq_def drain_eq_combo_def
        s3_def s4_def)
  have s4: "ck_constraints s4 = ck_constraints s2" "ck_of s4 = ck_of s2" "ck_tuple_in_combos s4 = []"
    "pk_of s4 = point tok (empty_bounds 0)" "index_col_idx (s_locator s4) = None"
    by (simp_all add: s4_def s3_def set_pk_bounds_def st)
  have kc: "eq_vals (ck_constraints s2) = replicate ?n None" "eq_rels (ck_constraints s2) = []"
    "in_seen (ck_constraints s2) = replicate ?n False" "\<forall>i. 0 < i \<longrightarrow> i < ?n \<longrightarrow> \<not> range_seen (ck_constraints s2) ! i"
    by (simp_all add: st init_constraints_def)
  have ck: "finish_ck ?fp tbl s4 = Some s4"
  proof -
    have "\<not> all_positions_covered (ck_constraints s2) ?n" "\<not> any_empty_in (ck_constraints s2) ?n"
      using n kc by (auto simp: all_positions_covered_def any_empty_in_def list_ex_iff list_all_iff)
    then show ?thesis using n kc by (simp add: finish_ck_def Let_def s4 list_ex_iff)
  qed
  have "eq_prefix (eq_vals (ck_constraints s4)) = []" using n kc(1) by (cases ?n) (simp_all add: s4)
  then have prefix: "finish_prefix ?fp tbl s4 = Some s4" by (simp add: finish_prefix_def)
  have "contiguous (ck_constraints s4) ?n"
    using kc by (auto simp: contiguous_def restricted_def s4)
  then have chain: "validate_chain tbl s4 = Some s4"
    by (simp add: validate_chain_def Let_def chain_break_None [symmetric])
  show ?thesis
    unfolding build_row_locator_def loop
    by (simp add: pk ck prefix chain Let_def set_eq_prefix_len_def prefer_partition_def require_gap_filtering_def
        require_filtering_def s4 st)
qed

section \<open>The rows removed\<close>

lemma ranges_keys:
  assumes "\<forall>r \<in> set rs. is_inequality (fst r)"
  shows "has_begin (ranges_bounds d key partial rs (empty_bounds b)) \<Longrightarrow>
      \<exists>r \<in> set rs. bound_begin (ranges_bounds d key partial rs (empty_bounds b)) = key (snd r)"
    "has_end (ranges_bounds d key partial rs (empty_bounds b)) \<Longrightarrow>
      \<exists>r \<in> set rs. bound_end (ranges_bounds d key partial rs (empty_bounds b)) = key (snd r)"
    "has_begin (ranges_bounds d key partial rs (empty_bounds b)) \<or>
      \<not> begin_is_partial (ranges_bounds d key partial rs (empty_bounds b))"
  using assms
proof (induction rs rule: rev_induct)
  case (snoc r rs)
  { case 1 then show ?case using snoc.IH
      by (cases "fst r"; cases d) (auto simp: ranges_bounds_def is_inequality_def apply_range_bound_def swap_operator_def) }
  { case 2 then show ?case using snoc.IH
      by (cases "fst r"; cases d) (auto simp: ranges_bounds_def is_inequality_def apply_range_bound_def swap_operator_def) }
  { case 3 then show ?case using snoc.IH
      by (cases "fst r"; cases d) (auto simp: ranges_bounds_def is_inequality_def apply_range_bound_def swap_operator_def) }
qed (simp_all add: ranges_bounds_def empty_bounds_def)

lemma compare_first:
  assumes "component t x" "component t v"
  shows "lex_compare ((t, d) # specs) (x # xs) [v] = (if directed t d x v < 0 then Less else if 0 < directed t d x v then Greater else Equal)"
  using assms by (simp add: lex_compare_directed del: lex_compare.simps(1))

lemma meets_in_relation:
  assumes "keyed_table tbl p c t d specs" "usable_range fp t r" "rows_of specs rows" "row \<in> set rows"
  shows "meets (compare_clustering tbl) d (literal_key fp t) (enc row) r \<longleftrightarrow> in_relation fp t r (hd row)"
proof -
  obtain v where v: "resolve_literal_scalar fp (snd r) (TBasic t) = Some v" "component t v" "length (enc [v]) < 2 ^ 16"
    and op: "is_inequality (fst r)"
    using assms(2) by (auto simp: usable_range_def)
  obtain ss where ss: "specs = (t, d) # ss" "clustering_key_specs tbl = specs"
    using assms(1) by (cases specs) (auto simp: keyed_table_def)
  have "full_key specs row" using assms(3,4) by (simp add: rows_of_def list_all_iff)
  then obtain x xs where x: "row = x # xs" "component t x" unfolding ss(1) by (rule full_key_cases)
  have "compare_clustering tbl (enc row) (literal_key fp t (snd r)) =
      Some (if directed t d x v < 0 then Less else if 0 < directed t d x v then Greater else Equal)"
    using ascending_compare [OF assms(3) key_of_single [OF assms(1) v(2,3)] assms(4)] compare_first [OF x(2) v(2), of d ss xs]
    by (simp add: compare_clustering_def ss literal_key_def literal_value_of_def v(1) x(1))
  then show ?thesis
    using op cmp_at_flip [OF x(2) v(2)]
    by (cases "fst r"; cases d)
      (auto simp: meets_def in_relation_def is_inequality_def swap_operator_def apply_operator_def literal_value_of_def
        v(1) x(1) directed_def)
qed

definition range_delete :: "bytes \<Rightarrow> bytes \<Rightarrow> literal \<Rightarrow> range list \<Rightarrow> delete_stmt" where
  "range_delete p c lp rs = \<lparr>selections = [], delete_where = ColumnRelation p OpEq (Lit lp) # map (range_relation c) rs\<rparr>"

lemma check_ranges:
  assumes "keyed_table tbl p c t d specs" "\<forall>r \<in> set rs. usable_range fp t r" "lp \<noteq> LUnset"
  shows "check_mutation_where ctx tbl (delete_where (range_delete p c lp rs)) = Some (NoPlanError, [])"
proof -
  have "validate_mutation_where tbl (map (range_relation c) rs) = Some (NoPlanError, [])"
    using assms(1) by (induction rs) (auto simp: range_relation_def keyed_table_def)
  moreover have "\<not> where_has_unset_binding (delete_where (range_delete p c lp rs)) ctx"
    using assms(2,3)
    by (auto simp: where_has_unset_binding_def list_ex_iff range_delete_def range_relation_def usable_range_def)
  moreover have "\<not> list_ex is_token_relation (delete_where (range_delete p c lp rs))"
    by (auto simp: list_ex_iff is_token_relation_def range_delete_def range_relation_def)
  ultimately show ?thesis
    using assms(1) by (simp add: check_mutation_where_def range_delete_def keyed_table_def)
qed

lemma deletes_effective:
  assumes "keyed_table tbl p c t d specs" "\<forall>r \<in> set rs. usable_range (fpu_of env) t r" "lp \<noteq> LNull" "lp \<noteq> LUnset"
    and "compute_partition_token_from_evals (fpu_of env) tbl [ELit lp] = Some tok" "rows_of specs rows"
  shows "\<exists>plan. plan_delete env ctx tbl (range_delete p c lp rs) w = Some (plan, w) \<and>
    mut_status plan = (NoPlanError, []) \<and> is_full_delete plan \<and> pk_bounds (mut_locator plan) = point tok (empty_bounds 0) \<and>
    apply_for_ck_del (compare_clustering tbl) (ck_bounds (mut_locator plan)) (map enc rows) =
      Some (map enc (filter (\<lambda>row. list_all (\<lambda>r. in_relation (fpu_of env) t r (hd row)) (effective d rs)) rows))"
proof -
  let ?fp = "fpu_of env"
  let ?bd = "ranges_bounds d (literal_key ?fp t) (length (clustering_key_col_indices tbl) > 1) rs (empty_bounds [])"
  obtain loc flt where loc: "build_row_locator env ctx tbl (delete_where (range_delete p c lp rs)) w = Some ((loc, flt), w)"
      "pk_bounds loc = point tok (empty_bounds 0)" "ck_bounds loc = ?bd"
    using build_ranges [OF assms(1,2,3,5), of ctx w] by (auto simp: range_delete_def)
  define plan where "plan = empty_mutation\<lparr>mut_locator := loc, mut_filter := flt, is_full_delete := True\<rparr>"
  have "selections (range_delete p c lp rs) = []" by (simp add: range_delete_def)
  then have run: "plan_delete env ctx tbl (range_delete p c lp rs) w = Some (plan, w)"
    by (simp add: plan_delete_def check_ranges [OF assms(1,2,4)] loc plan_def pk_given_def point_def check_delete_ck_def)
  have ineq: "\<forall>r \<in> set rs. is_inequality (fst r)" using assms(2) by (simp add: usable_range_def)
  have specs: "compare_clustering tbl = clustering_key_comparator specs"
    using assms(1) by (simp add: fun_eq_iff compare_clustering_def keyed_table_def)
  have key: "key_bound specs (literal_key ?fp t (snd r))" if "r \<in> set rs" for r
  proof -
    obtain v where "resolve_literal_scalar ?fp (snd r) (TBasic t) = Some v" "component t v" "length (enc [v]) < 2 ^ 16"
      using assms(2) \<open>r \<in> set rs\<close> by (auto simp: usable_range_def)
    with key_of_single [OF assms(1)] show ?thesis
      unfolding key_bound_def literal_key_def literal_value_of_def by fastforce
  qed
  have asc: "ascending_keys specs (map enc rows)" using assms(6) by (auto simp: ascending_keys_def)
  have flags: "\<not> is_equality ?bd" "\<not> has_in ?bd" "in_values ?bd = []"
    by (simp_all add: ranges_flags empty_bounds_def)
  have "deleted_keys (clustering_key_comparator specs) ?bd (map enc rows) =
      Some (filter (in_bounds (clustering_key_comparator specs) ?bd) (map enc rows))"
    by (rule partition_keys.deleted_in_bounds [OF asc flags(1)])
      (use ranges_keys [OF ineq] key in \<open>metis\<close>)+
  also have "filter (in_bounds (clustering_key_comparator specs) ?bd) (map enc rows) =
      map enc (filter (\<lambda>row. in_bounds (compare_clustering tbl) ?bd (enc row)) rows)"
    by (simp add: filter_map o_def specs)
  also have "filter (\<lambda>row. in_bounds (compare_clustering tbl) ?bd (enc row)) rows =
      filter (\<lambda>row. list_all (\<lambda>r. in_relation ?fp t r (hd row)) (effective d rs)) rows"
  proof (rule filter_cong [OF refl])
    fix row assume "row \<in> set rows"
    note m = meets_in_relation [OF assms(1) _ assms(6) this]
    have "set (effective d rs) \<subseteq> set rs" by (induction rs) auto
    then have "list_all (meets (compare_clustering tbl) d (literal_key ?fp t) (enc row)) (effective d rs) \<longleftrightarrow>
        list_all (\<lambda>r. in_relation ?fp t r (hd row)) (effective d rs)"
      unfolding list_all_iff using m assms(2) by blast
    then show "in_bounds (compare_clustering tbl) ?bd (enc row) \<longleftrightarrow> list_all (\<lambda>r. in_relation ?fp t r (hd row)) (effective d rs)"
      unfolding in_ranges_bounds [OF ineq] by (simp add: empty_bounds_def)
  qed
  finally have "apply_for_ck_del (compare_clustering tbl) ?bd (map enc rows) =
      Some (map enc (filter (\<lambda>row. list_all (\<lambda>r. in_relation ?fp t r (hd row)) (effective d rs)) rows))"
    using flags by (simp add: apply_for_ck_del_def specs)
  moreover have "mut_status plan = (NoPlanError, [])" "is_full_delete plan" "mut_locator plan = loc"
    by (simp_all add: plan_def empty_mutation_def)
  ultimately show ?thesis using run loc(2,3) by metis
qed



definition example_rows :: "cv list list" where
  "example_rows = [[CS32 12, CU8 1], [CS32 9, CU8 0], [CS32 9, CU8 2], [CS32 3, CU8 0]]"

lemma example_keyed: "keyed_table example_table [112] [105] BInt DESC [(BInt, DESC), (BTinyint, ASC)]"
  using example_table_clustered
  by (simp add: keyed_table_def example_table_indices find_pk_position_def find_ck_position_def find_key_position_def
      find_column_def clustering_order_at_def ck_index_def example_cols col_at_def)

lemma example_usable: "usable_range example_fpu BInt (OpGt, LInt 3)" "usable_range example_fpu BInt (OpLe, LInt 9)"
  "usable_range example_fpu BInt (OpGt, LInt 9)"
  by (simp_all add: usable_range_def is_inequality_def resolve_literal_scalar_def is_literal_integer_family_def
      narrow_s64_literal_def component_def ordered_values_def enc_def)

lemma example_ordered: "rows_of [(BInt, DESC), (BTinyint, ASC)] example_rows"
  by (simp add: rows_of_def example_rows_def component_def ordered_values_def enc_def compare_defs)


text \<open>Two bounds on the same side: only the last counts, so \<open>c > 10 AND c > 5\<close> removes the rows from 5 on.\<close>

theorem delete_keeps_last_bound:
  assumes "keyed_table tbl p c t d specs" "\<forall>r \<in> {r1, r2}. usable_range (fpu_of env) t r" "is_upper d r1 = is_upper d r2"
    and "lp \<noteq> LNull" "lp \<noteq> LUnset" "compute_partition_token_from_evals (fpu_of env) tbl [ELit lp] = Some tok"
    and "rows_of specs rows"
  shows "\<exists>plan. plan_delete env ctx tbl (range_delete p c lp [r1, r2]) w = Some (plan, w) \<and> is_full_delete plan \<and>
    apply_for_ck_del (compare_clustering tbl) (ck_bounds (mut_locator plan)) (map enc rows) =
      Some (map enc (filter (\<lambda>row. in_relation (fpu_of env) t r2 (hd row)) rows))"
  using deletes_effective [OF assms(1) _ assms(4,5,6,7), of "[r1, r2]" ctx w] assms(2,3) by auto


text \<open>A bound on the second clustering column goes to the filter, which a \<open>DELETE\<close> never evaluates:
  \<open>i = 9 AND t > 1\<close> removes the row with \<open>t = 0\<close> too.\<close>

theorem delete_ignores_second_column:
  "\<exists>plan. plan_delete example_env (example_ctx []) example_table \<lparr>selections = [], delete_where =
       [ColumnRelation [112] OpEq (Lit (LInt 1)), ColumnRelation [105] OpEq (Lit (LInt 9)), ColumnRelation [116] OpGt (Lit (LInt 1))]\<rparr>
       example_world = Some (plan, example_world) \<and>
     mut_status plan = (NoPlanError, []) \<and> predicates (mut_filter plan) = [ColumnRelation [116] OpGt (Lit (LInt 1)), ColumnRelation [105] OpEq (Lit (LInt 9))] \<and>
     apply_for_ck_del (compare_clustering example_table) (ck_bounds (mut_locator plan)) (map enc example_rows) =
       Some (map enc [[CS32 9, CU8 0], [CS32 9, CU8 2]])"
proof -
  have env: "fpu_of example_env = example_fpu" by (simp add: example_env_def)
  obtain tok where tok: "compute_partition_token_from_evals example_fpu example_table [ELit (LInt 1)] = Some tok"
    using example_token by auto
  have key: "encode_clustering_single example_fpu example_table (ELit (LInt 9)) = Some (enc [CS32 9])"
    using encode_single_literal [OF example_keyed, of example_fpu "LInt 9" "CS32 9"] example_usable(3)
    by (simp add: usable_range_def literals)
  let ?bd = "prefix_range (enc [CS32 9]) (empty_bounds [])"
  have "deleted_keys (compare_clustering example_table) ?bd (map enc example_rows) = Some (map enc [[CS32 9, CU8 0], [CS32 9, CU8 2]])"
  proof -
    have "clustering_key_comparator [(BInt, DESC), (BTinyint, ASC)] (enc row) (enc [CS32 9]) =
        Some (lex_compare [(BInt, DESC), (BTinyint, ASC)] row [CS32 9])" if "row \<in> set example_rows" for row
      by (rule ascending_compare [OF example_ordered _ that]) (simp add: example_key)
    then show ?thesis
      by (simp add: compare_clustering_def example_table_indices example_rows_def deleted_keys_def start_of_def collect_range_def
          first_greater_equal_def past_end_def compare_tests prefix_range_def empty_bounds_def skip_prefixed_def compare_defs
          del: enc_simps)
  qed
  then have "apply_for_ck_del (compare_clustering example_table) ?bd (map enc example_rows) =
      Some (map enc [[CS32 9, CU8 0], [CS32 9, CU8 2]])"
    by (simp add: apply_for_ck_del_def prefix_range_def empty_bounds_def)
  moreover have "\<exists>plan. plan_delete example_env (example_ctx []) example_table \<lparr>selections = [], delete_where =
       [ColumnRelation [112] OpEq (Lit (LInt 1)), ColumnRelation [105] OpEq (Lit (LInt 9)), ColumnRelation [116] OpGt (Lit (LInt 1))]\<rparr>
       example_world = Some (plan, example_world) \<and>
     mut_status plan = (NoPlanError, []) \<and> predicates (mut_filter plan) = [ColumnRelation [116] OpGt (Lit (LInt 1)), ColumnRelation [105] OpEq (Lit (LInt 9))] \<and>
     ck_bounds (mut_locator plan) = ?bd"
    using tok key by (simp add: example_run env empty_mutation_def del: enc_simps)
  ultimately show ?thesis by metis
qed

text \<open>\<open>i = null\<close> restricts nothing: the statement removes every row of the partition.\<close>

theorem delete_null_removes_partition:
  "\<exists>plan. plan_delete example_env (example_ctx []) example_table \<lparr>selections = [], delete_where =
       [ColumnRelation [112] OpEq (Lit (LInt 1)), ColumnRelation [105] OpEq (Lit LNull)]\<rparr>
       example_world = Some (plan, example_world) \<and>
     mut_status plan = (NoPlanError, []) \<and>
     apply_for_ck_del (compare_clustering example_table) (ck_bounds (mut_locator plan)) keys = Some keys"
proof -
  have env: "fpu_of example_env = example_fpu" by (simp add: example_env_def)
  obtain tok where tok: "compute_partition_token_from_evals example_fpu example_table [ELit (LInt 1)] = Some tok"
    using example_token by auto
  have "apply_for_ck_del (compare_clustering example_table) (empty_bounds []) keys = Some keys"
    by (simp add: apply_for_ck_del_def empty_bounds_def deleted_keys_def start_of_def collect_range_def skip_prefixed_def)
  moreover have "\<exists>plan. plan_delete example_env (example_ctx []) example_table \<lparr>selections = [], delete_where =
       [ColumnRelation [112] OpEq (Lit (LInt 1)), ColumnRelation [105] OpEq (Lit LNull)]\<rparr>
       example_world = Some (plan, example_world) \<and>
     mut_status plan = (NoPlanError, []) \<and> ck_bounds (mut_locator plan) = empty_bounds []"
    using tok by (simp add: example_run env empty_mutation_def)
  ultimately show ?thesis by metis
qed

text \<open>\<open>c > 10 AND c < 5\<close> on a table with one clustering column: the scan starts behind the end it stops at, runs
  to the end of the tree and reads there.\<close>

theorem empty_range_scan_traps:
  "forward_scan (clustering_key_comparator [(BInt, ASC)])
     (apply_range_bound (apply_range_bound (empty_bounds []) OpGt ASC (enc [CS32 10]) False) OpLt ASC (enc [CS32 5]) False)
     (map enc [[CS32 7]]) = None"
proof -
  have rows: "rows_of [(BInt, ASC)] [[CS32 7]]" by (simp add: rows_of_def component_def ordered_values_def enc_def)
  have key: "key_of [BInt] [CS32 n]" for n by (simp add: key_of_def component_def ordered_values_def enc_def)
  have cmp: "clustering_key_comparator [(BInt, ASC)] (enc [CS32 7]) (enc [CS32 n]) = Some (lex_compare [(BInt, ASC)] [CS32 7] [CS32 n])" for n
    by (rule ascending_compare [OF rows]) (simp_all add: key)
  have "key_bound [(BInt, ASC)] (enc [CS32 n])" for n unfolding key_bound_def using key [of n] by (intro exI [of _ "[CS32 n]"]) simp
  then show ?thesis
    by (intro partition_keys.forward_overrun [where k = "enc [CS32 7]"])
      (use rows cmp in \<open>auto simp: ascending_keys_def apply_range_bound_def empty_bounds_def after_begin_def before_end_def
        in_bounds_def compare_defs simp del: enc_simps intro!: exI [of _ "[[CS32 7]]"]\<close>)
qed

end
