(* ===== verification/Spec2Isabelle.thy ===== *)
theory Spec2Isabelle
  imports Glob Resp SystemTables Anomalies Wire DeleteRange
begin

text \<open>
  PlexDB: a page store with two databases on it, a Cassandra-like one (\<open>cql\<close>) and a Redis-like
  one (\<open>keyvalue\<close>). This development models the parts of the program below and proves what makes
  them correct. Every definition is translated from the C++ of \<open>src/\<close>, and every function of the code
  keeps its name where Isabelle allows it.

  \<^bold>\<open>Parts and how they interact.\<close> Clients send statements over a socket. The parsers of
  \<open>keyvalue/parsers\<close> and \<open>cql/parsers\<close> turn them into statement values; the engines evaluate terms
  (\<open>cql/engine/evaluator.cpp\<close>), encode rows (\<open>io.codec.cpp\<close>) and keys (\<open>key.cpp\<close>), look the partition
  up by its token (\<open>token.cpp\<close>) and keep everything in B-trees and blobs, whose pages come from the
  pager (\<open>core/pager\<close>) and are made durable by its write-ahead log. Replies go back through
  \<open>resp.protocol.cpp\<close> or the native protocol.

  \<^bold>\<open>Theories and the code they model.\<close>
  \<^item> Prelude: integer types (\<open>U8\<close> to \<open>S64\<close> are words of 8 to 64 bits), assertions as values of
    \<open>option\<close>, array edits, list and word lemmas. Bytes: little- and big-endian images of words and the
    cursor over them.
  \<^item> Wal (\<open>pager.wal.cpp\<close>): headers, frames, append, commit, read and reset of the log; a disk is the
    database file and the log file, and each transfer is a \<open>devent\<close>. Pager (\<open>pager.cpp\<close>): the record
    \<open>pager\<close> is the class \<open>Pager\<close> (cache, header pair, log index, transaction flag, waiting queue); one
    definition per method, from opening to commit, rollback, checkpoint, recovery, \<open>new_page\<close> and
    \<open>delete_page\<close>.
  \<^item> Recovery, Commit, Atomicity, Session: the abstract database (a header and a map from page numbers
    to pages), the relation \<open>represents\<close> of a disk with it, the crash model, the invariants \<open>idle_inv\<close>
    and \<open>tx_inv\<close>, and the preservation of both by every operation and every prefix of its transfers.
    Alloc: the set of allocated pages of the bitset pages. Runs: the step relation \<open>run\<close> of a client
    and the theorems about it. Anomalies: two runs in which the code loses pages.
  \<^item> Text (\<open>core/base/string.cpp\<close>), Glob (\<open>keyvalue/glob/glob.cpp\<close>), Resp (\<open>keyvalue/parsers\<close>,
    \<open>keyvalue/resp/resp.protocol.cpp\<close>), SystemTables (dispatch of system keyspaces in \<open>engine.cpp\<close>).
  \<^item> HashTable (\<open>DynamicMap\<close> and \<open>DynamicSet\<close> of \<open>core/dynamic/containers.cppm\<close>), with the interface
    locale \<open>hashed\<close> of a hash that respects an equality.
  \<^item> CqlValue (\<open>types.cppm\<close>, \<open>column_value.cppm\<close>), Codec (the generated readers and writers of basic
    values), NestedCodec (\<open>io.codec.cpp\<close>: rows, cells, masks, collections, tuples, user-defined types),
    Compare (\<open>column_value.cpp\<close>, with the interface locale \<open>three_way\<close> of a total comparison), CqlHash
    (xxHash64, equality and hash of nested values), Token (\<open>token.cpp\<close>).
  \<^item> Schema (\<open>schema.cpp\<close>: tables in memory), Terms (\<open>statements.cppm\<close> and literals), Key (\<open>key.cpp\<close>
    and the comparator of the B-trees), Evaluator (\<open>evaluator.cpp\<close>: functions, arithmetic, relations,
    bind markers), IoEvaluator (\<open>io.evaluator.cpp\<close>: evaluated terms as column values).
  \<^item> SchemaTypes (\<open>types.cpp\<close>, \<open>schema.types.cpp\<close>: names, hashes and assignment rules of types, and types
    on disk), Locator, PlanSelect and PlanMutation (\<open>planner.cpp\<close>: the \<open>WHERE\<close> clause as a \<open>row_locator\<close>
    and a \<open>filter_plan\<close>, then \<open>SELECT\<close>, \<open>UPDATE\<close> and \<open>DELETE\<close>), RowScan (\<open>it.cpp\<close> and the row deletion of
    \<open>engine.cpp\<close>: the rows of one partition that bounds reach, over the ascending list of its keys, with the
    locale \<open>key_range\<close> of a bound in an ordered list), DeleteRange (the plan of a \<open>DELETE\<close> run on the rows).
  \<^item> Crc (\<open>cql/crc\<close>), Framing (\<open>cql/native\<close>: the frames of protocol versions 4 and 5, both receiving
    loops and the sender, with the locales \<open>transport\<close> and \<open>consuming\<close>), Wire (\<open>cql/native\<close>: strings,
    bound values, result columns and type options).

  \<^bold>\<open>What the lemmas show.\<close>
  \<^item> Storage: after any run of the pager and a crash at any moment of it, recovery finds the header and
    the pages of the last commit, or of the commit in progress; recovery may itself crash; a reader
    outside the transaction sees committed pages; the allocator hands out a page nobody has and takes
    back the one it is given.
  \<^item> Codecs: what the writers write the readers read back, with their cursor at the end of it, at every
    column type; skipping agrees with reading; the two readers agree; the anomalies are theorems too.
  \<^item> Orders: the comparisons are total orders on the values a column can hold, decimals compare by the
    number they denote, clustering keys compare lexicographically under the ASC and DESC of the table,
    an index key gives back the clustering values in it.
  \<^item> Hashing: equal values hash equally, sets and maps hold each value once, tokens do not depend on
    how a key was cut into pieces.
  \<^item> Evaluation: \<open>now()\<close> never returns a value twice and grows, a literal list membership is equality
    with one member, markers are numbered in order.
  \<^item> Planning: a clause on the clustering columns is refused exactly when it skips one, \<open>IN\<close> lists give every
    combination once, \<open>ORDER BY\<close> is accepted exactly along the clustering order or against it; accepted
    mutations name their partitions, increment counters, patch collections only and leave the key alone when
    they delete; a \<open>DELETE\<close> with bounds removes exactly the rows within them. What it gets wrong (a bound on
    the second column, two bounds on one side, a null, an empty range) are theorems beside it.
  \<^item> Wire: a request parses back to itself and consumes exactly its bytes, a truncated one is reported.
    The tables of the checksums are the shift registers they stand for; envelopes sent in frames are
    handed over whole and in order; a damaged frame is refused; a value sent in a row and bound again
    is the same value.

  \<^bold>\<open>Conventions and bounds.\<close> A failed assertion (\<open>assert_true\<close>, enabled in the builds) is
  \<open>None\<close>; errors of the code are constructors of result types. Loops are structural recursions or
  functions with a measure. The reader of types takes the length of the blob as fuel, which is enough because
  every type takes a byte (\<open>read_type_fuel\<close>). The two loops that may run for ever,
  \<open>append_fmt_callback\<close> and the receiving loop \<open>serve\<close>, are \<open>partial_function\<close>s, and when they return
  is a theorem.
  Files hold pages and 64-bit words; the 32-byte header write and the write of the frame count are
  atomic, whatever was written before the last sync of a file is durable, and every page written since
  may hold anything after a crash. Transfers are synchronous and \<open>when_all\<close> runs in list order.
  The machine is little-endian. Floats are bit patterns; floating-point arithmetic is the record
  \<open>fpu\<close> of parameters, clocks and entropy are the record \<open>env\<close>. Operands are evaluated from left to
  right. Pointers into a receive buffer are the suffix of the buffer they point at.

  \<^bold>\<open>Not modelled.\<close> The grammar of CQL (template code of the library lexy), the
  execution of statements beyond the keys a \<open>DELETE\<close> removes, the schema on disk beyond its types, the messages of the native protocol and its negotiation, the B-trees and the paged blobs, system calls, sockets,
  coroutines, threads, plugins, and vendored code. In the pager: the base offset of the file, the
  cancellation of a coroutine that waits for a transaction, and the race of two loads of one page. A
  null pointer to a user-defined type is not modelled.
\<close>

end
